(* ===== verification/Obix_Prelude.thy ===== *)
theory Obix_Prelude
  imports Main "HOL-Library.Word" "HOL-Library.Sublist"
begin

text \<open>
  Shared vocabulary of the oBIX development: C strings, C integers and the list facts
  the components use.

  A NUL-terminated C string is the list of the characters before the terminator
  (\<open>cstr\<close>).  Reading the byte at an offset is \<open>cget\<close>: at the length of the string
  it is the terminator; a read past the terminator is never made by the modelled code
  on the inputs the theorems admit.  A C \<open>int\<close> is an \<open>int\<close>; where the code can wrap,
  \<open>c_int\<close> (32-bit two's complement, LP64) writes the wrap-around out.
\<close>

unbundle bit_operations_syntax

section \<open>Proof collections\<close>

named_theorems obix_defs \<open>definitions unfolded by the component proofs\<close>
named_theorems inv_intros \<open>invariant preservation, one rule per operation\<close>

section \<open>C strings\<close>

type_synonym cstr = string

definition NUL :: char where
  "NUL = CHR 0x00"

definition cget :: "cstr \<Rightarrow> nat \<Rightarrow> char" where
  "cget s i = (if i < length s then s ! i else NUL)"

definition wf_cstr :: "cstr \<Rightarrow> bool" where
  "wf_cstr s \<longleftrightarrow> NUL \<notin> set s"

definition slash :: char where
  "slash = CHR ''/''"

lemma slash_not_NUL [simp]: "slash \<noteq> NUL" "NUL \<noteq> slash"
  by (simp_all add: slash_def NUL_def)

lemma cget_0_Cons [simp]: "cget (x # xs) 0 = x"
  by (simp add: cget_def)

lemma cget_Nil [simp]: "cget [] i = NUL"
  by (simp add: cget_def)

lemma cget_Suc_Cons [simp]: "cget (x # xs) (Suc i) = cget xs i"
  by (simp add: cget_def)

lemma cget_append_left: "i < length s \<Longrightarrow> cget (s @ t) i = s ! i"
  by (simp add: cget_def nth_append)

lemma cget_length [simp]: "cget s (length s) = NUL"
  by (simp add: cget_def)

section \<open>C integers\<close>

definition c_int :: "int \<Rightarrow> int" where
  "c_int i = (i + 2 ^ 31) mod 2 ^ 32 - 2 ^ 31"

lemma c_int_id [simp]: "- (2 ^ 31) \<le> i \<Longrightarrow> i < 2 ^ 31 \<Longrightarrow> c_int i = i"
  by (simp add: c_int_def)

lemma c_int_range: "- (2 ^ 31) \<le> c_int i \<and> c_int i < 2 ^ 31"
proof -
  have "0 \<le> (i + 2 ^ 31) mod (2 ^ 32)" "(i + 2 ^ 31) mod (2 ^ 32) < 2 ^ 32"
    by simp_all
  then show ?thesis by (simp add: c_int_def)
qed

text \<open>C division and remainder truncate towards zero.\<close>

definition c_div :: "int \<Rightarrow> int \<Rightarrow> int" where
  "c_div a b = sgn a * sgn b * (\<bar>a\<bar> div \<bar>b\<bar>)"

definition c_mod :: "int \<Rightarrow> int \<Rightarrow> int" where
  "c_mod a b = a - b * c_div a b"

lemma c_div_nonneg: "0 \<le> a \<Longrightarrow> 0 < b \<Longrightarrow> c_div a b = a div b"
  by (cases "a = 0") (simp_all add: c_div_def)

lemma c_mod_nonneg: "0 \<le> a \<Longrightarrow> 0 < b \<Longrightarrow> c_mod a b = a mod b"
  by (simp add: c_mod_def c_div_nonneg minus_mult_div_eq_mod)

section \<open>Lists\<close>

lemma sorted_filter_id: "sorted xs \<Longrightarrow> sorted (filter P xs)"
  by (simp add: sorted_wrt_filter)

lemma map_update_same: "f y = f (xs ! i) \<Longrightarrow> map f (xs[i := y]) = map f xs"
  by (metis list_update_id map_update)

end
