(* ===== verification/Obix_Interfaces.thy ===== *)
theory Obix_Interfaces
  imports Obix_Prelude
begin

text \<open>
  The contracts between the components, as locales.  Each one fixes the operations a client
  calls and assumes what their provider promises; the client's lemmas are proved once
  inside.  The theory of the provider interprets the locale on the definitions that model
  the code: \<open>id_pool\<close> in \<open>Obix_Bitmap\<close>, \<open>rw_monitor\<close> in \<open>Obix_Tsync\<close>.
\<close>

section \<open>A pool of recyclable IDs\<close>

text \<open>
  What \<open>watch.c\<close> relies on in \<open>bitmap.c\<close>: an ID that is handed out is not in use,
  handing it out marks exactly it as used, releasing an ID frees exactly it.  The extra
  argument of \<open>get\<close> is what the environment decides at a request (memory).
\<close>

datatype 'e pool_op = Pool_Get 'e | Pool_Put int

section \<open>Regions that guard data\<close>

text \<open>
  A run of a guarded object seen from a thread \<open>t\<close> that stays in its read region: the
  monitor makes its steps, and threads that have write access may replace the data.
\<close>

inductive reading ::
  "('s \<Rightarrow> 's \<Rightarrow> bool) \<Rightarrow> ('s \<Rightarrow> nat \<Rightarrow> bool) \<Rightarrow> ('s \<Rightarrow> nat \<Rightarrow> bool) \<Rightarrow> nat \<Rightarrow> 's \<Rightarrow> 'd \<Rightarrow> 's \<Rightarrow> 'd \<Rightarrow> bool"
  for step writes reads t where
  stay: "reads s t \<Longrightarrow> reading step writes reads t s d s d"
| sync: "reading step writes reads t s d s' d' \<Longrightarrow> step s' s'' \<Longrightarrow> reads s'' t \<Longrightarrow>
           reading step writes reads t s d s'' d'"
| access: "reading step writes reads t s d s' d' \<Longrightarrow> writes s' u \<Longrightarrow> reading step writes reads t s d s' d''"

locale id_pool =
  fixes inv :: "'p \<Rightarrow> bool"
    and used :: "'p \<Rightarrow> int set"
    and get :: "'e \<Rightarrow> 'p \<Rightarrow> int \<times> 'p"
    and put :: "'p \<Rightarrow> int \<Rightarrow> 'p"
  assumes get_inv: "inv p \<Longrightarrow> get e p = (i, p') \<Longrightarrow> inv p'"
    and get_fresh: "inv p \<Longrightarrow> get e p = (i, p') \<Longrightarrow> 0 \<le> i \<Longrightarrow> i \<notin> used p"
    and get_used: "inv p \<Longrightarrow> get e p = (i, p') \<Longrightarrow>
                     used p' = (if 0 \<le> i then insert i (used p) else used p)"
    and put_inv: "inv p \<Longrightarrow> inv (put p i)"
    and put_used: "inv p \<Longrightarrow> used (put p i) = used p - {i}"
begin

text \<open>
  A client that keeps the IDs it holds in a list: \<open>Pool_Get\<close> appends the new ID,
  \<open>Pool_Put\<close> drops a held ID and releases it.
\<close>

fun client_step :: "'p \<times> int list \<Rightarrow> 'e pool_op \<Rightarrow> 'p \<times> int list" where
  "client_step (p, held) (Pool_Get e) =
     (let (i, p') = get e p in (p', if 0 \<le> i then held @ [i] else held))"
| "client_step (p, held) (Pool_Put i) =
     (if i \<in> set held then (put p i, remove1 i held) else (p, held))"

definition client_run :: "'p \<times> int list \<Rightarrow> 'e pool_op list \<Rightarrow> 'p \<times> int list" where
  "client_run = foldl client_step"

definition client_inv :: "'p \<times> int list \<Rightarrow> bool" where
  "client_inv ph \<longleftrightarrow> inv (fst ph) \<and> distinct (snd ph) \<and> set (snd ph) = used (fst ph)"

lemma client_step_inv: "client_inv ph \<Longrightarrow> client_inv (client_step ph oper)"
proof (cases ph; cases oper)
  fix p held e assume I: "client_inv ph" and ph: "ph = (p, held)" and o: "oper = Pool_Get e"
  obtain i p' where g: "get e p = (i, p')" by fastforce
  from I ph have p: "inv p" "distinct held" "set held = used p" by (auto simp: client_inv_def)
  show "client_inv (client_step ph oper)"
    using p get_inv [OF p(1) g] get_used [OF p(1) g] get_fresh [OF p(1) g] ph o g
    by (auto simp: client_inv_def)
next
  fix p held i assume I: "client_inv ph" and ph: "ph = (p, held)" and o: "oper = Pool_Put i"
  then show "client_inv (client_step ph oper)"
    by (auto simp: client_inv_def put_inv put_used distinct_remove1 set_remove1_eq)
qed

lemma client_run_inv: "client_inv ph \<Longrightarrow> client_inv (client_run ph opers)"
  by (induction opers arbitrary: ph) (auto simp: client_run_def client_step_inv)

text \<open>No two IDs held at once are equal, after any sequence of requests and releases.\<close>

lemma client_distinct:
  "inv p \<Longrightarrow> used p = {} \<Longrightarrow> distinct (snd (client_run (p, []) opers))"
  using client_run_inv [of "(p, [])" opers] by (auto simp: client_inv_def)

end

section \<open>A readers-writers monitor\<close>

text \<open>
  What \<open>device.c\<close> and \<open>watch.c\<close> rely on in \<open>tsync.c\<close>: who may write is alone.  \<open>writes\<close>
  holds for a thread in its write region and for the one that shut the object down.
\<close>

locale rw_monitor =
  fixes reach :: "'s \<Rightarrow> bool"
    and step :: "'s \<Rightarrow> 's \<Rightarrow> bool"
    and writes :: "'s \<Rightarrow> nat \<Rightarrow> bool"
    and reads :: "'s \<Rightarrow> nat \<Rightarrow> bool"
  assumes reach_step: "reach s \<Longrightarrow> step s s' \<Longrightarrow> reach s'"
    and alone: "reach s \<Longrightarrow> writes s t \<Longrightarrow> u \<noteq> t \<Longrightarrow> \<not> reads s u \<and> \<not> writes s u"
    and role: "reads s t \<Longrightarrow> \<not> writes s t"
begin

lemma reading_stable:
  assumes "reading step writes reads t s d s' d'" "reach s"
  shows "reach s' \<and> reads s' t \<and> d' = d"
  using assms
proof (induction rule: reading.induct)
  case (sync s d s' d' s'')
  then show ?case using reach_step by blast
next
  case (access s d s' d' u d'')
  then have "reach s'" "reads s' t" by auto
  then show ?case using alone [of s' u t] role [of s' t] access.hyps(2) by blast
qed simp

end

end
