(* ===== verification/Obix_Bitmap.thy ===== *)
theory Obix_Bitmap
  imports Obix_Interfaces
begin

text \<open>
  The recyclable ID allocator of \<open>src/src/libs/bitmap.c\<close>, which hands out the watch IDs.

  A bitmap node (\<open>bitmap_node_t\<close>) is a 64-bit map and the first ID it stands for.  The
  queue \<open>nodes_all\<close> only ever grows at its tail, so a node is identified by its position
  there, and the queue \<open>nodes_notfull\<close> is a list of such positions.  A node is off the
  second queue exactly when its \<open>list_notfull\<close> head points to itself, which the code
  restores with \<open>INIT_LIST_HEAD\<close> after every \<open>list_del\<close>.  Every operation runs under
  the bitmap's mutex, so each function between lock and unlock is one atomic step.
  The model is LP64: \<open>MAPSIZE\<close> is 64.  A failing \<open>malloc\<close> is the argument \<open>ok\<close>.
\<close>

record bitmap_node =
  bn_map :: "64 word"
  bn_start :: int

record bitmap =
  nodes_all :: "bitmap_node list"
  nodes_notfull :: "nat list"
  highest :: int

definition MAPSIZE :: nat where "MAPSIZE = 64"
definition MAPFULL :: "64 word" where "MAPFULL = NOT 0"
definition MAPBIT :: "64 word" where "MAPBIT = 1"

definition bitmap_init :: bitmap where
  "bitmap_init = \<lparr>nodes_all = [], nodes_notfull = [], highest = - 1\<rparr>"

text \<open>The inner loop of \<open>bitmap_get_unused\<close>: shift the map right until bit 0 is clear.\<close>

function scan_unused :: "64 word \<Rightarrow> nat \<Rightarrow> nat" where
  "scan_unused m count =
     (if count < MAPSIZE then
        if m AND MAPBIT = 0 then count else scan_unused (drop_bit 1 m) (Suc count)
      else count)"
  by pat_completeness auto
termination
  by (relation "measure (\<lambda>(m, count). MAPSIZE - count)") auto

declare scan_unused.simps [simp del]

text \<open>
  The outer loop over \<open>nodes_notfull\<close>: skip full nodes, allocate in the first other one
  and take it off the queue when that fills it.
\<close>

fun get_unused_loop :: "bitmap \<Rightarrow> nat list \<Rightarrow> int \<times> bitmap" where
  "get_unused_loop b [] = (- 1, b)"
| "get_unused_loop b (i # is) =
     (let node = nodes_all b ! i in
      if bn_map node = MAPFULL then get_unused_loop b is
      else
        let count = scan_unused (bn_map node) 0;
            map' = (if count < MAPSIZE then bn_map node OR push_bit count MAPBIT else bn_map node);
            b' = b\<lparr>nodes_all := (nodes_all b)[i := node\<lparr>bn_map := map'\<rparr>]\<rparr>;
            b'' = (if count < MAPSIZE \<and> map' = MAPFULL
                   then b'\<lparr>nodes_notfull := remove1 i (nodes_notfull b')\<rparr> else b')
        in (int count + bn_start node, b''))"

definition bitmap_get_unused :: "bitmap \<Rightarrow> int \<times> bitmap" where
  "bitmap_get_unused b =
     (if nodes_notfull b = [] then (- 1, b) else get_unused_loop b (nodes_notfull b))"

text \<open>
  \<open>__bitmap_insert_notfull\<close>: before the first queued node with a greater start; on a
  non-empty queue without such a node the loop ends and nothing is inserted.
\<close>

fun insert_before :: "(nat \<Rightarrow> int) \<Rightarrow> nat \<Rightarrow> nat list \<Rightarrow> nat list" where
  "insert_before st i [] = []"
| "insert_before st i (p # ps) = (if st i < st p then i # p # ps else p # insert_before st i ps)"

definition bitmap_insert_notfull :: "bitmap \<Rightarrow> nat \<Rightarrow> bitmap" where
  "bitmap_insert_notfull b i =
     (if nodes_notfull b = [] then b\<lparr>nodes_notfull := [i]\<rparr>
      else b\<lparr>nodes_notfull :=
               insert_before (\<lambda>k. bn_start (nodes_all b ! k)) i (nodes_notfull b)\<rparr>)"

text \<open>
  \<open>bitmap_create_insert_node\<close>: the zeroed node is queued first and gets its start only
  afterwards; \<open>highest\<close> is a 32-bit int.
\<close>

definition bitmap_create_insert_node :: "bool \<Rightarrow> bitmap \<Rightarrow> int \<times> bitmap" where
  "bitmap_create_insert_node ok b =
     (if \<not> ok then (- 1, b)
      else
        let i = length (nodes_all b);
            b1 = b\<lparr>nodes_all := nodes_all b @ [\<lparr>bn_map = 0, bn_start = 0\<rparr>]\<rparr>;
            b2 = bitmap_insert_notfull b1 i;
            b3 = b2\<lparr>nodes_all := (nodes_all b2)[i := (nodes_all b2 ! i)\<lparr>bn_start := highest b2 + 1\<rparr>]\<rparr>
        in (0, b3\<lparr>highest := c_int (highest b3 + int MAPSIZE)\<rparr>))"

definition bitmap_get_id :: "bool \<Rightarrow> bitmap \<Rightarrow> int \<times> bitmap" where
  "bitmap_get_id ok b =
     (let (ret, b1) = bitmap_get_unused b in
      if ret \<ge> 0 then (ret, b1)
      else let (r, b2) = bitmap_create_insert_node ok b1 in
           if r = 0 then bitmap_get_unused b2 else (- 1, b2))"

text \<open>\<open>bitmap_put_id\<close>: clear the bit in the first node whose range holds the ID.\<close>

fun put_id_loop :: "bitmap \<Rightarrow> int \<Rightarrow> nat list \<Rightarrow> bitmap" where
  "put_id_loop b wid [] = b"
| "put_id_loop b wid (i # is) =
     (let node = nodes_all b ! i in
      if bn_start node \<le> wid \<and> wid < bn_start node + int MAPSIZE then
        let map' = bn_map node AND NOT (push_bit (nat (wid - bn_start node)) MAPBIT);
            b' = b\<lparr>nodes_all := (nodes_all b)[i := node\<lparr>bn_map := map'\<rparr>]\<rparr>
        in if i \<notin> set (nodes_notfull b') then bitmap_insert_notfull b' i else b'
      else put_id_loop b wid is)"

definition bitmap_put_id :: "bitmap \<Rightarrow> int \<Rightarrow> bitmap" where
  "bitmap_put_id b wid =
     (if 0 \<le> wid \<and> wid \<le> highest b then put_id_loop b wid [0..<length (nodes_all b)] else b)"

section \<open>The IDs in use and the invariant\<close>

definition node_ids :: "bitmap_node \<Rightarrow> int list" where
  "node_ids n = map (\<lambda>k. bn_start n + int k) (filter (\<lambda>k. bit (bn_map n) k) [0..<64])"

definition used :: "bitmap \<Rightarrow> int set" where
  "used b = set (concat (map node_ids (nodes_all b)))"

definition bitmap_wf :: "bitmap \<Rightarrow> bool" where
  "bitmap_wf b \<longleftrightarrow>
     map bn_start (nodes_all b) = map (\<lambda>i. 64 * int i) [0..<length (nodes_all b)] \<and>
     highest b = 64 * int (length (nodes_all b)) - 1 \<and> highest b < 2 ^ 31 \<and>
     distinct (nodes_notfull b) \<and>
     list_all (\<lambda>i. i < length (nodes_all b) \<and> bn_map (nodes_all b ! i) \<noteq> MAPFULL) (nodes_notfull b)"

text \<open>Releasing: the loop over \<open>nodes_all\<close> stops at the one node whose range holds the ID.\<close>

definition put_at :: "bitmap \<Rightarrow> nat \<Rightarrow> nat \<Rightarrow> bitmap" where
  "put_at b i c =
     (let b' = b\<lparr>nodes_all := (nodes_all b)[i := (nodes_all b ! i)
                  \<lparr>bn_map := bn_map (nodes_all b ! i) AND NOT (push_bit c MAPBIT)\<rparr>]\<rparr>
      in if i \<notin> set (nodes_notfull b) then bitmap_insert_notfull b' i else b')"

section \<open>The pool contract\<close>

text \<open>
  The bitmap keeps the contract of \<open>id_pool\<close>.  The environment's choice at each request
  is whether \<open>malloc\<close> succeeds; it is taken to have failed once all the $2^{31}$ values of
  the C int are allocated, where \<open>highest\<close> would overflow.
\<close>

definition pool_get :: "bool \<Rightarrow> bitmap \<Rightarrow> int \<times> bitmap" where
  "pool_get ok b = bitmap_get_id (ok \<and> highest b + 64 < 2 ^ 31) b"

section \<open>Threads\<close>

text \<open>
  \<open>bitmap_get_id\<close> is not atomic: it drops the mutex between its two or three critical
  sections.  A thread inside it is at \<open>Missed\<close> after a failed \<open>bitmap_get_unused\<close> and at
  \<open>Created\<close> after \<open>bitmap_create_insert_node\<close>.  Any number of threads interleave.
\<close>

datatype get_pc = Out | Missed | Created

record pool_sys =
  bm_of :: bitmap
  pc_of :: "nat \<Rightarrow> get_pc"
  held :: "nat \<Rightarrow> int set"

definition pool_sys_init :: pool_sys where
  "pool_sys_init = \<lparr>bm_of = bitmap_init, pc_of = (\<lambda>_. Out), held = (\<lambda>_. {})\<rparr>"

inductive pool_step :: "pool_sys \<Rightarrow> pool_sys \<Rightarrow> bool" where
  hit: "pc_of s t \<noteq> Missed \<Longrightarrow> bitmap_get_unused (bm_of s) = (r, b') \<Longrightarrow> 0 \<le> r \<Longrightarrow>
     pool_step s (s\<lparr>bm_of := b', pc_of := (pc_of s)(t := Out), held := (held s)(t := insert r (held s t))\<rparr>)"
| miss: "pc_of s t = Out \<Longrightarrow> bitmap_get_unused (bm_of s) = (r, b') \<Longrightarrow> r < 0 \<Longrightarrow>
     pool_step s (s\<lparr>bm_of := b', pc_of := (pc_of s)(t := Missed)\<rparr>)"
| create: "pc_of s t = Missed \<Longrightarrow> highest (bm_of s) + 64 < 2 ^ 31 \<Longrightarrow>
     bitmap_create_insert_node True (bm_of s) = (r, b') \<Longrightarrow>
     pool_step s (s\<lparr>bm_of := b', pc_of := (pc_of s)(t := Created)\<rparr>)"
| no_mem: "pc_of s t = Missed \<Longrightarrow> pool_step s (s\<lparr>pc_of := (pc_of s)(t := Out)\<rparr>)"
| give_up: "pc_of s t = Created \<Longrightarrow> bitmap_get_unused (bm_of s) = (r, b') \<Longrightarrow> r < 0 \<Longrightarrow>
     pool_step s (s\<lparr>bm_of := b', pc_of := (pc_of s)(t := Out)\<rparr>)"
| release: "pc_of s t = Out \<Longrightarrow> i \<in> held s t \<Longrightarrow>
     pool_step s (s\<lparr>bm_of := bitmap_put_id (bm_of s) i, held := (held s)(t := held s t - {i})\<rparr>)"

definition pool_sys_inv :: "pool_sys \<Rightarrow> bool" where
  "pool_sys_inv s \<longleftrightarrow> bitmap_wf (bm_of s) \<and> used (bm_of s) = (\<Union>t. held s t) \<and>
     (\<forall>t u. t \<noteq> u \<longrightarrow> held s t \<inter> held s u = {})"

section \<open>Sequential use: the queue order\<close>

definition bitmap_sorted :: "bitmap \<Rightarrow> bool" where
  "bitmap_sorted b \<longleftrightarrow> bitmap_wf b \<and> sorted (nodes_notfull b)"

section \<open>Bit-level facts\<close>

lemma MAPFULL_iff: "m = MAPFULL \<longleftrightarrow> (\<forall>k < 64. bit m k)"
  unfolding MAPFULL_def by (auto intro: bit_word_eqI simp: bit_simps)

lemma and_MAPBIT: "(drop_bit c m AND MAPBIT = 0) \<longleftrightarrow> \<not> bit (m :: 64 word) c"
  by (simp add: MAPBIT_def and_one_eq bit_iff_odd_drop_bit even_iff_mod_2_eq_zero)

lemma scan_unused_spec:
  "c \<le> 64 \<Longrightarrow> \<forall>k < c. bit m k \<Longrightarrow>
   let r = scan_unused (drop_bit c m) c in
     r \<le> 64 \<and> (\<forall>k < r. bit m k) \<and> (r < 64 \<longrightarrow> \<not> bit m r)"
proof (induction "64 - c" arbitrary: c)
  case 0
  then show ?case by (simp add: scan_unused.simps MAPSIZE_def)
next
  case (Suc n)
  then have c: "c < 64" by simp
  show ?case
  proof (cases "bit m c")
    case True
    have "\<forall>k < Suc c. bit m k" using Suc.prems True less_Suc_eq by auto
    with Suc.hyps(1) [of "Suc c"] Suc.hyps(2) c
    have "let r = scan_unused (drop_bit (Suc c) m) (Suc c) in
      r \<le> 64 \<and> (\<forall>k < r. bit m k) \<and> (r < 64 \<longrightarrow> \<not> bit m r)" by simp
    moreover have "scan_unused (drop_bit c m) c = scan_unused (drop_bit (Suc c) m) (Suc c)"
      using True c by (subst scan_unused.simps) (simp add: MAPSIZE_def and_MAPBIT)
    ultimately show ?thesis by simp
  next
    case False
    then have "scan_unused (drop_bit c m) c = c"
      using c by (subst scan_unused.simps) (simp add: MAPSIZE_def and_MAPBIT)
    with False c Suc.prems show ?thesis by simp
  qed
qed

lemma scan_unused_0:
  assumes "m \<noteq> MAPFULL"
  shows "scan_unused m 0 < 64" "\<not> bit m (scan_unused m 0)" "\<And>k. k < scan_unused m 0 \<Longrightarrow> bit m k"
proof -
  let ?r = "scan_unused m 0"
  have *: "?r \<le> 64" "\<forall>k < ?r. bit m k" "?r < 64 \<longrightarrow> \<not> bit m ?r"
    using scan_unused_spec [of 0 m] by (simp_all add: Let_def)
  show "?r < 64" using * assms by (metis MAPFULL_iff le_neq_implies_less)
  with * show "\<not> bit m ?r" by simp
  show "\<And>k. k < ?r \<Longrightarrow> bit m k" using * by blast
qed

lemma wf_start: "bitmap_wf b \<Longrightarrow> i < length (nodes_all b) \<Longrightarrow> bn_start (nodes_all b ! i) = 64 * int i"
  by (metis (no_types, lifting) bitmap_wf_def diff_zero length_map length_upt nth_map nth_map_upt plus_nat.add_0)

lemma used_iff:
  assumes "bitmap_wf b"
  shows "x \<in> used b \<longleftrightarrow> 0 \<le> x \<and> x \<le> highest b \<and>
     bit (bn_map (nodes_all b ! nat (x div 64))) (nat (x mod 64))" (is "?L \<longleftrightarrow> ?R")
proof
  assume ?L
  then obtain i k where ik: "i < length (nodes_all b)" "k < 64" "bit (bn_map (nodes_all b ! i)) k"
      "x = bn_start (nodes_all b ! i) + int k"
    by (auto simp: used_def node_ids_def in_set_conv_nth)
  then have x: "x = 64 * int i + int k" using wf_start [OF assms] by simp
  then have "nat (x div 64) = i" "nat (x mod 64) = k" using ik(2) by simp_all
  with ik x assms show ?R by (simp add: bitmap_wf_def)
next
  assume R: ?R
  define i k where "i = nat (x div 64)" and "k = nat (x mod 64)"
  from R have x: "x = 64 * int i + int k" and k: "k < 64" by (simp_all add: i_def k_def)
  have i: "i < length (nodes_all b)" using R x assms by (simp add: bitmap_wf_def)
  have "x = bn_start (nodes_all b ! i) + int k" using wf_start [OF assms i] x by simp
  moreover have "bit (bn_map (nodes_all b ! i)) k" using R by (simp add: i_def k_def)
  ultimately have "x \<in> set (node_ids (nodes_all b ! i))" using k by (auto simp: node_ids_def)
  with i show ?L by (auto simp: used_def)
qed

lemma id_split:
  "0 \<le> x \<Longrightarrow> x = 64 * int (nat (x div 64)) + int (nat (x mod 64))" "nat (x mod 64) < 64" for x :: int
  by (simp_all add: pos_imp_zdiv_nonneg_iff)

lemma id_eq_iff:
  assumes "k < 64" "c < 64"
  shows "64 * int j + int k = 64 * int i + int c \<longleftrightarrow> j = i \<and> k = c"
proof
  assume eq: "64 * int j + int k = 64 * int i + int c"
  have "(64 * int j + int k) div 64 = int j" "(64 * int i + int c) div 64 = int i"
    using assms by simp_all
  with eq show "j = i \<and> k = c" by simp
qed simp

text \<open>Writing the map of node \<open>i\<close> changes the IDs in use only inside that node's range.\<close>

lemma used_update:
  assumes wf: "bitmap_wf b" and wf': "bitmap_wf b'" and h: "highest b' = highest b"
    and i: "i < length (nodes_all b)"
    and b': "nodes_all b' = (nodes_all b)[i := (nodes_all b ! i)\<lparr>bn_map := m\<rparr>]"
    and m: "\<And>k. k < 64 \<Longrightarrow> bit m k = (if k = c then v else bit (bn_map (nodes_all b ! i)) k)"
    and c: "c < 64"
  shows "used b' = (if v then insert (64 * int i + int c) (used b) else used b - {64 * int i + int c})"
proof (rule set_eqI)
  fix x :: int
  define j k where "j = nat (x div 64)" and "k = nat (x mod 64)"
  show "x \<in> used b' \<longleftrightarrow> x \<in> (if v then insert (64 * int i + int c) (used b) else used b - {64 * int i + int c})"
  proof (cases "0 \<le> x \<and> x \<le> highest b")
    case False
    have "64 * int i + int c \<le> highest b" using i c wf by (simp add: bitmap_wf_def)
    then have "x \<noteq> 64 * int i + int c" using False by auto
    with False show ?thesis using used_iff [OF wf] used_iff [OF wf'] h by auto
  next
    case True
    then have x: "x = 64 * int j + int k" and k: "k < 64" by (simp_all add: j_def k_def)
    have "x = 64 * int i + int c \<longleftrightarrow> j = i \<and> k = c" using x id_eq_iff [OF k c] by simp
    moreover have "bit (bn_map (nodes_all b' ! j)) k =
        (if j = i \<and> k = c then v else bit (bn_map (nodes_all b ! j)) k)"
      using b' i m [OF k] by (cases "j = i") auto
    ultimately show ?thesis
      using True used_iff [OF wf, of x] used_iff [OF wf', of x] h by (auto simp: j_def k_def)
  qed
qed

section \<open>The operations\<close>

lemma wf_notfull_hd:
  "bitmap_wf b \<Longrightarrow> nodes_notfull b = i # is \<Longrightarrow>
     i < length (nodes_all b) \<and> bn_map (nodes_all b ! i) \<noteq> MAPFULL \<and> i \<notin> set is"
  by (simp add: bitmap_wf_def)

lemma get_unused_eq:
  assumes wf: "bitmap_wf b" and q: "nodes_notfull b = i # is"
  defines "c \<equiv> scan_unused (bn_map (nodes_all b ! i)) 0"
  defines "m \<equiv> bn_map (nodes_all b ! i) OR push_bit c MAPBIT"
  shows "bitmap_get_unused b =
    (64 * int i + int c,
     b\<lparr>nodes_all := (nodes_all b)[i := (nodes_all b ! i)\<lparr>bn_map := m\<rparr>],
       nodes_notfull := (if m = MAPFULL then is else i # is)\<rparr>)"
proof -
  from wf_notfull_hd [OF wf q] have i: "i < length (nodes_all b)"
    and nf: "bn_map (nodes_all b ! i) \<noteq> MAPFULL" by simp_all
  have "c < 64" unfolding c_def using nf by (rule scan_unused_0)
  then show ?thesis
    using i nf q wf_start [OF wf i]
    by (simp add: bitmap_get_unused_def Let_def MAPSIZE_def c_def m_def)
qed

lemma bit_set: "c < 64 \<Longrightarrow> k < 64 \<Longrightarrow> bit (m OR push_bit c MAPBIT :: 64 word) k = (if k = c then True else bit m k)"
  by (auto simp: MAPBIT_def bit_simps)

lemma bit_clear: "c < 64 \<Longrightarrow> k < 64 \<Longrightarrow> bit (m AND NOT (push_bit c MAPBIT) :: 64 word) k = (if k = c then False else bit m k)"
  by (auto simp: MAPBIT_def bit_simps)

lemma get_unused_spec:
  assumes wf: "bitmap_wf b" and g: "bitmap_get_unused b = (r, b')"
  shows "bitmap_wf b'" "r = - 1 \<longleftrightarrow> nodes_notfull b = []" "r < 0 \<Longrightarrow> b' = b \<and> r = - 1"
    "0 \<le> r \<Longrightarrow> r \<notin> used b \<and> used b' = insert r (used b) \<and> r \<le> highest b"
    "highest b' = highest b"
proof -
  have *: "bitmap_wf b' \<and> (r = - 1 \<longleftrightarrow> nodes_notfull b = []) \<and> (r < 0 \<longrightarrow> b' = b \<and> r = - 1) \<and>
    (0 \<le> r \<longrightarrow> r \<notin> used b \<and> used b' = insert r (used b) \<and> r \<le> highest b) \<and> highest b' = highest b"
  proof (cases "nodes_notfull b")
    case Nil
    with wf g show ?thesis by (simp add: bitmap_get_unused_def)
  next
    case (Cons i "is")
    define c where "c = scan_unused (bn_map (nodes_all b ! i)) 0"
    define m where "m = bn_map (nodes_all b ! i) OR push_bit c MAPBIT"
    from wf_notfull_hd [OF wf Cons] have i: "i < length (nodes_all b)"
      and nf: "bn_map (nodes_all b ! i) \<noteq> MAPFULL" and ni: "i \<notin> set is" by simp_all
    have r: "r = 64 * int i + int c" and b': "b' = b\<lparr>nodes_all := (nodes_all b)[i := (nodes_all b ! i)\<lparr>bn_map := m\<rparr>],
       nodes_notfull := (if m = MAPFULL then is else i # is)\<rparr>"
      using get_unused_eq [OF wf Cons] g by (simp_all add: c_def m_def)
    have c: "c < 64" "\<not> bit (bn_map (nodes_all b ! i)) c"
      unfolding c_def using nf by (rule scan_unused_0)+
    have wf': "bitmap_wf b'"
      using wf i ni Cons b' by (auto simp: bitmap_wf_def map_update_same nth_list_update list_all_iff)
    have ru: "r \<notin> used b" using used_iff [OF wf, of r] c r by simp
    have "used b' = insert r (used b)"
      using used_update [OF wf wf', of i m c True] i c b' r bit_set [OF c(1)] by (simp add: m_def)
    moreover have "r \<le> highest b" using wf i c r by (simp add: bitmap_wf_def)
    ultimately show ?thesis using ru wf' r b' Cons by simp
  qed
  show "bitmap_wf b'" "r = - 1 \<longleftrightarrow> nodes_notfull b = []" "r < 0 \<Longrightarrow> b' = b \<and> r = - 1"
    "0 \<le> r \<Longrightarrow> r \<notin> used b \<and> used b' = insert r (used b) \<and> r \<le> highest b"
    "highest b' = highest b"
    using * by simp_all
qed

lemma insert_before_set: "set (insert_before st i ps) \<subseteq> insert i (set ps)"
  by (induction ps) auto

lemma insert_before_superset: "set ps \<subseteq> set (insert_before st i ps)"
  by (induction ps) auto

lemma insert_before_distinct: "distinct ps \<Longrightarrow> i \<notin> set ps \<Longrightarrow> distinct (insert_before st i ps)"
  using insert_before_set [of st i] by (induction ps) fastforce+

lemma insert_before_cong:
  "(\<And>k. k \<in> insert i (set ps) \<Longrightarrow> st k = st' k) \<Longrightarrow> insert_before st i ps = insert_before st' i ps"
  by (induction ps) auto

text \<open>A new node adds 64 free IDs and frees or allocates none.\<close>

lemma create_insert_node_spec:
  assumes wf: "bitmap_wf b" and lim: "highest b + 64 < 2 ^ 31"
    and g: "bitmap_create_insert_node ok b = (r, b')"
  shows "bitmap_wf b'" "used b' = used b" "r = (if ok then 0 else - 1)"
    "ok \<Longrightarrow> highest b' = highest b + 64"
    "ok \<Longrightarrow> nodes_notfull b = [] \<Longrightarrow> nodes_notfull b' = [length (nodes_all b)]"
proof -
  let ?n = "length (nodes_all b)"
  have h: "highest b = 64 * int ?n - 1" using wf by (simp add: bitmap_wf_def)
  have *: "bitmap_wf b' \<and> used b' = used b \<and> highest b' = highest b + 64 \<and>
      (nodes_notfull b = [] \<longrightarrow> nodes_notfull b' = [?n])" if ok: ok
  proof -
    have set_ins: "set (insert_before st ?n (nodes_notfull b)) \<subseteq> insert ?n (set (nodes_notfull b))" for st
      by (rule insert_before_set)
    have b': "nodes_all b' = nodes_all b @ [\<lparr>bn_map = 0, bn_start = 64 * int ?n\<rparr>]"
        "highest b' = highest b + 64"
        "nodes_notfull b = [] \<longrightarrow> nodes_notfull b' = [?n]"
        "distinct (nodes_notfull b')" "set (nodes_notfull b') \<subseteq> insert ?n (set (nodes_notfull b))"
      using g ok h lim wf insert_before_distinct [of "nodes_notfull b" ?n]
      by (auto simp: bitmap_create_insert_node_def bitmap_insert_notfull_def Let_def MAPSIZE_def
          bitmap_wf_def list_all_iff split: if_splits dest!: set_ins [THEN subsetD])
    have "bitmap_wf b'"
      using wf b' lim h
      by (auto simp: bitmap_wf_def list_all_iff nth_append MAPFULL_def subset_iff)
    moreover have "used b' = used b" using b' by (simp add: used_def node_ids_def)
    ultimately show ?thesis using b' by simp
  qed
  show "r = (if ok then 0 else - 1)" using g by (auto simp: bitmap_create_insert_node_def Let_def)
  show "bitmap_wf b'" "used b' = used b"
    using * wf g by (cases ok; simp add: bitmap_create_insert_node_def)+
  show "ok \<Longrightarrow> highest b' = highest b + 64"
    "ok \<Longrightarrow> nodes_notfull b = [] \<Longrightarrow> nodes_notfull b' = [?n]" using * by simp_all
qed

lemma put_id_loop_eq:
  assumes wf: "bitmap_wf b" and i: "i < length (nodes_all b)" and c: "c < 64"
    and "set ks \<subseteq> {..<length (nodes_all b)}" "i \<in> set ks"
  shows "put_id_loop b (64 * int i + int c) ks = put_at b i c"
  using assms(4,5)
proof (induction ks)
  case (Cons k ks)
  have st: "bn_start (nodes_all b ! k) = 64 * int k" using wf_start [OF wf] Cons.prems by simp
  have "64 * int k \<le> 64 * int i + int c \<and> 64 * int i + int c < 64 * int k + 64 \<longleftrightarrow> k = i"
    using c by linarith
  then show ?case
    using Cons st by (cases "k = i") (auto simp: put_at_def Let_def MAPSIZE_def)
qed simp

lemma put_id_eq:
  assumes wf: "bitmap_wf b" and x: "0 \<le> x" "x \<le> highest b"
  shows "bitmap_put_id b x = put_at b (nat (x div 64)) (nat (x mod 64))"
    "nat (x div 64) < length (nodes_all b)"
proof -
  define i c where "i = nat (x div 64)" and "c = nat (x mod 64)"
  have xe: "x = 64 * int i + int c" and c: "c < 64" using id_split [of x] x by (simp_all only: i_def c_def)
  have i: "i < length (nodes_all b)" using x xe wf by (simp add: bitmap_wf_def)
  have "put_id_loop b (64 * int i + int c) [0..<length (nodes_all b)] = put_at b i c"
    using i by (intro put_id_loop_eq [OF wf _ c]) auto
  then have "bitmap_put_id b x = put_at b i c" using x xe by (simp add: bitmap_put_id_def)
  then show "bitmap_put_id b x = put_at b (nat (x div 64)) (nat (x mod 64))"
    "nat (x div 64) < length (nodes_all b)"
    using i by (simp_all only: i_def c_def)
qed

lemma put_at_fields:
  assumes wf: "bitmap_wf b" and i: "i < length (nodes_all b)" and c: "c < 64"
  shows "nodes_all (put_at b i c) = (nodes_all b)[i := (nodes_all b ! i)
           \<lparr>bn_map := bn_map (nodes_all b ! i) AND NOT (push_bit c MAPBIT)\<rparr>]"
    "highest (put_at b i c) = highest b"
    "set (nodes_notfull (put_at b i c)) \<subseteq> insert i (set (nodes_notfull b))"
    "distinct (nodes_notfull (put_at b i c))"
  using insert_before_set [of _ i "nodes_notfull b"]
    insert_before_distinct [of "nodes_notfull b" i] wf
  by (auto simp: put_at_def Let_def bitmap_insert_notfull_def bitmap_wf_def)

lemma put_id_spec:
  assumes wf: "bitmap_wf b"
  shows "bitmap_wf (bitmap_put_id b x)" "used (bitmap_put_id b x) = used b - {x}"
    "highest (bitmap_put_id b x) = highest b"
proof -
  have *: "bitmap_wf (bitmap_put_id b x) \<and> used (bitmap_put_id b x) = used b - {x} \<and>
      highest (bitmap_put_id b x) = highest b"
  proof (cases "0 \<le> x \<and> x \<le> highest b")
    case False
    then show ?thesis using wf used_iff [OF wf, of x] by (auto simp: bitmap_put_id_def)
  next
    case True
    define i c where "i = nat (x div 64)" and "c = nat (x mod 64)"
    have x: "x = 64 * int i + int c" and c: "c < 64" using True by (simp_all add: i_def c_def)
    let ?b = "put_at b i c"
    have eq: "bitmap_put_id b x = ?b" and i: "i < length (nodes_all b)"
      using put_id_eq [OF wf, of x] True by (simp_all add: i_def c_def)
    note f = put_at_fields [OF wf i c]
    have nf: "bn_map (nodes_all b ! i) AND NOT (push_bit c MAPBIT) \<noteq> MAPFULL"
      using bit_clear [OF c c] c by (metis MAPFULL_iff)
    have wf': "bitmap_wf ?b"
      using wf f i nf by (auto simp: bitmap_wf_def map_update_same list_all_iff nth_list_update)
    moreover have "used ?b = used b - {x}"
      using used_update [OF wf wf', of i _ c False] i c f x bit_clear [OF c] by simp
    ultimately show ?thesis using eq f by simp
  qed
  show "bitmap_wf (bitmap_put_id b x)" "used (bitmap_put_id b x) = used b - {x}"
    "highest (bitmap_put_id b x) = highest b" using * by simp_all
qed

lemma get_id_spec:
  assumes wf: "bitmap_wf b" and lim: "highest b + 64 < 2 ^ 31 \<or> \<not> ok"
    and g: "bitmap_get_id ok b = (r, b')"
  shows "bitmap_wf b'" "0 \<le> r \<Longrightarrow> r \<notin> used b"
    "used b' = (if 0 \<le> r then insert r (used b) else used b)"
    "ok \<Longrightarrow> 0 \<le> r"
proof -
  have *: "bitmap_wf b' \<and> (0 \<le> r \<longrightarrow> r \<notin> used b) \<and>
      used b' = (if 0 \<le> r then insert r (used b) else used b) \<and> (ok \<longrightarrow> 0 \<le> r)"
  proof -
    obtain r1 b1 where g1: "bitmap_get_unused b = (r1, b1)" by fastforce
    note s1 = get_unused_spec [OF wf g1]
    show ?thesis
    proof (cases "0 \<le> r1")
      case True
      then show ?thesis using g g1 s1 by (simp add: bitmap_get_id_def)
    next
      case False
      then have b1: "b1 = b" and q: "nodes_notfull b = []" using s1(2,3) by auto
      obtain r2 b2 where g2: "bitmap_create_insert_node ok b = (r2, b2)" by fastforce
      show ?thesis
      proof (cases ok)
        case False
        then show ?thesis
          using g g1 g2 b1 \<open>\<not> 0 \<le> r1\<close> wf
          by (auto simp: bitmap_get_id_def bitmap_create_insert_node_def)
      next
        case True
        with lim have lim': "highest b + 64 < 2 ^ 31" by simp
        note s2 = create_insert_node_spec [OF wf lim' g2]
        have g3: "bitmap_get_unused b2 = (r, b')"
          using g g1 g2 b1 \<open>\<not> 0 \<le> r1\<close> s2(3) True by (simp add: bitmap_get_id_def)
        note s3 = get_unused_spec [OF s2(1) g3]
        have "r \<noteq> - 1" using s3(2) s2(5) [OF True q] by simp
        then have "0 \<le> r" using s3(3) by linarith
        then show ?thesis using s3 s2 True by simp
      qed
    qed
  qed
  show "bitmap_wf b'" "0 \<le> r \<Longrightarrow> r \<notin> used b"
    "used b' = (if 0 \<le> r then insert r (used b) else used b)" "ok \<Longrightarrow> 0 \<le> r" using * by simp_all
qed

lemma bitmap_init_wf: "bitmap_wf bitmap_init" "used bitmap_init = {}"
  by (simp_all add: bitmap_wf_def bitmap_init_def used_def)

interpretation bm: id_pool bitmap_wf used pool_get bitmap_put_id
proof
  fix p p' :: bitmap and e :: bool and i :: int
  assume wf: "bitmap_wf p" and g: "pool_get e p = (i, p')"
  note s = get_id_spec [OF wf _ g [unfolded pool_get_def]]
  show "bitmap_wf p'" by (rule s(1)) auto
  show "used p' = (if 0 \<le> i then insert i (used p) else used p)" by (rule s(3)) auto
  show "0 \<le> i \<Longrightarrow> i \<notin> used p" by (rule s(2)) auto
qed (simp_all add: put_id_spec)

lemma pool_sys_inv_init: "pool_sys_inv pool_sys_init"
  by (simp add: pool_sys_inv_def pool_sys_init_def bitmap_init_wf)

lemma pool_step_inv: "pool_step s s' \<Longrightarrow> pool_sys_inv s \<Longrightarrow> pool_sys_inv s'"
proof (induction rule: pool_step.induct)
  case (hit s t r b')
  have wf: "bitmap_wf (bm_of s)" using hit by (simp add: pool_sys_inv_def)
  from get_unused_spec [OF wf hit(2)] hit(3) have
    "bitmap_wf b'" "r \<notin> used (bm_of s)" "used b' = insert r (used (bm_of s))" by auto
  with hit(4) show ?case by (auto simp: pool_sys_inv_def)
next
  case (miss s t r b')
  then show ?case using get_unused_spec(3) [of "bm_of s" r b'] by (simp add: pool_sys_inv_def)
next
  case (create s t r b')
  then show ?case using create_insert_node_spec(1,2) [of "bm_of s" True r b']
    by (simp add: pool_sys_inv_def)
next
  case (no_mem s t)
  then show ?case by (simp add: pool_sys_inv_def)
next
  case (give_up s t r b')
  then show ?case using get_unused_spec(3) [of "bm_of s" r b'] by (simp add: pool_sys_inv_def)
next
  case (release s t i)
  then have "\<And>u. u \<noteq> t \<Longrightarrow> i \<notin> held s u" by (auto simp: pool_sys_inv_def)
  then have "(\<Union>u. ((held s)(t := held s t - {i})) u) = (\<Union>u. held s u) - {i}"
    by (fastforce split: if_splits)
  moreover have "\<forall>u v. u \<noteq> v \<longrightarrow>
      ((held s)(t := held s t - {i})) u \<inter> ((held s)(t := held s t - {i})) v = {}"
    using release(3) unfolding pool_sys_inv_def by (simp add: fun_upd_apply) blast
  ultimately show ?case using release(3) by (simp add: pool_sys_inv_def put_id_spec)
qed

lemma pool_reachable_inv: "pool_step\<^sup>*\<^sup>* pool_sys_init s \<Longrightarrow> pool_sys_inv s"
  by (induction rule: rtranclp_induct) (auto intro: pool_step_inv pool_sys_inv_init)

lemma insert_before_sorted:
  "sorted ps \<Longrightarrow> (\<And>k. k \<in> insert i (set ps) \<Longrightarrow> st k = 64 * int k) \<Longrightarrow> sorted (insert_before st i ps)"
proof (induction ps)
  case (Cons p ps)
  then show ?case using insert_before_set [of st i ps] by (fastforce simp: not_less)
qed simp

lemma get_unused_sorted:
  assumes "bitmap_sorted b" and "bitmap_get_unused b = (r, b')"
  shows "bitmap_sorted b'"
proof (cases "nodes_notfull b")
  case Nil
  with assms show ?thesis by (simp add: bitmap_get_unused_def bitmap_sorted_def)
next
  case (Cons i "is")
  have wf: "bitmap_wf b" using assms by (simp add: bitmap_sorted_def)
  have "nodes_notfull b' = is \<or> nodes_notfull b' = i # is"
    using get_unused_eq [OF wf Cons] assms(2) by auto
  with assms get_unused_spec(1) [OF wf assms(2)] Cons show ?thesis
    by (auto simp: bitmap_sorted_def)
qed

lemma get_id_sorted:
  assumes s: "bitmap_sorted b" and lim: "highest b + 64 < 2 ^ 31 \<or> \<not> ok"
    and g: "bitmap_get_id ok b = (r, b')"
  shows "bitmap_sorted b'"
proof -
  have wf: "bitmap_wf b" using s by (simp add: bitmap_sorted_def)
  obtain r1 b1 where g1: "bitmap_get_unused b = (r1, b1)" by fastforce
  obtain r2 b2 where g2: "bitmap_create_insert_node ok b = (r2, b2)" by fastforce
  show ?thesis
  proof (cases "0 \<le> r1")
    case True
    with g g1 get_unused_sorted [OF s g1] show ?thesis by (simp add: bitmap_get_id_def)
  next
    case False
    then have b1: "b1 = b" and q: "nodes_notfull b = []"
      using get_unused_spec(2,3) [OF wf g1] by auto
    show ?thesis
    proof (cases ok)
      case False
      with g g1 g2 b1 s \<open>\<not> 0 \<le> r1\<close> show ?thesis
        by (auto simp: bitmap_get_id_def bitmap_create_insert_node_def)
    next
      case True
      then have lim': "highest b + 64 < 2 ^ 31" using lim by simp
      note c = create_insert_node_spec [OF wf lim' g2]
      have "bitmap_sorted b2" using c(1) c(5) [OF True q] by (simp add: bitmap_sorted_def)
      moreover have "bitmap_get_unused b2 = (r, b')"
        using g g1 g2 b1 \<open>\<not> 0 \<le> r1\<close> c(3) True by (simp add: bitmap_get_id_def)
      ultimately show ?thesis by (rule get_unused_sorted)
    qed
  qed
qed

lemma put_id_sorted: "bitmap_sorted b \<Longrightarrow> bitmap_sorted (bitmap_put_id b x)"
proof (cases "0 \<le> x \<and> x \<le> highest b")
  case True
  assume s: "bitmap_sorted b"
  then have wf: "bitmap_wf b" by (simp add: bitmap_sorted_def)
  define i c where "i = nat (x div 64)" and "c = nat (x mod 64)"
  have eq: "bitmap_put_id b x = put_at b i c" and i: "i < length (nodes_all b)"
    using put_id_eq [OF wf, of x] True by (simp_all add: i_def c_def)
  have st: "bn_start ((nodes_all b)[i := (nodes_all b ! i)\<lparr>bn_map := m\<rparr>] ! k) = 64 * int k"
    if "k \<in> insert i (set (nodes_notfull b))" for k m
    using that wf_start [OF wf] wf i by (auto simp: nth_list_update bitmap_wf_def list_all_iff)
  have "sorted (nodes_notfull (put_at b i c))"
    using s st by (auto simp: put_at_def Let_def bitmap_insert_notfull_def bitmap_sorted_def
        intro!: insert_before_sorted)
  then show ?thesis using put_id_spec(1) [OF wf, of x] eq by (simp add: bitmap_sorted_def)
qed (auto simp: bitmap_put_id_def)

section \<open>Properties\<close>

text \<open>
  C17: as long as memory lasts and the 32-bit ID space is not exhausted,
  \<open>bitmap_get_id\<close> succeeds with an ID that was not in use, marks exactly that ID as used
  and keeps the bitmap well formed.
\<close>

theorem bitmap_get_id_fresh:
  assumes "bitmap_wf b" "highest b + 64 < 2 ^ 31" "bitmap_get_id True b = (r, b')"
  shows "0 \<le> r \<and> r \<notin> used b \<and> used b' = insert r (used b) \<and> bitmap_wf b'"
  using get_id_spec [of b True r b'] assms by simp

theorem bitmap_get_id_fresh_witness:
  "bitmap_wf bitmap_init \<and>
   (0 \<le> fst (bitmap_get_id True bitmap_init) \<and> fst (bitmap_get_id True bitmap_init) \<notin> used bitmap_init \<and>
    used (snd (bitmap_get_id True bitmap_init)) = insert (fst (bitmap_get_id True bitmap_init)) (used bitmap_init) \<and>
    bitmap_wf (snd (bitmap_get_id True bitmap_init)))"
  using bitmap_get_id_fresh [of bitmap_init "fst (bitmap_get_id True bitmap_init)"
      "snd (bitmap_get_id True bitmap_init)"] bitmap_init_wf
  by (simp add: bitmap_init_def)

text \<open>
  C28: \<open>bitmap_put_id\<close> frees exactly the given ID, whatever it is (an ID out of range or
  not in use changes nothing in the set of used IDs), and keeps the bitmap well formed.
\<close>

theorem bitmap_put_id_frees:
  assumes "bitmap_wf b"
  shows "used (bitmap_put_id b x) = used b - {x} \<and> bitmap_wf (bitmap_put_id b x)"
  using put_id_spec [OF assms] by simp

theorem bitmap_put_id_frees_witness:
  "bitmap_wf bitmap_init \<and> used (bitmap_put_id bitmap_init 5) = used bitmap_init - {5} \<and>
   bitmap_wf (bitmap_put_id bitmap_init 5)"
  using bitmap_put_id_frees [OF bitmap_init_wf(1), of 5] bitmap_init_wf(1) by simp

text \<open>
  C18: whatever the interleaving of the critical sections of any number of threads inside
  \<open>bitmap_get_id\<close> and \<open>bitmap_put_id\<close>, two threads never hold the same ID.
\<close>

theorem pool_threads_exclusive:
  assumes "pool_step\<^sup>*\<^sup>* pool_sys_init s" "i \<in> held s t" "i \<in> held s u"
  shows "t = u"
  using pool_reachable_inv [OF assms(1)] assms(2,3) by (auto simp: pool_sys_inv_def)

theorem pool_threads_exclusive_witness:
  "\<exists>s t u. pool_step\<^sup>*\<^sup>* pool_sys_init s \<and> 0 \<in> held s t \<and> 0 \<in> held s u \<and> t = u"
proof -
  define b1 where "b1 = \<lparr>nodes_all = [\<lparr>bn_map = 0, bn_start = 0\<rparr>], nodes_notfull = [0], highest = 63\<rparr>"
  define b2 where "b2 = \<lparr>nodes_all = [\<lparr>bn_map = 1, bn_start = 0\<rparr>], nodes_notfull = [0], highest = 63\<rparr>"
  define s1 where "s1 = pool_sys_init\<lparr>pc_of := (pc_of pool_sys_init)(7 := Missed)\<rparr>"
  define s2 where "s2 = s1\<lparr>bm_of := b1, pc_of := (pc_of s1)(7 := Created)\<rparr>"
  define s3 where "s3 = s2\<lparr>bm_of := b2, pc_of := (pc_of s2)(7 := Out), held := (held s2)(7 := insert 0 (held s2 7))\<rparr>"
  have "bitmap_get_unused bitmap_init = (- 1, bitmap_init)"
    by (simp add: bitmap_get_unused_def bitmap_init_def)
  then have "pool_step pool_sys_init s1"
    using pool_step.miss [of pool_sys_init 7 "- 1" bitmap_init] by (simp add: s1_def pool_sys_init_def)
  moreover have "bitmap_create_insert_node True bitmap_init = (0, b1)"
    by (simp add: bitmap_create_insert_node_def bitmap_insert_notfull_def bitmap_init_def b1_def MAPSIZE_def)
  then have "pool_step s1 s2"
    using pool_step.create [of s1 7 0 b1]
    by (simp add: s1_def s2_def pool_sys_init_def bitmap_init_def)
  moreover have "bitmap_get_unused b1 = (0, b2)"
    by (simp add: bitmap_get_unused_def b1_def b2_def scan_unused.simps MAPSIZE_def MAPBIT_def MAPFULL_def)
  then have "pool_step s2 s3"
    using pool_step.hit [of s2 7 0 b2] by (simp add: s2_def s3_def)
  ultimately have r: "pool_step\<^sup>*\<^sup>* pool_sys_init s3"
    by (meson converse_rtranclp_into_rtranclp rtranclp.rtrancl_refl)
  have h: "0 \<in> held s3 7" by (simp add: s3_def)
  from pool_threads_exclusive [OF r h h] r h show ?thesis by blast
qed

text \<open>
  In sequential use the queue of not-full nodes stays sorted, and \<open>bitmap_get_id\<close>
  returns the least free ID of the queued nodes.
\<close>

theorem bitmap_get_id_least:
  assumes s: "bitmap_sorted b" and g: "bitmap_get_id ok b = (r, b')"
    and q: "nodes_notfull b \<noteq> []"
    and x: "x \<notin> used b" "nat (x div 64) \<in> set (nodes_notfull b)" "0 \<le> x"
  shows "r \<le> x \<and> bitmap_sorted b'"
proof
  have wf: "bitmap_wf b" using s by (simp add: bitmap_sorted_def)
  obtain i "is" where Cons: "nodes_notfull b = i # is" using q by (cases "nodes_notfull b") auto
  define c where "c = scan_unused (bn_map (nodes_all b ! i)) 0"
  from wf_notfull_hd [OF wf Cons] have i: "i < length (nodes_all b)"
    and nf: "bn_map (nodes_all b ! i) \<noteq> MAPFULL" by simp_all
  have c: "c < 64" "\<And>k. k < c \<Longrightarrow> bit (bn_map (nodes_all b ! i)) k"
    unfolding c_def using nf by (blast intro: scan_unused_0)+
  have gu: "\<exists>b''. bitmap_get_unused b = (64 * int i + int c, b'')"
    using get_unused_eq [OF wf Cons] by (simp add: c_def)
  then have r: "r = 64 * int i + int c" "bitmap_get_unused b = (r, b')"
    using g by (auto simp: bitmap_get_id_def)
  show "bitmap_sorted b'" using get_unused_sorted [OF s r(2)] .
  define j k where "j = nat (x div 64)" and "k = nat (x mod 64)"
  have xe: "x = 64 * int j + int k" using id_split [of x] x(3) by (simp only: j_def k_def)
  have "i \<le> j" using s Cons x(2) by (auto simp: bitmap_sorted_def j_def)
  show "r \<le> x"
  proof (cases "i = j")
    case False
    with \<open>i \<le> j\<close> have "int i + 1 \<le> int j" by linarith
    then show ?thesis using xe r c by linarith
  next
    case True
    have "k < 64" by (simp add: k_def)
    then have "x \<le> highest b" using True i wf xe by (simp add: bitmap_wf_def)
    then have "\<not> bit (bn_map (nodes_all b ! i)) k"
      using x used_iff [OF wf, of x] True by (simp add: j_def k_def)
    then have "c \<le> k" using c(2) not_less by blast
    then show ?thesis using xe r True by linarith
  qed
qed

theorem bitmap_get_id_least_witness:
  "\<exists>b r b'. bitmap_sorted b \<and> bitmap_get_id True b = (r, b') \<and> 5 \<notin> used b \<and> r \<le> 5 \<and> bitmap_sorted b'"
proof -
  define b where "b = \<lparr>nodes_all = [\<lparr>bn_map = 3, bn_start = 0\<rparr>], nodes_notfull = [0], highest = 63\<rparr>"
  have s: "bitmap_sorted b"
    by (simp add: bitmap_sorted_def bitmap_wf_def b_def MAPFULL_def)
  obtain r b' where g: "bitmap_get_id True b = (r, b')" by fastforce
  have x: "(5::int) \<notin> used b"
    by (simp add: used_def node_ids_def b_def bit_numeral_rec(2) upt_rec bit_iff_odd)
  from bitmap_get_id_least [OF s g _ x] s g x show ?thesis by (auto simp: b_def)
qed

text \<open>
  The order comment of \<open>bitmap.h\<close> (all released IDs are recycled) does not hold: a
  full node whose start is greater than that of every queued node is not queued again when
  one of its IDs is released, so the ID is free but cannot be allocated.
\<close>

theorem bitmap_put_id_lost:
  assumes "bitmap_wf b" "nodes_notfull b \<noteq> []" "0 \<le> x" "x \<le> highest b"
    and "\<forall>i \<in> set (nodes_notfull b). i < nat (x div 64)"
  shows "nodes_notfull (bitmap_put_id b x) = nodes_notfull b \<and>
    x \<notin> used (bitmap_put_id b x) \<and> nat (x div 64) \<notin> set (nodes_notfull (bitmap_put_id b x))"
proof -
  define i c where "i = nat (x div 64)" and "c = nat (x mod 64)"
  note wf = assms(1)
  have eq: "bitmap_put_id b x = put_at b i c" and i: "i < length (nodes_all b)"
    using put_id_eq [OF wf assms(3,4)] by (simp_all add: i_def c_def)
  have none: "insert_before st i ps = ps" if "\<And>p. p \<in> set ps \<Longrightarrow> st p \<le> st i" for st ps
    using that by (induction ps) force+
  have "insert_before (\<lambda>k. bn_start ((nodes_all b)[i := (nodes_all b ! i)\<lparr>bn_map := m\<rparr>] ! k)) i
      (nodes_notfull b) = nodes_notfull b" for m
  proof (rule none)
    fix p assume p: "p \<in> set (nodes_notfull b)"
    then have "p < i" using assms(5) by (simp add: i_def)
    then show "bn_start ((nodes_all b)[i := (nodes_all b ! i)\<lparr>bn_map := m\<rparr>] ! p)
      \<le> bn_start ((nodes_all b)[i := (nodes_all b ! i)\<lparr>bn_map := m\<rparr>] ! i)"
      using i wf_start [OF wf, of p] wf_start [OF wf i] by simp
  qed
  then have "nodes_notfull (put_at b i c) = nodes_notfull b"
    using assms(2) by (simp add: put_at_def bitmap_insert_notfull_def Let_def)
  moreover have "i \<notin> set (nodes_notfull b)" using assms(5) by (auto simp: i_def)
  ultimately show ?thesis using eq put_id_spec(2) [OF wf, of x] by (auto simp: i_def)
qed

theorem bitmap_put_id_lost_witness:
  "\<exists>b. bitmap_wf b \<and> 64 \<in> used b \<and>
     nodes_notfull (bitmap_put_id b 64) = nodes_notfull b \<and> 64 \<notin> used (bitmap_put_id b 64) \<and>
     nat (64 div 64) \<notin> set (nodes_notfull (bitmap_put_id b 64))"
proof -
  define b where "b = \<lparr>nodes_all = [\<lparr>bn_map = 1, bn_start = 0\<rparr>, \<lparr>bn_map = MAPFULL, bn_start = 64\<rparr>],
     nodes_notfull = [0], highest = 127\<rparr>"
  have wf: "bitmap_wf b" by (simp add: bitmap_wf_def b_def MAPFULL_def)
  have "64 \<in> used b" using used_iff [OF wf, of 64] by (simp add: b_def MAPFULL_def)
  moreover have "nodes_notfull b \<noteq> []" "(64::int) \<le> highest b" "\<forall>i \<in> set (nodes_notfull b). i < nat (64 div 64)"
    by (simp_all add: b_def)
  ultimately show ?thesis using bitmap_put_id_lost [OF wf, of 64] wf by auto
qed

end
