(* ===== verification/Obix_Strings.thy ===== *)
theory Obix_Strings
  imports Obix_Prelude
begin

text \<open>
  The string layer: what the sources use of the C library on strings (\<open>strtol\<close>,
  \<open>strtok_r\<close>, \<open>strncmp\<close>, \<open>strstr\<close>, \<open>isspace\<close>), the path helpers of
  \<open>src/src/libs/obix_utils.c\<close> and the href helpers of \<open>src/src/libs/xml_utils.c\<close>.

  A \<open>char *\<close> that may be NULL is a \<open>cstr option\<close>.  Functions that return 1 or 0 as a
  truth value return the same integers here.  On an empty string \<open>is_str_identical\<close>
  reads the byte before the buffer; the model reads \<open>NUL\<close> there and the properties that
  depend on it exclude empty strings.
\<close>

section \<open>The C library\<close>

definition LONG_MAX :: int where "LONG_MAX = 2 ^ 63 - 1"
definition LONG_MIN :: int where "LONG_MIN = - (2 ^ 63)"

definition isspace :: "char \<Rightarrow> bool" where
  "isspace c \<longleftrightarrow> of_char c \<in> {32, 9, 10, 11, 12, 13 :: nat}"

definition isdigit :: "char \<Rightarrow> bool" where
  "isdigit c \<longleftrightarrow> 48 \<le> (of_char c :: nat) \<and> (of_char c :: nat) \<le> 57"

definition digit_val :: "char \<Rightarrow> int" where
  "digit_val c = int (of_char c) - 48"

definition digits_val :: "cstr \<Rightarrow> int" where
  "digits_val ds = foldl (\<lambda>a c. 10 * a + digit_val c) 0 ds"

text \<open>
  \<open>strtol(s, &end, 10)\<close>: the value, the offset of \<open>end\<close> and whether \<open>errno\<close> is
  \<open>ERANGE\<close>; out-of-range values saturate, and without digits \<open>end\<close> is \<open>s\<close> itself.
\<close>

definition strtol :: "cstr \<Rightarrow> int \<times> nat \<times> bool" where
  "strtol s =
     (let ws = takeWhile isspace s;
          r = dropWhile isspace s;
          neg = (cget r 0 = CHR ''-'');
          sl = (if cget r 0 = CHR ''-'' \<or> cget r 0 = CHR ''+'' then 1 else 0);
          ds = takeWhile isdigit (drop sl r);
          v = (if neg then - digits_val ds else digits_val ds)
      in if ds = [] then (0, 0, False)
         else (max LONG_MIN (min LONG_MAX v), length ws + sl + length ds,
               v < LONG_MIN \<or> LONG_MAX < v))"

text \<open>\<open>strtok_r\<close> over a whole string: the maximal runs of non-delimiters.\<close>

function str_tokens :: "cstr \<Rightarrow> cstr \<Rightarrow> cstr list" where
  "str_tokens d s =
     (let s' = dropWhile (\<lambda>c. c \<in> set d) s
      in if s' = [] then []
         else takeWhile (\<lambda>c. c \<notin> set d) s' # str_tokens d (dropWhile (\<lambda>c. c \<notin> set d) s'))"
  by pat_completeness auto
termination
proof (relation "measure (\<lambda>(d, s). length s)")
  fix d s x
  assume x: "x = dropWhile (\<lambda>c. c \<in> set d) s" and "x \<noteq> []"
  then obtain y ys where y: "x = y # ys" by (meson neq_Nil_conv)
  with x have "y \<notin> set d" by (metis hd_dropWhile list.sel(1) list.simps(3))
  then have "length (dropWhile (\<lambda>c. c \<notin> set d) x) \<le> length ys"
    using y by (simp add: length_dropWhile_le)
  also have "\<dots> < length x" using y by simp
  also have "\<dots> \<le> length s" using x length_dropWhile_le [of "\<lambda>c. c \<in> set d" s] by simp
  finally show "((d, dropWhile (\<lambda>c. c \<notin> set d) x), d, s) \<in> measure (\<lambda>(d, s). length s)" by simp
qed simp

declare str_tokens.simps [simp del]

definition strncmp_eq :: "cstr \<Rightarrow> cstr \<Rightarrow> nat \<Rightarrow> bool" where
  "strncmp_eq s t n \<longleftrightarrow> take n s = take n t"

fun has_dslash :: "cstr \<Rightarrow> bool" where
  "has_dslash (a # b # s) = ((a = slash \<and> b = slash) \<or> has_dslash (b # s))"
| "has_dslash s = False"

section \<open>obix_utils.c: slashes, tokens, path names, numbers\<close>

definition slash_preceded :: "cstr option \<Rightarrow> int" where
  "slash_preceded s = (case s of None \<Rightarrow> 0 | Some s \<Rightarrow> if cget s 0 = slash then 1 else 0)"

definition slash_followed :: "cstr option \<Rightarrow> int" where
  "slash_followed s =
     (case s of None \<Rightarrow> 0
      | Some s \<Rightarrow> let len = length s in
          if len = 0 then 0 else if s ! (len - 1) = slash then 1 else 0)"

definition str_token_count_helper :: "cstr \<Rightarrow> int \<Rightarrow> int \<times> int" where
  "str_token_count_helper tok arg1 = (0, arg1 + 1)"

text \<open>
  The callback takes the token and its argument and returns its code and the argument's
  new value; a negative code ends the loop.  The argument \<open>ok\<close> is the result of \<open>strdup\<close>.
\<close>

fun each_token :: "(cstr \<Rightarrow> 'a \<Rightarrow> int \<times> 'a) \<Rightarrow> int \<Rightarrow> cstr list \<Rightarrow> 'a \<Rightarrow> int \<times> 'a" where
  "each_token cb ret [] arg = (ret, arg)"
| "each_token cb ret (tok # toks) arg =
     (let (r, arg') = cb tok arg in if r < 0 then (r, arg') else each_token cb r toks arg')"

definition for_each_str_token ::
  "bool \<Rightarrow> cstr \<Rightarrow> cstr \<Rightarrow> (cstr \<Rightarrow> 'a \<Rightarrow> int \<times> 'a) \<Rightarrow> 'a \<Rightarrow> int \<times> 'a" where
  "for_each_str_token ok delimiter str cb arg =
     (if \<not> ok then (- 1, arg) else each_token cb (- 1) (str_tokens delimiter str) arg)"

text \<open>\<open>str_to_long\<close>: the return code and \<open>*val\<close>.\<close>

definition str_to_long :: "cstr \<Rightarrow> int \<times> int" where
  "str_to_long str =
     (let (val, end, erange) = strtol str in
      if (erange \<and> (val = LONG_MAX \<or> val = LONG_MIN)) \<or> (erange \<and> val = 0) then (- 1, val)
      else if end = 0 then (- 2, val)
      else (0, val))"

record timespec =
  tv_sec :: int
  tv_nsec :: int

definition timespec_compare :: "timespec \<Rightarrow> timespec \<Rightarrow> int" where
  "timespec_compare m1 m2 =
     (if tv_sec m1 < tv_sec m2 \<or> (tv_sec m1 = tv_sec m2 \<and> tv_nsec m1 < tv_nsec m2) then - 1
      else if tv_sec m1 > tv_sec m2 \<or> (tv_sec m1 = tv_sec m2 \<and> tv_nsec m1 > tv_nsec m2) then 1
      else 0)"

text \<open>
  \<open>link_pathname\<close>: \<open>link_len\<close> is the length computed before the allocation (one more
  byte is allocated for the terminator), \<open>link_buf\<close> the bytes written afterwards.
\<close>

definition link_len :: "cstr \<Rightarrow> cstr option \<Rightarrow> cstr option \<Rightarrow> cstr option \<Rightarrow> int" where
  "link_len root parent file sfx =
     (let l0 = int (length root);
          l1 = (if slash_followed (Some root) = 0 then l0 + 1 else l0);
          l2 = (case parent of None \<Rightarrow> l1
                | Some p \<Rightarrow>
                    let a = l1 + int (length p);
                        b = (if slash_preceded parent = 1 then a - 1 else a)
                    in if slash_followed parent = 0 then b + 1 else b);
          l3 = (case file of None \<Rightarrow> l2
                | Some f \<Rightarrow>
                    let a = l2 + int (length f)
                    in if slash_preceded file = 1 then a - 1 else a)
      in case sfx of None \<Rightarrow> l3 | Some x \<Rightarrow> l3 + int (length x))"

definition link_buf :: "cstr \<Rightarrow> cstr option \<Rightarrow> cstr option \<Rightarrow> cstr option \<Rightarrow> cstr" where
  "link_buf root parent file sfx =
     (let b0 = (if slash_followed (Some root) = 0 then root @ [slash] else root);
          b1 = (case parent of None \<Rightarrow> b0
                | Some p \<Rightarrow>
                    let p' = (if slash_preceded parent = 1 then tl p else p)
                    in if cget p' 0 \<noteq> NUL
                       then b0 @ (if slash_followed (Some p') = 0 then p' @ [slash] else p')
                       else b0);
          b2 = (case file of None \<Rightarrow> b1
                | Some f \<Rightarrow> b1 @ (if slash_preceded file = 1 then tl f else f))
      in case sfx of None \<Rightarrow> b2 | Some x \<Rightarrow> b2 @ x)"

definition link_pathname ::
  "bool \<Rightarrow> cstr option \<Rightarrow> cstr option \<Rightarrow> cstr option \<Rightarrow> cstr option \<Rightarrow> int \<times> cstr option" where
  "link_pathname ok root parent file sfx =
     (case root of None \<Rightarrow> (- 1, None)
      | Some r \<Rightarrow>
          if length r = 0 then (- 1, None)
          else if \<not> ok then (- 1, None)
          else (0, Some (link_buf r parent file sfx)))"

text \<open>The rest of a string from the first occurrence of another one, as \<open>strstr\<close> and \<open>xmlStrstr\<close> return it.\<close>

fun strstr :: "cstr \<Rightarrow> cstr \<Rightarrow> cstr option" where
  "strstr p [] = (if p = [] then Some [] else None)"
| "strstr p (c # s) = (if take (length p) (c # s) = p then Some (c # s) else strstr p s)"

section \<open>xml_utils.c: hrefs\<close>

datatype obix_root = OBIX_BATCH | OBIX_DEVICE | OBIX_WATCH | OBIX_HISTORY

fun obix_roots_root :: "obix_root \<Rightarrow> cstr" where
  "obix_roots_root OBIX_BATCH = ''/obix/batch/''"
| "obix_roots_root OBIX_DEVICE = ''/obix/deviceRoot/''"
| "obix_roots_root OBIX_WATCH = ''/obix/watchService/''"
| "obix_roots_root OBIX_HISTORY = ''/obix/historyService/''"

fun obix_roots_len :: "obix_root \<Rightarrow> nat" where
  "obix_roots_len OBIX_BATCH = 12"
| "obix_roots_len OBIX_DEVICE = 17"
| "obix_roots_len OBIX_WATCH = 19"
| "obix_roots_len OBIX_HISTORY = 21"

definition is_given_type :: "cstr \<Rightarrow> obix_root \<Rightarrow> int" where
  "is_given_type href type =
     (let root = obix_roots_root type; len = obix_roots_len type - 1 in
      if strncmp_eq href root len \<and> (cget href len = NUL \<or> cget href len = slash) then 1 else 0)"

text \<open>\<open>is_str_identical\<close> compares from the tail to the head.\<close>

definition last_byte :: "cstr \<Rightarrow> char" where
  "last_byte s = (if s = [] then NUL else s ! (length s - 1))"

fun cmp_from_tail :: "cstr \<Rightarrow> cstr \<Rightarrow> nat \<Rightarrow> int" where
  "cmp_from_tail s t 0 = 1"
| "cmp_from_tail s t (Suc i) = (if cget s i \<noteq> cget t i then 0 else cmp_from_tail s t i)"

definition is_str_identical :: "cstr option \<Rightarrow> cstr option \<Rightarrow> int \<Rightarrow> int" where
  "is_str_identical str1 str2 lenient =
     (case (str1, str2) of
        (Some s1, Some s2) \<Rightarrow>
          let len1 = (if lenient = 1 \<and> last_byte s1 = slash then length s1 - 1 else length s1);
              len2 = (if lenient = 1 \<and> last_byte s2 = slash then length s2 - 1 else length s2)
          in if len1 \<noteq> len2 then 0
             else if len1 = 0 \<and> len2 = 0 then 1
             else cmp_from_tail s1 s2 len1
      | _ \<Rightarrow> 0)"

definition xml_is_valid_href :: "cstr option \<Rightarrow> int" where
  "xml_is_valid_href href =
     (case href of None \<Rightarrow> 0
      | Some h \<Rightarrow>
          if length h = 0 \<or> (length h = 1 \<and> cget h 0 = slash) then 0
          else if isspace (cget h 0) then 0
          else if \<exists>i < length h. h ! i = CHR ''.'' then 0
          else if has_dslash h then 0
          else 1)"

text \<open>What \<open>is_str_identical\<close> compares: the string without one trailing slash.\<close>

definition strip_slash :: "cstr \<Rightarrow> cstr" where
  "strip_slash s = (if s \<noteq> [] \<and> last s = slash then butlast s else s)"

abbreviation tokens :: "cstr \<Rightarrow> cstr list" where
  "tokens \<equiv> str_tokens [slash]"

section \<open>Searching in strings\<close>

lemma strstr_skip: "\<forall>c \<in> set ds. c \<noteq> hd p \<Longrightarrow> p \<noteq> [] \<Longrightarrow> strstr p (ds @ r) = strstr p r"
proof (induction ds)
  case (Cons c ds)
  then have "take (length p) (c # ds @ r) \<noteq> p" by (cases p) auto
  then show ?case using Cons by simp
qed simp

lemma strstr_Some:
  assumes "strstr p s = Some r"
  shows "take (length p) r = p" "length r \<le> length s" "length p \<le> length r"
proof -
  have "take (length p) r = p \<and> length r \<le> length s"
    using assms by (induction s) (auto split: if_splits)
  then show "take (length p) r = p" "length r \<le> length s" "length p \<le> length r"
    by (auto dest: arg_cong [of _ _ length])
qed

lemma strstr_here: "strstr p (p @ x) = Some (p @ x)"
proof (cases "p @ x")
  case (Cons c s)
  have "take (length p) (p @ x) = p" by simp
  then show ?thesis unfolding Cons by simp
qed simp

text \<open>Whether a string is found right after a given text does not depend on what follows.\<close>

lemma strstr_after:
  assumes "strstr p (pre @ p) = Some p"
  shows "strstr p (pre @ p @ x) = Some (p @ x)"
  using assms
proof (induction pre)
  case (Cons c pre)
  have t: "take (length p) (c # pre @ p @ x) = take (length p) (c # pre @ p)"
    using take_append [of "length p" "c # pre @ p" x] by simp
  show ?case
  proof (cases "take (length p) (c # pre @ p) = p")
    case True
    then have "c # pre @ p = p" using Cons.prems by simp
    then show ?thesis using arg_cong [of "c # pre @ p" p length] by simp
  next
    case False
    then show ?thesis using Cons t by simp
  qed
qed (simp add: strstr_here)

section \<open>Comparing hrefs\<close>

lemma cmp_from_tail_iff:
  "n \<le> length s \<Longrightarrow> n \<le> length t \<Longrightarrow> cmp_from_tail s t n = (if take n s = take n t then 1 else 0)"
proof (induction n)
  case (Suc n)
  then have "take (Suc n) s = take n s @ [s ! n]" "take (Suc n) t = take n t @ [t ! n]"
    by (simp_all add: take_Suc_conv_app_nth)
  with Suc show ?case by (auto simp: cget_def)
qed simp

lemma last_byte_last: "s \<noteq> [] \<Longrightarrow> last_byte s = last s"
  by (simp add: last_byte_def last_conv_nth)

lemma strip_slash_take:
  "strip_slash s = take (if last_byte s = slash then length s - 1 else length s) s"
  by (cases "s = []") (simp_all add: strip_slash_def last_byte_last butlast_conv_take)

lemma is_str_identical_lenient:
  "is_str_identical (Some s) (Some t) 1 = (if strip_slash s = strip_slash t then 1 else 0)"
proof -
  define m where "m = (if last_byte s = slash then length s - 1 else length s)"
  define n where "n = (if last_byte t = slash then length t - 1 else length t)"
  have mn: "m \<le> length s" "n \<le> length t" by (simp_all add: m_def n_def)
  have "is_str_identical (Some s) (Some t) 1 =
      (if m \<noteq> n then 0 else if m = 0 \<and> n = 0 then 1 else cmp_from_tail s t m)"
    by (simp add: is_str_identical_def Let_def m_def n_def)
  also have "\<dots> = (if take m s = take n t then 1 else 0)"
  proof (cases "m = n")
    case True
    then show ?thesis using cmp_from_tail_iff [of m s t] mn by simp
  next
    case False
    have "length (take m s) \<noteq> length (take n t)" using False mn by simp
    then have "take m s \<noteq> take n t" by metis
    with False show ?thesis by simp
  qed
  finally show ?thesis by (simp add: strip_slash_take m_def n_def)
qed

lemma is_str_identical_exact:
  "lenient \<noteq> 1 \<Longrightarrow> is_str_identical (Some s) (Some t) lenient = (if s = t then 1 else 0)"
  using cmp_from_tail_iff [of "length s" s t]
  by (auto simp: is_str_identical_def Let_def)

lemma is_str_identical_NULL [simp]:
  "is_str_identical None t l = 0" "is_str_identical s None l = 0"
  by (simp_all add: is_str_identical_def split: option.splits)

lemma tokens_Nil [simp]: "tokens [] = []"
  by (simp add: str_tokens.simps)

lemma tokens_slash [simp]: "tokens (slash # s) = tokens s"
  by (subst (1 2) str_tokens.simps) simp

lemma tokens_word:
  assumes "w \<noteq> []" "slash \<notin> set w" "s = [] \<or> hd s = slash"
  shows "tokens (w @ s) = w # tokens s"
proof -
  have d: "dropWhile (\<lambda>c. c \<in> set [slash]) (w @ s) = w @ s"
    using assms(1,2) by (cases w) auto
  have t: "takeWhile (\<lambda>c. c \<notin> set [slash]) (w @ s) = w" "dropWhile (\<lambda>c. c \<notin> set [slash]) (w @ s) = s"
    using assms(2,3) by (induction w) (auto simp: takeWhile_eq_Nil_iff dropWhile_eq_self_iff)
  show ?thesis using assms(1) by (subst str_tokens.simps) (simp only: Let_def d t, simp)
qed

lemma has_dslash_append_word:
  "slash \<notin> set w \<Longrightarrow> has_dslash (w @ s) = has_dslash s"
proof (induction w)
  case (Cons a w)
  then show ?case by (cases "w @ s") auto
qed simp

lemma has_dslash_slash: "has_dslash (slash # s) \<longleftrightarrow> cget s 0 = slash \<or> has_dslash s"
  by (cases s) auto

text \<open>Every absolute href without a double slash is its tokens, each after a slash.\<close>

lemma tokens_join_gen:
  "\<not> has_dslash (slash # s) \<Longrightarrow>
   concat (map (\<lambda>t. slash # t) (tokens (slash # s))) = strip_slash (slash # s)"
proof (induction "length s" arbitrary: s rule: less_induct)
  case less
  define w r where "w = takeWhile (\<lambda>c. c \<noteq> slash) s" and "r = dropWhile (\<lambda>c. c \<noteq> slash) s"
  have s: "s = w @ r" and w: "slash \<notin> set w" by (auto simp: w_def r_def dest: set_takeWhileD)
  have r: "r = [] \<or> hd r = slash" unfolding r_def by (metis (mono_tags) hd_dropWhile)
  show ?case
  proof (cases "w = []")
    case True
    then have "s = []" using less.prems s r by (cases r) (auto simp: has_dslash_slash)
    then show ?thesis by (simp add: strip_slash_def)
  next
    case False
    have tk: "tokens (slash # s) = w # tokens r" using tokens_word [OF False w r] s by simp
    show ?thesis
    proof (cases r)
      case Nil
      moreover have "last w \<noteq> slash" using w False last_in_set by metis
      ultimately show ?thesis using tk s False by (simp add: strip_slash_def)
    next
      case (Cons c r')
      then have r': "r = slash # r'" using r by simp
      have "\<not> has_dslash r" using less.prems s w has_dslash_append_word [OF w, of r]
        by (simp add: has_dslash_slash)
      then have "concat (map (\<lambda>t. slash # t) (tokens r)) = strip_slash r"
        using less.hyps [of r'] r' s False by simp
      moreover have "strip_slash (slash # w @ r) = slash # w @ strip_slash r"
        using r' by (simp add: strip_slash_def butlast_append)
      ultimately show ?thesis using tk s by simp
    qed
  qed
qed

lemma tokens_slash_free: "t \<in> set (tokens s) \<Longrightarrow> t \<noteq> [] \<and> slash \<notin> set t"
proof (induction "[slash]" s rule: str_tokens.induct)
  case (1 s)
  define s' where "s' = dropWhile (\<lambda>c. c \<in> set [slash]) s"
  have e: "tokens s = (if s' = [] then []
     else takeWhile (\<lambda>c. c \<notin> set [slash]) s' # tokens (dropWhile (\<lambda>c. c \<notin> set [slash]) s'))"
    by (subst str_tokens.simps) (simp only: s'_def Let_def)
  have ne: "s' \<noteq> []" using 1 e by auto
  then have hd: "hd s' \<noteq> slash" using s'_def by (metis hd_dropWhile list.set_intros(1))
  show ?case
  proof (cases "t = takeWhile (\<lambda>c. c \<notin> set [slash]) s'")
    case True
    then show ?thesis using hd ne by (cases s') (auto dest: set_takeWhileD)
  next
    case False
    then have "t \<in> set (tokens (dropWhile (\<lambda>c. c \<notin> set [slash]) s'))"
      using 1(2) ne by (simp only: e) simp
    then show ?thesis using 1(1) [OF s'_def ne] by simp
  qed
qed

lemma tokens_snoc_slash: "tokens (y @ [slash]) = tokens y"
proof (induction "length y" arbitrary: y rule: less_induct)
  case less
  show ?case
  proof (cases y)
    case (Cons a q)
    show ?thesis
    proof (cases "a = slash")
      case True
      then show ?thesis using less [of q] Cons by simp
    next
      case False
      define w r where "w = takeWhile (\<lambda>c. c \<noteq> slash) y" and "r = dropWhile (\<lambda>c. c \<noteq> slash) y"
      have y: "y = w @ r" and w: "slash \<notin> set w" "w \<noteq> []"
        using Cons False by (auto simp: w_def r_def dest: set_takeWhileD)
      have r: "r = [] \<or> hd r = slash" unfolding r_def by (metis (mono_tags) hd_dropWhile)
      have "tokens y = w # tokens r" using tokens_word [OF w(2,1) r] y by simp
      moreover have "tokens (y @ [slash]) = w # tokens (r @ [slash])"
        using tokens_word [OF w(2,1), of "r @ [slash]"] r y by (cases r) auto
      moreover have "tokens (r @ [slash]) = tokens r" using less [of r] y w by simp
      ultimately show ?thesis by simp
    qed
  qed simp
qed

section \<open>Path names\<close>

lemma slash_followed_iff: "slash_followed (Some s) = (if s \<noteq> [] \<and> last s = slash then 1 else 0)"
  by (simp add: slash_followed_def Let_def last_conv_nth)

lemma slash_preceded_iff: "slash_preceded (Some s) = (if s \<noteq> [] \<and> hd s = slash then 1 else 0)"
  by (cases s) (auto simp: slash_preceded_def)

lemmas slash_iffs = slash_followed_iff slash_preceded_iff

lemma slash_None [simp]: "slash_followed None = 0" "slash_preceded None = 0"
  by (simp_all add: slash_followed_def slash_preceded_def)

lemma has_dslash_append:
  "has_dslash (s @ t) \<longleftrightarrow> has_dslash s \<or> has_dslash t \<or> (s \<noteq> [] \<and> t \<noteq> [] \<and> last s = slash \<and> hd t = slash)"
proof (induction s)
  case (Cons x s)
  then show ?case by (cases s; cases t) auto
qed simp

lemma link_parent_len:
  "int (length (let p' = (if slash_preceded (Some p) = 1 then tl p else p)
      in if cget p' 0 \<noteq> NUL then (if slash_followed (Some p') = 0 then p' @ [slash] else p') else []))
   \<le> int (length p) - (if slash_preceded (Some p) = 1 then 1 else 0)
      + (if slash_followed (Some p) = 0 then 1 else 0)"
proof (cases p)
  case (Cons a q)
  then show ?thesis by (cases q) (auto simp: slash_iffs Let_def)
qed (simp add: slash_iffs)

lemma link_buf_parent:
  "link_buf r parent file sfx =
     (if slash_followed (Some r) = 0 then r @ [slash] else r) @
     (case parent of None \<Rightarrow> []
      | Some p \<Rightarrow> (let p' = (if slash_preceded (Some p) = 1 then tl p else p)
          in if cget p' 0 \<noteq> NUL then (if slash_followed (Some p') = 0 then p' @ [slash] else p') else [])) @
     (case file of None \<Rightarrow> [] | Some f \<Rightarrow> (if slash_preceded (Some f) = 1 then tl f else f)) @
     (case sfx of None \<Rightarrow> [] | Some x \<Rightarrow> x)"
  by (simp add: link_buf_def Let_def split: option.splits)

lemma is_given_type_cases: "length (obix_roots_root ty) = obix_roots_len ty" "0 < obix_roots_len ty"
  by (cases ty; simp)+

lemma no_dslash_tl: "\<not> has_dslash s \<Longrightarrow> \<not> has_dslash (tl s)"
  by (cases s rule: has_dslash.cases) auto

lemma no_dslash_snoc: "\<not> has_dslash s \<Longrightarrow> slash_followed (Some s) = 0 \<Longrightarrow> \<not> has_dslash (s @ [slash])"
  by (auto simp: has_dslash_append slash_iffs split: if_splits)

section \<open>Properties\<close>






text \<open>
  C26: \<open>is_given_type\<close> accepts exactly the root of a subsystem without its final slash
  and the hrefs below it, never an href that only shares a prefix of the name.
\<close>

theorem is_given_type_iff:
  assumes "wf_cstr h"
  shows "is_given_type h ty = 1 \<longleftrightarrow>
     (let root = butlast (obix_roots_root ty) in h = root \<or> prefix (root @ [slash]) h)"
proof -
  let ?R = "obix_roots_root ty" and ?n = "obix_roots_len ty - 1"
  have root: "take ?n ?R = butlast ?R" "length (butlast ?R) = ?n"
    using is_given_type_cases [of ty] by (simp_all add: butlast_conv_take)
  have "take ?n h = butlast ?R \<and> (cget h ?n = NUL \<or> cget h ?n = slash) \<longleftrightarrow>
      h = butlast ?R \<or> prefix (butlast ?R @ [slash]) h" (is "?L = ?RR")
  proof
    assume L: ?L
    show ?RR
    proof (cases "length h \<le> ?n")
      case True
      then show ?thesis using L by simp
    next
      case False
      then have h: "h = take ?n h @ [h ! ?n] @ drop (Suc ?n) h"
        by (metis Cons_nth_drop_Suc append_Cons append_Nil append_take_drop_id not_le)
      have "h ! ?n \<noteq> NUL" using False assms by (metis not_le nth_mem wf_cstr_def)
      with L False have "cget h ?n = slash" "h ! ?n = slash" by (auto simp: cget_def split: if_splits)
      with L h show ?thesis by (metis append.assoc prefix_def)
    qed
  next
    assume ?RR
    then show ?L
    proof
      assume "prefix (butlast ?R @ [slash]) h"
      then obtain z where "h = butlast ?R @ slash # z" by (auto simp: prefix_def)
      then show ?L using root by (simp add: cget_def nth_append)
    qed (use root in \<open>simp add: cget_def\<close>)
  qed
  then show ?thesis using root by (simp add: is_given_type_def strncmp_eq_def Let_def)
qed

theorem is_given_type_iff_witness:
  "wf_cstr ''/obix/deviceRootX'' \<and> is_given_type ''/obix/deviceRootX'' OBIX_DEVICE \<noteq> 1"
proof -
  have w: "wf_cstr ''/obix/deviceRootX''" by (simp add: wf_cstr_def NUL_def)
  from is_given_type_iff [OF w, of OBIX_DEVICE] w show ?thesis by (simp add: slash_def)
qed

end
