(* ===== verification/Obix_Hash.thy ===== *)
theory Obix_Hash
  imports Obix_Strings
begin

text \<open>
  The hash table of \<open>src/src/libs/hash.c\<close> and the operations \<open>src/src/server/device.c\<close>
  installs in it.

  The table is a list of heads; a head has its node count (unsigned int), its collision
  list and the shutdown flag of its \<open>tsync\<close> lock, which makes the entry functions fail.
  The table pointer itself is never NULL once \<open>hash_init_table\<close> succeeded; keys and items
  may be.  \<open>hash_search\<close> returns the item on which the \<open>get\<close> operation has been called.
  A search, an insertion or a deletion runs inside the reader or writer region of one head,
  so it is one atomic step.
\<close>

section \<open>Primes\<close>

text \<open>
  \<open>is_prime\<close>: \<open>i\<close> and \<open>w\<close> are ints, so \<open>i * i\<close> must stay below $2^{31}$; \<open>None\<close> is
  that overflow, undefined in C.
\<close>

function is_prime_loop :: "nat \<Rightarrow> nat \<Rightarrow> nat \<Rightarrow> bool option" where
  "is_prime_loop n i w =
     (if 2 ^ 31 \<le> i * i then None
      else if i * i \<le> n then
        if n mod i = 0 then Some False else is_prime_loop n (i + w) (6 - w)
      else Some True)"
  by pat_completeness auto
termination
proof (relation "measure (\<lambda>(n, i, w). 2 * (n + 1 - i) + (if w = 0 then 1 else 0))")
  fix n i w :: nat
  assume "i * i \<le> n"
  then have "i \<le> n" by (meson le_square le_trans)
  then show "((n, i + w, 6 - w), n, i, w) \<in> measure (\<lambda>(n, i, w). 2 * (n + 1 - i) + (if w = 0 then 1 else 0))"
    by auto
qed simp

declare is_prime_loop.simps [simp del]

definition is_prime :: "nat \<Rightarrow> bool option" where
  "is_prime n =
     (if n = 2 \<or> n = 3 then Some True
      else if n mod 2 = 0 \<or> n mod 3 = 0 then Some False
      else is_prime_loop n 5 2)"

text \<open>\<open>get_prime\<close>: the fuel bounds the number of candidates tried.\<close>

fun get_prime :: "nat \<Rightarrow> nat \<Rightarrow> nat option" where
  "get_prime 0 i = None"
| "get_prime (Suc fuel) i =
     (case is_prime i of None \<Rightarrow> None
      | Some True \<Rightarrow> Some i
      | Some False \<Rightarrow> get_prime fuel (Suc i))"

definition prime_spec :: "nat \<Rightarrow> bool" where
  "prime_spec n \<longleftrightarrow> 1 < n \<and> (\<forall>d \<in> {2..<n}. \<not> d dvd n)"

section \<open>The table\<close>

record 'a hash_head =
  hh_count :: "32 word"
  hh_items :: "'a list"
  hh_shutdown :: bool

record 'a hash_table =
  ht_size :: "32 word"
  ht_table :: "'a hash_head list"

record 'a hash_table_ops =
  op_compute :: "cstr \<Rightarrow> 32 word \<Rightarrow> 32 word"
  op_compare :: "cstr \<Rightarrow> 'a \<Rightarrow> int"

definition hash_init_head :: "'a hash_head" where
  "hash_init_head = \<lparr>hh_count = 0, hh_items = [], hh_shutdown = False\<rparr>"

definition hash_destroy_head :: "'a hash_head \<Rightarrow> 'a hash_head" where
  "hash_destroy_head h = (if hh_shutdown h then h else h\<lparr>hh_items := [], hh_shutdown := True\<rparr>)"

text \<open>The booleans are the results of the two allocations; \<open>fuel\<close> is that of \<open>get_prime\<close>.\<close>

definition hash_init_table :: "nat \<Rightarrow> bool \<Rightarrow> bool \<Rightarrow> 32 word \<Rightarrow> 'a hash_table option" where
  "hash_init_table fuel ok1 ok2 sz =
     (if sz = 0 then None
      else if \<not> ok1 then None
      else case get_prime fuel (unat sz) of None \<Rightarrow> None
        | Some p \<Rightarrow> if \<not> ok2 then None
            else Some \<lparr>ht_size = of_nat p, ht_table = replicate p hash_init_head\<rparr>)"

definition hash_destroy_table :: "'a hash_table \<Rightarrow> 'a hash_table" where
  "hash_destroy_table tab = tab\<lparr>ht_table := map hash_destroy_head (ht_table tab)\<rparr>"

definition head_of :: "'a hash_table_ops \<Rightarrow> 'a hash_table \<Rightarrow> cstr \<Rightarrow> nat" where
  "head_of ops tab key = unat (op_compute ops key (ht_size tab))"

definition hash_search :: "'a hash_table_ops \<Rightarrow> 'a hash_table \<Rightarrow> cstr option \<Rightarrow> 'a option" where
  "hash_search ops tab key =
     (case key of None \<Rightarrow> None
      | Some k \<Rightarrow>
          let head = ht_table tab ! head_of ops tab k in
          if hh_shutdown head then None else find (\<lambda>x. op_compare ops k x = 1) (hh_items head))"

fun del_first :: "('a \<Rightarrow> bool) \<Rightarrow> 'a list \<Rightarrow> 'a list" where
  "del_first P [] = []"
| "del_first P (x # xs) = (if P x then xs else x # del_first P xs)"

definition hash_del :: "'a hash_table_ops \<Rightarrow> 'a hash_table \<Rightarrow> cstr option \<Rightarrow> 'a hash_table" where
  "hash_del ops tab key =
     (case key of None \<Rightarrow> tab
      | Some k \<Rightarrow>
          let i = head_of ops tab k; head = ht_table tab ! i in
          if hh_shutdown head then tab
          else if \<exists>x \<in> set (hh_items head). op_compare ops k x = 1
          then tab\<lparr>ht_table := (ht_table tab)[i := head\<lparr>
                 hh_items := del_first (\<lambda>x. op_compare ops k x = 1) (hh_items head),
                 hh_count := hh_count head - 1\<rparr>]\<rparr>
          else tab)"

definition hash_add ::
  "'a hash_table_ops \<Rightarrow> bool \<Rightarrow> 'a hash_table \<Rightarrow> cstr option \<Rightarrow> 'a option \<Rightarrow> int \<times> 'a hash_table" where
  "hash_add ops ok tab key item =
     (case (key, item) of
        (Some k, Some x) \<Rightarrow>
          let i = head_of ops tab k; head = ht_table tab ! i in
          if hh_shutdown head then (- 1, tab)
          else if \<exists>y \<in> set (hh_items head). op_compare ops k y = 1 then (0, tab)
          else if \<not> ok then (- 1, tab)
          else (0, tab\<lparr>ht_table := (ht_table tab)[i := head\<lparr>
                 hh_items := hh_items head @ [x], hh_count := hh_count head + 1\<rparr>]\<rparr>)
      | _ \<Rightarrow> (- 1, tab))"

section \<open>The string hash\<close>

fun bkdr_loop :: "cstr \<Rightarrow> int \<Rightarrow> int \<Rightarrow> 32 word \<Rightarrow> 32 word" where
  "bkdr_loop [] len pos hash = hash"
| "bkdr_loop (c # str) len pos hash =
     (if pos = len - 1 \<and> c = slash then hash
      else bkdr_loop str len (pos + 1) (hash * 31 + of_nat (of_char c)))"

definition hash_bkdr :: "cstr option \<Rightarrow> int \<Rightarrow> 32 word \<Rightarrow> 32 word" where
  "hash_bkdr str len tab_size =
     (case str of None \<Rightarrow> 0
      | Some s \<Rightarrow> if len = 0 \<or> tab_size = 0 then 0 else bkdr_loop s len 0 0 mod tab_size)"

section \<open>device.c: the operations of the device table\<close>

definition device_compute_hash :: "cstr \<Rightarrow> 32 word \<Rightarrow> 32 word" where
  "device_compute_hash href tab_size =
     (let len = length href; root = obix_roots_root OBIX_DEVICE; root_len = obix_roots_len OBIX_DEVICE in
      if strncmp_eq href root root_len \<and> root_len < len
      then hash_bkdr (Some (drop root_len href)) (int (len - root_len)) tab_size
      else hash_bkdr (Some href) (int len) tab_size)"

text \<open>
  A device descriptor as far as the table sees it: its href (\<open>dev->href\<close>) and which
  descriptor it is.
\<close>

record dev_ref =
  dev_href :: cstr
  dev_ptr :: nat

definition device_compare_str :: "cstr \<Rightarrow> dev_ref \<Rightarrow> int" where
  "device_compare_str href dev = is_str_identical (Some href) (Some (dev_href dev)) 1"

definition device_hash_ops :: "dev_ref hash_table_ops" where
  "device_hash_ops = \<lparr>op_compute = device_compute_hash, op_compare = device_compare_str\<rparr>"

text \<open>Candidates walk over the numbers congruent to 5 and 1 modulo 6.\<close>

definition cand :: "nat \<Rightarrow> nat \<Rightarrow> bool" where
  "cand i w \<longleftrightarrow> (i mod 6 = 5 \<and> w = 2) \<or> (i mod 6 = 1 \<and> w = 4)"

section \<open>The table as a map\<close>

text \<open>
  What the table promises a client whose operations fit together: the hash is below the
  table size, and keys that compare as equal have the same hash.  \<open>same\<close> is the equality
  of keys the client uses, \<open>key_of\<close> the key of an item.
\<close>

definition table_wf ::
  "'a hash_table_ops \<Rightarrow> ('a \<Rightarrow> cstr) \<Rightarrow> (cstr \<Rightarrow> cstr \<Rightarrow> bool) \<Rightarrow> 'a hash_table \<Rightarrow> bool" where
  "table_wf ops key_of same tab \<longleftrightarrow>
     0 < ht_size tab \<and> length (ht_table tab) = unat (ht_size tab) \<and>
     (\<forall>i < length (ht_table tab).
        let h = ht_table tab ! i in
        \<not> hh_shutdown h \<and> hh_count h = of_nat (length (hh_items h)) \<and>
        (\<forall>x \<in> set (hh_items h). head_of ops tab (key_of x) = i) \<and>
        sorted_wrt (\<lambda>x y. \<not> same (key_of x) (key_of y)) (hh_items h))"

section \<open>Primality\<close>

lemma prime_by_trial:
  assumes "1 < n" "\<forall>d \<in> {2..<i}. \<not> d dvd n" "n < i * i"
  shows "prime_spec n"
proof -
  have False if d: "d \<in> {2..<n}" "d dvd n" for d
  proof -
    obtain e where e: "n = d * e" using d(2) by (rule dvdE)
    have e2: "2 \<le> e" "e dvd n" using e d(1) assms(1)
      by (cases e; cases "e = 1"; simp; fail | simp add: e)+
    have "d < i \<or> e < i" using assms(3) e by (metis linorder_not_le mult_le_mono)
    then show False using assms(2) d e2 by auto
  qed
  then have "\<forall>d \<in> {2..<n}. \<not> d dvd n" by blast
  then show ?thesis using assms(1) by (simp only: prime_spec_def simp_thms)
qed

lemma not_dvd_6: "\<not> 2 dvd n \<Longrightarrow> \<not> 3 dvd n \<Longrightarrow> 2 dvd d \<or> 3 dvd d \<Longrightarrow> \<not> d dvd (n :: nat)"
  using dvd_trans by blast

lemma cand_next:
  assumes "cand i w" "\<not> 2 dvd n" "\<not> 3 dvd n" "\<forall>d \<in> {2..<i}. \<not> d dvd n" "\<not> i dvd n"
  shows "cand (i + w) (6 - w) \<and> (\<forall>d \<in> {2..<i + w}. \<not> d dvd n) \<and> w \<le> 4"
proof -
  have c: "cand (i + w) (6 - w)" using assms(1) unfolding cand_def by presburger
  have "\<not> d dvd n" if "d \<in> {2..<i + w}" for d
  proof (cases "d \<le> i")
    case True
    then show ?thesis using assms(4,5) that by (cases "d = i") auto
  next
    case False
    then have "i < d" "d < i + w" using that by auto
    then have "2 dvd d \<or> 3 dvd d" using assms(1) unfolding cand_def by presburger
    then show ?thesis using not_dvd_6 [OF assms(2,3)] by blast
  qed
  then show ?thesis using c assms(1) by (auto simp: cand_def)
qed

lemma is_prime_loop_correct:
  assumes "cand i w" "5 \<le> i" "i \<le> 46340" "1 < n" "n < 46336 * 46336"
    "\<not> 2 dvd n" "\<not> 3 dvd n" "\<forall>d \<in> {2..<i}. \<not> d dvd n"
  shows "is_prime_loop n i w = Some (prime_spec n)"
  using assms
proof (induction n i w rule: is_prime_loop.induct)
  case (1 n i w)
  have "i * i \<le> 46340 * 46340" using "1.prems"(3) by (rule mult_le_mono) (rule "1.prems"(3))
  then have small: "\<not> 2 ^ 31 \<le> i * i" by simp
  show ?case
  proof (cases "i * i \<le> n")
    case False
    then have "is_prime_loop n i w = Some True" using small by (subst is_prime_loop.simps) simp
    moreover have "prime_spec n" using prime_by_trial [OF "1.prems"(4,8)] False by simp
    ultimately show ?thesis by simp
  next
    case le: True
    have i: "i < 46336"
    proof (rule ccontr)
      assume "\<not> i < 46336"
      then have "46336 * 46336 \<le> i * i" by (intro mult_le_mono) simp_all
      then show False using le "1.prems"(5) by linarith
    qed
    show ?thesis
    proof (cases "n mod i = 0")
      case True
      then have "i dvd n" by (rule dvd_eq_mod_eq_0 [THEN iffD2])
      have "5 * i \<le> i * i" using "1.prems"(2) by simp
      then have "i < n" using le "1.prems"(2) by linarith
      then have "\<not> prime_spec n" using \<open>i dvd n\<close> "1.prems"(2) by (auto simp: prime_spec_def)
      moreover have "is_prime_loop n i w = Some False"
        using small le True by (subst is_prime_loop.simps) simp
      ultimately show ?thesis by simp
    next
      case False
      then have "\<not> i dvd n" by (simp add: dvd_eq_mod_eq_0)
      note nx = cand_next [OF "1.prems"(1,6,7,8) this]
      have "is_prime_loop n (i + w) (6 - w) = Some (prime_spec n)"
        using nx i "1.prems" by (intro "1.IH" [OF small le False]) auto
      then show ?thesis using small le False by (subst is_prime_loop.simps) simp
    qed
  qed
qed

lemma is_prime_correct:
  assumes "0 < n" "n < 46336 * 46336"
  shows "is_prime n = Some (n = 1 \<or> prime_spec n)"
proof (cases "n = 1 \<or> n = 2 \<or> n = 3")
  case True
  have "is_prime_loop 1 5 2 = Some True" by (subst is_prime_loop.simps) simp
  moreover have "prime_spec 2" "prime_spec 3" by code_simp+
  ultimately show ?thesis using True by (auto simp: is_prime_def)
next
  case False
  show ?thesis
  proof (cases "n mod 2 = 0 \<or> n mod 3 = 0")
    case True
    then have "2 dvd n \<or> 3 dvd n" by (simp add: dvd_eq_mod_eq_0)
    then have "\<not> prime_spec n" using False assms(1) by (auto simp: prime_spec_def)
    then show ?thesis using False True by (auto simp: is_prime_def)
  next
    case nd: False
    then have nd': "\<not> 2 dvd n" "\<not> 3 dvd n" by (simp_all add: dvd_eq_mod_eq_0)
    have "\<not> d dvd n" if "d \<in> {2..<5}" for d
    proof -
      have "d = 2 \<or> d = 3 \<or> d = 4" using that by auto
      then show ?thesis using nd' not_dvd_6 [OF nd', of 4] by auto
    qed
    then have "is_prime_loop n 5 2 = Some (prime_spec n)"
      using assms False nd' by (intro is_prime_loop_correct) (auto simp: cand_def)
    then show ?thesis using False nd by (auto simp: is_prime_def)
  qed
qed

lemma get_prime_finds:
  "0 < i \<Longrightarrow> i \<le> p \<Longrightarrow> p < 46336 * 46336 \<Longrightarrow> prime_spec p \<or> p = 1 \<Longrightarrow>
   \<forall>q. i \<le> q \<and> q < p \<longrightarrow> q \<noteq> 1 \<and> \<not> prime_spec q \<Longrightarrow> p - i < fuel \<Longrightarrow> get_prime fuel i = Some p"
proof (induction fuel arbitrary: i)
  case (Suc fuel)
  then have ip: "is_prime i = Some (i = 1 \<or> prime_spec i)" by (intro is_prime_correct) auto
  show ?case
  proof (cases "i = p")
    case True
    then show ?thesis using ip Suc.prems(4) by auto
  next
    case False
    then have "i < p" "is_prime i = Some False" using ip Suc.prems by auto
    then show ?thesis using Suc by simp
  qed
qed simp

section \<open>The string hash\<close>

lemma bkdr_loop_fold:
  "bkdr_loop s (pos + int (length s)) pos h =
     foldl (\<lambda>h c. h * 31 + of_nat (of_char c)) h (strip_slash s)"
proof (induction s arbitrary: pos h)
  case (Cons c s)
  have IH: "bkdr_loop s (pos + 1 + int (length s)) (pos + 1) h' =
     foldl (\<lambda>h c. h * 31 + of_nat (of_char c)) h' (strip_slash s)" for h' by (rule Cons)
  show ?case
  proof (cases "s = []")
    case True
    then show ?thesis by (simp add: strip_slash_def)
  next
    case False
    then have "\<not> pos = pos + int (length (c # s)) - 1" by simp
    moreover have "strip_slash (c # s) = c # strip_slash s" using False by (simp add: strip_slash_def)
    moreover have "pos + int (length (c # s)) = pos + 1 + int (length s)" by simp
    ultimately show ?thesis using IH by (simp only: bkdr_loop.simps if_False simp_thms foldl.simps)
  qed
qed (simp add: strip_slash_def)

lemma hash_bkdr_strip:
  "0 < n \<Longrightarrow> hash_bkdr (Some s) (int (length s)) n =
     foldl (\<lambda>h c. h * 31 + of_nat (of_char c)) 0 (strip_slash s) mod n"
  using bkdr_loop_fold [of s 0 0] by (auto simp: hash_bkdr_def strip_slash_def)

lemma hash_bkdr_bound: "0 < n \<Longrightarrow> hash_bkdr s len n < n"
  by (auto simp: hash_bkdr_def word_mod_less_divisor split: option.splits)

lemma device_compute_bound: "0 < n \<Longrightarrow> device_compute_hash s n < n"
  by (simp add: device_compute_hash_def Let_def hash_bkdr_bound)

lemma device_compute_strip:
  assumes "0 < n"
  shows "device_compute_hash s n =
    (let u = strip_slash s; r = obix_roots_root OBIX_DEVICE in
     foldl (\<lambda>h c. h * 31 + of_nat (of_char c)) 0
       (if take 17 s = r \<and> 17 < length s then drop 17 u else u) mod n)"
proof -
  have len: "length (obix_roots_root OBIX_DEVICE) = 17" by simp
  have "strip_slash (drop 17 s) = drop 17 (strip_slash s)" if "17 < length s"
    using that by (auto simp: strip_slash_def drop_butlast)
  moreover have "hash_bkdr (Some (drop 17 s)) (int (length s - 17)) n =
      foldl (\<lambda>h c. h * 31 + of_nat (of_char c)) 0 (strip_slash (drop 17 s)) mod n"
    using hash_bkdr_strip [OF assms, of "drop 17 s"] by (simp only: length_drop)
  moreover have "take 17 (obix_roots_root OBIX_DEVICE) = obix_roots_root OBIX_DEVICE" by simp
  ultimately show ?thesis using hash_bkdr_strip [OF assms, of s]
    by (simp only: device_compute_hash_def Let_def strncmp_eq_def obix_roots_len.simps split: if_split) auto
qed

lemma strip_slash_length: "length (strip_slash x) \<le> length x"
  by (simp add: strip_slash_def)

lemma device_compute_same:
  assumes n: "0 < n" and eq: "strip_slash s = strip_slash t"
  shows "device_compute_hash s n = device_compute_hash t n"
proof -
  let ?r = "obix_roots_root OBIX_DEVICE"
  have len: "length ?r = 17" "last ?r = slash" "?r \<noteq> []" by (simp_all add: slash_def)
  have pre: "take 17 x = ?r \<and> 17 < length x \<longleftrightarrow>
      (take 17 (strip_slash x) = ?r \<and> 17 \<le> length (strip_slash x) \<and> 17 < length x)" for x
  proof -
    have "take 17 (butlast x) = take 17 x" if "17 < length x"
      using that by (simp add: take_butlast)
    then show ?thesis by (auto simp: strip_slash_def)
  qed
  show ?thesis
  proof (cases "take 17 (strip_slash s) = ?r \<and> length (strip_slash s) = 17")
    case True
    then have u: "strip_slash s = ?r" by (metis order_refl take_all_iff)
    have "s = ?r @ [slash]" "t = ?r @ [slash]"
      using u eq len by (auto simp: strip_slash_def split: if_splits) (metis append_butlast_last_id)+
    then show ?thesis by simp
  next
    case False
    have "take 17 x = ?r \<and> 17 < length x \<longleftrightarrow> take 17 (strip_slash x) = ?r \<and> 17 < length (strip_slash x)"
      if "strip_slash x = strip_slash s" for x
      using pre [of x] False that strip_slash_length [of x] by auto
    then show ?thesis using eq by (simp add: device_compute_strip [OF n] Let_def)
  qed
qed

lemma del_first_set: "set (del_first P xs) \<subseteq> set xs"
  by (induction xs) auto

lemma del_first_sorted_wrt: "sorted_wrt R xs \<Longrightarrow> sorted_wrt R (del_first P xs)"
  using del_first_set by (induction xs) fastforce+

lemma del_first_length: "\<exists>x \<in> set xs. P x \<Longrightarrow> length (del_first P xs) = length xs - 1"
  by (induction xs) (auto, metis Suc_pred length_pos_if_in_set)

lemma find_del_first_other: "(\<And>x. P x \<Longrightarrow> \<not> Q x) \<Longrightarrow> find Q (del_first P xs) = find Q xs"
  by (induction xs) auto

lemma find_append: "find P (xs @ ys) = (case find P xs of None \<Rightarrow> find P ys | Some x \<Rightarrow> Some x)"
  by (induction xs) auto

locale keyed_ops =
  fixes ops :: "'a hash_table_ops"
    and key_of :: "'a \<Rightarrow> cstr"
    and same :: "cstr \<Rightarrow> cstr \<Rightarrow> bool"
  assumes compute_bound: "0 < n \<Longrightarrow> op_compute ops k n < n"
    and compute_same: "0 < n \<Longrightarrow> same k k' \<Longrightarrow> op_compute ops k n = op_compute ops k' n"
    and compare_iff: "op_compare ops k x = 1 \<longleftrightarrow> same k (key_of x)"
    and same_refl: "same k k"
    and same_sym: "same k k' \<Longrightarrow> same k' k"
    and same_trans: "same k k' \<Longrightarrow> same k' k'' \<Longrightarrow> same k k''"
begin

abbreviation wf where "wf \<equiv> table_wf ops key_of same"

lemma same_left: "same k k' \<Longrightarrow> same k x \<longleftrightarrow> same k' x"
  using same_sym same_trans by blast

lemma head_of_bound: "wf tab \<Longrightarrow> head_of ops tab k < length (ht_table tab)"
  using compute_bound [of "ht_size tab" k] by (simp add: table_wf_def head_of_def word_less_nat_alt)

lemma head_of_same: "wf tab \<Longrightarrow> same k k' \<Longrightarrow> head_of ops tab k = head_of ops tab k'"
  using compute_same by (simp add: table_wf_def head_of_def)

lemma search_eq:
  "wf tab \<Longrightarrow> hash_search ops tab (Some k) =
     find (\<lambda>x. same k (key_of x)) (hh_items (ht_table tab ! head_of ops tab k))"
  using head_of_bound [of tab k] by (simp add: hash_search_def table_wf_def Let_def compare_iff)

lemma search_same: "wf tab \<Longrightarrow> same k k' \<Longrightarrow> hash_search ops tab (Some k) = hash_search ops tab (Some k')"
  using search_eq [of tab k] search_eq [of tab k'] head_of_same [of tab k k'] same_left [of k k'] by simp

lemma del_first_unique:
  assumes "sorted_wrt (\<lambda>x y. \<not> same (key_of x) (key_of y)) xs" "x \<in> set (del_first (\<lambda>x. same k (key_of x)) xs)"
  shows "\<not> same k (key_of x)"
  using assms
proof (induction xs)
  case (Cons y ys)
  then show ?case using same_left [of k "key_of y" "key_of x"] by (auto split: if_splits)
qed simp

lemma update_wf:
  assumes w: "wf tab" and i: "i < length (ht_table tab)"
    and h: "\<not> hh_shutdown h" "hh_count h = of_nat (length (hh_items h))"
      "\<forall>x \<in> set (hh_items h). head_of ops tab (key_of x) = i"
      "sorted_wrt (\<lambda>x y. \<not> same (key_of x) (key_of y)) (hh_items h)"
  shows "wf (tab\<lparr>ht_table := (ht_table tab)[i := h]\<rparr>)"
  using assms by (auto simp: table_wf_def Let_def head_of_def nth_list_update)

lemma search_update:
  assumes w: "wf tab" and w': "wf (tab\<lparr>ht_table := (ht_table tab)[i := h]\<rparr>)" and i: "i < length (ht_table tab)"
  shows "hash_search ops (tab\<lparr>ht_table := (ht_table tab)[i := h]\<rparr>) (Some k) =
    (if head_of ops tab k = i then find (\<lambda>x. same k (key_of x)) (hh_items h) else hash_search ops tab (Some k))"
  using search_eq [OF w] search_eq [OF w'] i by (simp add: head_of_def nth_list_update)

lemma head_facts:
  assumes "wf tab" "i < length (ht_table tab)"
  shows "\<not> hh_shutdown (ht_table tab ! i)"
    "hh_count (ht_table tab ! i) = of_nat (length (hh_items (ht_table tab ! i)))"
    "\<forall>x \<in> set (hh_items (ht_table tab ! i)). head_of ops tab (key_of x) = i"
    "sorted_wrt (\<lambda>x y. \<not> same (key_of x) (key_of y)) (hh_items (ht_table tab ! i))"
  using assms by (auto simp: table_wf_def Let_def)

lemma add_spec:
  assumes w: "wf tab" and a: "hash_add ops True tab (Some (key_of x)) (Some x) = (r, tab')"
  shows "r = 0 \<and> wf tab' \<and> hash_search ops tab' (Some k) =
     (if same k (key_of x) \<and> hash_search ops tab (Some (key_of x)) = None then Some x
      else hash_search ops tab (Some k))"
proof -
  let ?i = "head_of ops tab (key_of x)"
  let ?h = "ht_table tab ! ?i"
  have i: "?i < length (ht_table tab)" using head_of_bound [OF w] .
  note hf = head_facts [OF w i]
  show ?thesis
  proof (cases "\<exists>y \<in> set (hh_items ?h). same (key_of x) (key_of y)")
    case True
    then have "hash_search ops tab (Some (key_of x)) \<noteq> None"
      by (auto simp: search_eq [OF w] find_None_iff)
    moreover have "(r, tab') = (0, tab)" using a hf True by (simp add: hash_add_def Let_def compare_iff)
    ultimately show ?thesis using w by auto
  next
    case False
    let ?h' = "?h\<lparr>hh_items := hh_items ?h @ [x], hh_count := hh_count ?h + 1\<rparr>"
    have none: "find (\<lambda>y. same (key_of x) (key_of y)) (hh_items ?h) = None"
      using False by (simp add: find_None_iff)
    have t: "r = 0" "tab' = tab\<lparr>ht_table := (ht_table tab)[?i := ?h']\<rparr>"
      using a hf False by (simp_all add: hash_add_def Let_def compare_iff)
    have w': "wf tab'" unfolding t
      using hf False same_sym by (intro update_wf [OF w i]) (auto simp: sorted_wrt_append)
    have "hash_search ops tab' (Some k) =
        (if head_of ops tab k = ?i then find (\<lambda>y. same k (key_of y)) (hh_items ?h @ [x])
         else hash_search ops tab (Some k))"
      using search_update [OF w w' [unfolded t] i, of k] t by simp
    moreover have "find (\<lambda>y. same k (key_of y)) (hh_items ?h) = None" if "same k (key_of x)"
      using none same_left [OF that] by simp
    ultimately show ?thesis
      using t w' none head_of_same [OF w, of k "key_of x"] search_eq [OF w, of k] search_eq [OF w, of "key_of x"]
      by (auto simp: find_append split: option.splits)
  qed
qed

lemma del_spec:
  assumes w: "wf tab"
  shows "wf (hash_del ops tab (Some k)) \<and> hash_search ops (hash_del ops tab (Some k)) (Some k') =
     (if same k k' then None else hash_search ops tab (Some k'))"
proof -
  let ?i = "head_of ops tab k"
  let ?h = "ht_table tab ! ?i"
  let ?P = "\<lambda>y. same k (key_of y)"
  have i: "?i < length (ht_table tab)" using head_of_bound [OF w] .
  note hf = head_facts [OF w i]
  show ?thesis
  proof (cases "\<exists>y \<in> set (hh_items ?h). ?P y")
    case False
    then have t: "hash_del ops tab (Some k) = tab" using hf by (simp add: hash_del_def Let_def compare_iff)
    have "hash_search ops tab (Some k') = None" if "same k k'"
      using False same_left [OF that] head_of_same [OF w that] by (simp add: search_eq [OF w] find_None_iff)
    then show ?thesis using t w by simp
  next
    case True
    let ?h' = "?h\<lparr>hh_items := del_first ?P (hh_items ?h), hh_count := hh_count ?h - 1\<rparr>"
    have t: "hash_del ops tab (Some k) = tab\<lparr>ht_table := (ht_table tab)[?i := ?h']\<rparr>"
      using hf True by (simp add: hash_del_def Let_def compare_iff)
    have "of_nat (length (hh_items ?h)) - 1 = (of_nat (length (hh_items ?h) - 1) :: 32 word)"
      using True by (cases "hh_items ?h") auto
    then have w': "wf (hash_del ops tab (Some k))" unfolding t
      using hf del_first_set [of ?P "hh_items ?h"] True
      by (intro update_wf [OF w i]) (auto simp: del_first_sorted_wrt del_first_length)
    note se = search_update [OF w w' [unfolded t] i, of k']
    show ?thesis
    proof (cases "same k k'")
      case True
      have "find (\<lambda>y. same k' (key_of y)) (del_first ?P (hh_items ?h)) = None"
        using del_first_unique [OF hf(4)] same_left [OF True] by (auto simp: find_None_iff)
      then show ?thesis using t w' se True head_of_same [OF w True] by simp
    next
      case False
      have "find (\<lambda>y. same k' (key_of y)) (del_first ?P (hh_items ?h)) =
          find (\<lambda>y. same k' (key_of y)) (hh_items ?h)"
      proof (rule find_del_first_other)
        fix x assume "same k (key_of x)"
        then show "\<not> same k' (key_of x)" using False same_trans [of k "key_of x" k'] same_sym by blast
      qed
      moreover have "hash_search ops (hash_del ops tab (Some k)) (Some k') =
          (if head_of ops tab k' = ?i then find (\<lambda>y. same k' (key_of y)) (del_first ?P (hh_items ?h))
           else hash_search ops tab (Some k'))"
        unfolding t se by simp
      moreover have "head_of ops tab k' = ?i \<Longrightarrow>
          hash_search ops tab (Some k') = find (\<lambda>y. same k' (key_of y)) (hh_items ?h)"
        using search_eq [OF w, of k'] by (simp only:)
      ultimately show ?thesis using w' False by metis
    qed
  qed
qed

end

interpretation dev: keyed_ops device_hash_ops dev_href "\<lambda>s t. strip_slash s = strip_slash t"
proof
  show "op_compute device_hash_ops k n < n" if "0 < n" for k and n :: "32 word"
    using device_compute_bound [OF that] by (simp add: device_hash_ops_def)
  show "op_compute device_hash_ops k n = op_compute device_hash_ops k' n"
    if "0 < n" "strip_slash k = strip_slash k'" for k k' and n :: "32 word"
    using device_compute_same [OF that] by (simp add: device_hash_ops_def)
  show "op_compare device_hash_ops k x = 1 \<longleftrightarrow> strip_slash k = strip_slash (dev_href x)" for k x
    by (simp add: device_hash_ops_def device_compare_str_def is_str_identical_lenient)
qed simp_all

text \<open>A table made by \<open>hash_init_table\<close> is well formed.\<close>

lemma replicate_wf:
  assumes "0 < p" "p < 2 ^ 32"
  shows "table_wf ops key_of same \<lparr>ht_size = of_nat p, ht_table = replicate p hash_init_head\<rparr>"
proof -
  have u: "unat (of_nat p :: 32 word) = p" using assms(2) by (simp add: unat_of_nat)
  then have "(0 :: 32 word) < of_nat p" using assms(1) by (simp add: word_less_nat_alt)
  then show ?thesis using u by (simp add: table_wf_def hash_init_head_def)
qed

lemma init_table_wf:
  assumes "hash_init_table fuel True True sz = Some tab" "get_prime fuel (unat sz) = Some p" "p < 2 ^ 32" "0 < p"
  shows "table_wf ops key_of same tab"
  using assms replicate_wf [OF assms(4,3)] by (auto simp: hash_init_table_def split: if_splits)

lemma small_table_wf:
  "table_wf device_hash_ops dev_href (\<lambda>s t. strip_slash s = strip_slash t)
     \<lparr>ht_size = 2, ht_table = [hash_init_head, hash_init_head]\<rparr>"
proof -
  have "replicate 2 h = [h, h]" for h :: "dev_ref hash_head" by (simp add: numeral_2_eq_2)
  moreover have "(of_nat 2 :: 32 word) = 2" by simp
  ultimately show ?thesis
    using replicate_wf [of 2 device_hash_ops dev_href "\<lambda>s t. strip_slash s = strip_slash t"] by simp
qed

section \<open>Properties\<close>

text \<open>
  C32: \<open>is_prime\<close> is correct on every value whose square root fits the loop's signed
  counter: it returns 1 exactly for the primes and for 1 itself.
\<close>

theorem is_prime_iff:
  assumes "0 < n" "n < 46336 * 46336"
  shows "is_prime n = Some True \<longleftrightarrow> prime_spec n \<or> n = 1"
  using is_prime_correct [OF assms] by auto

theorem is_prime_iff_witness: "is_prime 101 = Some True \<and> is_prime 1 = Some True \<and> is_prime 25 \<noteq> Some True"
proof -
  have "prime_spec 101" "\<not> prime_spec 25" by code_simp+
  then show ?thesis using is_prime_iff [of 101] is_prime_iff [of 1] is_prime_iff [of 25] by simp
qed



text \<open>
  The hash of a device href is below the table size and respects the comparison of the
  table: hrefs that \<open>is_str_identical\<close> accepts (up to a trailing slash) land in the same
  bucket, whether or not the device-root prefix is skipped.
\<close>

theorem device_hash_respects_identity:
  assumes "is_str_identical (Some s) (Some t) 1 = 1" "0 < n"
  shows "device_compute_hash s n = device_compute_hash t n \<and> device_compute_hash s n < n"
  using assms device_compute_same [OF assms(2), of s t] device_compute_bound [OF assms(2)]
  by (simp add: is_str_identical_lenient split: if_splits)

theorem device_hash_respects_identity_witness:
  "device_compute_hash ''/obix/deviceRoot/a/'' 13 = device_compute_hash ''/obix/deviceRoot/a'' 13 \<and>
   device_compute_hash ''/obix/deviceRoot/a/'' 13 < 13"
  by (rule device_hash_respects_identity) code_simp+

text \<open>
  C22: the device table behaves as a map on hrefs up to a trailing slash.  Adding a device
  keeps the table well formed and makes it found under its href; if a device was already
  registered there, the call still returns 0 and the old one stays.  No other href changes.
\<close>

theorem device_table_add:
  assumes "table_wf device_hash_ops dev_href (\<lambda>s t. strip_slash s = strip_slash t) tab"
    and "hash_add device_hash_ops True tab (Some (dev_href d)) (Some d) = (r, tab')"
  shows "r = 0 \<and> table_wf device_hash_ops dev_href (\<lambda>s t. strip_slash s = strip_slash t) tab' \<and>
     hash_search device_hash_ops tab' (Some k) =
       (if strip_slash k = strip_slash (dev_href d) \<and>
           hash_search device_hash_ops tab (Some (dev_href d)) = None then Some d
        else hash_search device_hash_ops tab (Some k))"
  by (rule dev.add_spec [OF assms])

text \<open>
  C23: deleting an href from the device table removes the device registered under it (up to
  a trailing slash) and nothing else, and keeps the table well formed.
\<close>

theorem device_table_del:
  assumes "table_wf device_hash_ops dev_href (\<lambda>s t. strip_slash s = strip_slash t) tab"
  shows "table_wf device_hash_ops dev_href (\<lambda>s t. strip_slash s = strip_slash t)
       (hash_del device_hash_ops tab (Some k)) \<and>
     hash_search device_hash_ops (hash_del device_hash_ops tab (Some k)) (Some k') =
       (if strip_slash k = strip_slash k' then None else hash_search device_hash_ops tab (Some k'))"
  by (rule dev.del_spec [OF assms])

theorem device_table_add_witness:
  "hash_search device_hash_ops
     (snd (hash_add device_hash_ops True \<lparr>ht_size = 2, ht_table = [hash_init_head, hash_init_head]\<rparr>
        (Some ''/obix/a'') (Some \<lparr>dev_href = ''/obix/a'', dev_ptr = 7\<rparr>))) (Some ''/obix/a/'')
   = Some \<lparr>dev_href = ''/obix/a'', dev_ptr = 7\<rparr>"
proof -
  let ?d = "\<lparr>dev_href = ''/obix/a'', dev_ptr = 7\<rparr>"
  let ?t = "\<lparr>ht_size = 2, ht_table = [hash_init_head, hash_init_head]\<rparr> :: dev_ref hash_table"
  obtain r tab' where a: "hash_add device_hash_ops True ?t (Some (dev_href ?d)) (Some ?d) = (r, tab')"
    by fastforce
  have "hash_search device_hash_ops ?t (Some ''/obix/a'') = None" by code_simp
  moreover have "strip_slash ''/obix/a/'' = strip_slash ''/obix/a''" by code_simp
  moreover have "hash_search device_hash_ops tab' (Some ''/obix/a/'') =
      (if strip_slash ''/obix/a/'' = strip_slash (dev_href ?d) \<and>
          hash_search device_hash_ops ?t (Some (dev_href ?d)) = None then Some ?d
       else hash_search device_hash_ops ?t (Some ''/obix/a/''))"
    using device_table_add [OF small_table_wf a, of "''/obix/a/''"] by blast
  ultimately have "hash_search device_hash_ops tab' (Some ''/obix/a/'') = Some ?d"
    by (simp only: dev_ref.simps if_True simp_thms)
  moreover have "snd (hash_add device_hash_ops True ?t (Some ''/obix/a'') (Some ?d)) = tab'"
    using a by (simp only: dev_ref.simps snd_conv)
  ultimately show ?thesis by (simp only:)
qed

theorem device_table_del_witness:
  "hash_search device_hash_ops (hash_del device_hash_ops
     \<lparr>ht_size = 2, ht_table = [hash_init_head, hash_init_head]\<rparr> (Some ''/obix/a'')) (Some ''/obix/a/'') = None"
proof -
  have "strip_slash ''/obix/a'' = strip_slash ''/obix/a/''" by code_simp
  with device_table_del [OF small_table_wf, of "''/obix/a''" "''/obix/a/''"] show ?thesis
    by (simp only: if_True simp_thms)
qed

end
