(* ===== verification/Obix_Errmsg.thy ===== *)
theory Obix_Errmsg
  imports Obix_Strings
begin

text \<open>
  The error codes and messages of \<open>src/src/server/errmsg.c\<close> and the access check of
  \<open>src/src/server/security.c\<close>.

  The codes are a datatype in the order of the C enumeration; functions that return 0 or an
  error code return \<open>ERR_SUCCESS\<close> or the error.  An entry of the message table that the
  designated initialisers leave out (both pointers NULL) is \<open>None\<close>.
\<close>

datatype errcode =
  ERR_SUCCESS
| ERR_NO_INPUT
| ERR_NO_HREF
| ERR_NO_NAME
| ERR_NO_REQUESTER_ID
| ERR_NO_SUCH_URI
| ERR_NO_MEM
| ERR_NO_OP_NODE
| ERR_NO_META_NODE
| ERR_INVALID_INPUT
| ERR_INVALID_HREF
| ERR_INVALID_META
| ERR_INVALID_ARGUMENT
| ERR_INVALID_STATE
| ERR_INVALID_OBJ
| ERR_TS_COMPARE
| ERR_TS_OBSOLETE
| ERR_READONLY_HREF
| ERR_PERM_DENIED
| ERR_DISK_IO
| ERR_DEVICE_CONFLICT_OWNER
| ERR_DEVICE_EXISTS
| ERR_DEVICE_ORPHAN
| ERR_DEVICE_NO_SUCH_URI
| ERR_DEVICE_CHILDREN
| ERR_WATCH_NO_SUCH_URI
| ERR_WATCH_NO_MONITORED_URI
| ERR_HISTORY_DEVID
| ERR_HISTORY_IO
| ERR_HISTORY_DATA
| ERR_HISTORY_EMPTY
| ERR_BATCH_RECURSIVE
| ERR_BATCH_HISTORY
| ERR_BATCH_POLLCHANGES

record err_msg =
  err_type :: cstr
  err_msgs :: cstr

definition OBIX_CONTRACT_ERR_BAD_URI :: cstr where "OBIX_CONTRACT_ERR_BAD_URI = ''obix:BadUriErr''"
definition OBIX_CONTRACT_ERR_UNSUPPORTED :: cstr where "OBIX_CONTRACT_ERR_UNSUPPORTED = ''obix:UnsupportedErr''"
definition OBIX_CONTRACT_ERR_PERMISSION :: cstr where "OBIX_CONTRACT_ERR_PERMISSION = ''obix:PermissionErr''"
definition OBIX_CONTRACT_ERR_SERVER :: cstr where "OBIX_CONTRACT_ERR_SERVER = ''obix:ServerErr''"

fun server_err_msg :: "errcode \<Rightarrow> err_msg option" where
  "server_err_msg ERR_SUCCESS = None"
| "server_err_msg ERR_NO_INPUT = Some \<lparr>err_type = OBIX_CONTRACT_ERR_UNSUPPORTED, err_msgs = ''Missing input contract''\<rparr>"
| "server_err_msg ERR_NO_HREF = Some \<lparr>err_type = OBIX_CONTRACT_ERR_UNSUPPORTED, err_msgs = ''Provided input has no href attribute''\<rparr>"
| "server_err_msg ERR_NO_NAME = Some \<lparr>err_type = OBIX_CONTRACT_ERR_UNSUPPORTED, err_msgs = ''Provided input has no name attribute''\<rparr>"
| "server_err_msg ERR_NO_REQUESTER_ID = Some \<lparr>err_type = OBIX_CONTRACT_ERR_UNSUPPORTED, err_msgs = ''Relevant request has no REQUESTER_ID environment''\<rparr>"
| "server_err_msg ERR_NO_SUCH_URI = Some \<lparr>err_type = OBIX_CONTRACT_ERR_BAD_URI, err_msgs = ''Requested URI could not be found on the server''\<rparr>"
| "server_err_msg ERR_NO_MEM = Some \<lparr>err_type = OBIX_CONTRACT_ERR_SERVER, err_msgs = ''Insufficient memory on the server''\<rparr>"
| "server_err_msg ERR_NO_OP_NODE = Some \<lparr>err_type = OBIX_CONTRACT_ERR_UNSUPPORTED, err_msgs = ''Requested URI is not an operation node''\<rparr>"
| "server_err_msg ERR_NO_META_NODE = Some \<lparr>err_type = OBIX_CONTRACT_ERR_SERVER, err_msgs = ''Failed to retrieve meta node from relevant node''\<rparr>"
| "server_err_msg ERR_INVALID_INPUT = Some \<lparr>err_type = OBIX_CONTRACT_ERR_UNSUPPORTED, err_msgs = ''Provided input contract is malformed''\<rparr>"
| "server_err_msg ERR_INVALID_HREF = Some \<lparr>err_type = OBIX_CONTRACT_ERR_BAD_URI, err_msgs = ''Provided href is invalid''\<rparr>"
| "server_err_msg ERR_INVALID_META = Some \<lparr>err_type = OBIX_CONTRACT_ERR_SERVER, err_msgs = ''Failed to retrieve required attribute from the meta node''\<rparr>"
| "server_err_msg ERR_INVALID_ARGUMENT = Some \<lparr>err_type = OBIX_CONTRACT_ERR_SERVER, err_msgs = ''Unknown server error: invalid argument''\<rparr>"
| "server_err_msg ERR_INVALID_STATE = Some \<lparr>err_type = OBIX_CONTRACT_ERR_SERVER, err_msgs = ''The requested device/facility is being shutting down, abort access''\<rparr>"
| "server_err_msg ERR_INVALID_OBJ = Some \<lparr>err_type = OBIX_CONTRACT_ERR_UNSUPPORTED, err_msgs = ''Provided input contains invalid object model''\<rparr>"
| "server_err_msg ERR_TS_COMPARE = Some \<lparr>err_type = OBIX_CONTRACT_ERR_SERVER, err_msgs = ''Failed to compare timestamps. Malformed? use ts2utc testcase to check timestamp sanity''\<rparr>"
| "server_err_msg ERR_TS_OBSOLETE = Some \<lparr>err_type = OBIX_CONTRACT_ERR_UNSUPPORTED, err_msgs = ''Data list contains records with timestamp older than or equal to that of the last record''\<rparr>"
| "server_err_msg ERR_READONLY_HREF = Some \<lparr>err_type = OBIX_CONTRACT_ERR_BAD_URI, err_msgs = ''Provided href is read-only''\<rparr>"
| "server_err_msg ERR_PERM_DENIED = Some \<lparr>err_type = OBIX_CONTRACT_ERR_UNSUPPORTED, err_msgs = ''The requested operation is not permitted''\<rparr>"
| "server_err_msg ERR_DISK_IO = Some \<lparr>err_type = OBIX_CONTRACT_ERR_SERVER, err_msgs = ''Disk I/O failed''\<rparr>"
| "server_err_msg ERR_DEVICE_CONFLICT_OWNER = Some \<lparr>err_type = OBIX_CONTRACT_ERR_PERMISSION, err_msgs = ''Another client already registered a device at the same href''\<rparr>"
| "server_err_msg ERR_DEVICE_EXISTS = None"
| "server_err_msg ERR_DEVICE_ORPHAN = Some \<lparr>err_type = OBIX_CONTRACT_ERR_SERVER, err_msgs = ''Unknown server error: orphan device''\<rparr>"
| "server_err_msg ERR_DEVICE_NO_SUCH_URI = Some \<lparr>err_type = OBIX_CONTRACT_ERR_BAD_URI, err_msgs = (''Provided href doesn'' @ [CHR 0x27] @ ''t point to a valid device'')\<rparr>"
| "server_err_msg ERR_DEVICE_CHILDREN = Some \<lparr>err_type = OBIX_CONTRACT_ERR_UNSUPPORTED, err_msgs = ''Device contains children''\<rparr>"
| "server_err_msg ERR_WATCH_NO_SUCH_URI = Some \<lparr>err_type = OBIX_CONTRACT_ERR_BAD_URI, err_msgs = ''Provided href does not point to a valid watch object''\<rparr>"
| "server_err_msg ERR_WATCH_NO_MONITORED_URI = Some \<lparr>err_type = OBIX_CONTRACT_ERR_BAD_URI, err_msgs = ''Provided href is not monitored by relevant watch object''\<rparr>"
| "server_err_msg ERR_HISTORY_DEVID = Some \<lparr>err_type = OBIX_CONTRACT_ERR_UNSUPPORTED, err_msgs = ''Failed to get history device ID from request''\<rparr>"
| "server_err_msg ERR_HISTORY_IO = Some \<lparr>err_type = OBIX_CONTRACT_ERR_SERVER, err_msgs = ''I/O error while performing history request''\<rparr>"
| "server_err_msg ERR_HISTORY_DATA = Some \<lparr>err_type = OBIX_CONTRACT_ERR_SERVER, err_msgs = ''Data in relevant history facility is corrupted''\<rparr>"
| "server_err_msg ERR_HISTORY_EMPTY = Some \<lparr>err_type = OBIX_CONTRACT_ERR_UNSUPPORTED, err_msgs = ''No data in relevant history facility at all''\<rparr>"
| "server_err_msg ERR_BATCH_RECURSIVE = Some \<lparr>err_type = OBIX_CONTRACT_ERR_UNSUPPORTED, err_msgs = ''Recursive batch commands not supported''\<rparr>"
| "server_err_msg ERR_BATCH_HISTORY = Some \<lparr>err_type = OBIX_CONTRACT_ERR_UNSUPPORTED, err_msgs = ''No history related requests via batch supported, please request them through normal POST method directly''\<rparr>"
| "server_err_msg ERR_BATCH_POLLCHANGES = Some \<lparr>err_type = OBIX_CONTRACT_ERR_UNSUPPORTED, err_msgs = ''No watch.pollChanges requests via batch supported, please request them through normal POST method directly''\<rparr>"

section \<open>security.c\<close>

definition OP_DEVICE_ADD :: "32 word" where "OP_DEVICE_ADD = 0x00000001"
definition OP_DEVICE_REMOVE :: "32 word" where "OP_DEVICE_REMOVE = 0x00000002"
definition OP_DEVICE_DELETE :: "32 word" where "OP_DEVICE_DELETE = 0x00000004"
definition OP_WATCH_DELETE :: "32 word" where "OP_WATCH_DELETE = 0x00000200"

definition OBIX_ID_DEVICE :: cstr where "OBIX_ID_DEVICE = ''SERVER:DEVICE''"
definition OBIX_ID_WATCH :: cstr where "OBIX_ID_WATCH = ''SERVER:WATCH''"
definition OBIX_ID_HISTORY :: cstr where "OBIX_ID_HISTORY = ''SERVER:HISTORY''"

text \<open>The flags are C ints, so \<open>(ops & flag) > 0\<close> is a signed comparison.\<close>

definition se_lookup :: "cstr option \<Rightarrow> cstr option \<Rightarrow> 32 word \<Rightarrow> int" where
  "se_lookup subject object ops =
     (case (subject, object) of
        (Some s, Some obj) \<Rightarrow>
          if s = OBIX_ID_DEVICE \<or> s = OBIX_ID_WATCH \<or> s = OBIX_ID_HISTORY then 1
          else if 0 < sint (ops AND OP_DEVICE_REMOVE) then
            (if obj = OBIX_ID_DEVICE then 1 else if s = obj then 1 else 0)
          else if 0 < sint (ops AND OP_DEVICE_DELETE) \<or> 0 < sint (ops AND OP_WATCH_DELETE) then
            (if s = obj then 1 else 0)
          else 1
      | _ \<Rightarrow> 0)"

definition server_id :: "cstr \<Rightarrow> bool" where
  "server_id s \<longleftrightarrow> s \<in> {OBIX_ID_DEVICE, OBIX_ID_WATCH, OBIX_ID_HISTORY}"

section \<open>Properties\<close>

text \<open>
  The message table has an entry for every error code but \<open>ERR_DEVICE_EXISTS\<close>, which
  \<open>device_add\<close> turns into success before it reaches a reply.
\<close>

theorem server_err_msg_total:
  "server_err_msg e = None \<longleftrightarrow> e = ERR_SUCCESS \<or> e = ERR_DEVICE_EXISTS"
  by (cases e) simp_all

text \<open>
  C27: who may delete and remove.  A subject that is not one of the server's own IDs may
  delete exactly the devices and watches it owns; it may remove a device from the device
  root or from a parent it owns, and from no other; a request without an ID is denied.
\<close>

theorem se_lookup_policy:
  assumes "\<not> server_id s"
  shows "(se_lookup (Some s) (Some obj) OP_DEVICE_DELETE = 1 \<longleftrightarrow> s = obj) \<and>
    (se_lookup (Some s) (Some obj) OP_WATCH_DELETE = 1 \<longleftrightarrow> s = obj) \<and>
    (se_lookup (Some s) (Some obj) OP_DEVICE_REMOVE = 1 \<longleftrightarrow> obj = OBIX_ID_DEVICE \<or> s = obj) \<and>
    se_lookup (Some s) (Some obj) OP_DEVICE_ADD = 1 \<and> se_lookup None (Some obj) ops = 0"
  using assms
  by (auto simp: se_lookup_def server_id_def OP_DEVICE_DELETE_def OP_WATCH_DELETE_def
      OP_DEVICE_REMOVE_def OP_DEVICE_ADD_def)

theorem se_lookup_policy_witness:
  "\<not> server_id ''bob'' \<and> se_lookup (Some ''bob'') (Some ''alice'') OP_DEVICE_DELETE \<noteq> 1"
proof -
  have "\<not> server_id ''bob''" "''bob'' \<noteq> ''alice''"
    by (simp_all add: server_id_def OBIX_ID_DEVICE_def OBIX_ID_WATCH_def OBIX_ID_HISTORY_def)
  then show ?thesis using se_lookup_policy [of "''bob''" "''alice''" 0] by blast
qed

end
