(* ===== verification/Obix_Cache.thy ===== *)
theory Obix_Cache
  imports Obix_Hash Obix_Errmsg
begin

text \<open>
  The lookup cache of \<open>src/src/libs/cache.c\<close> and the device lookup of
  \<open>src/src/server/device.c\<close> that puts it in front of the hash table.

  A cache is its array of slots; an empty slot has both pointers NULL.  The length of the
  array is fixed by \<open>cache_init\<close> and positive.  Every public operation takes the mutex once;
  since \<open>__cache_update\<close> unlocks it on one of its paths, each operation also returns how
  many times it has unlocked the mutex.  The DEBUG statistics are left out.
\<close>

section \<open>cache.c\<close>

record 'a cache_item =
  ci_item :: "'a option"
  ci_href :: "cstr option"

record 'a cache =
  items :: "'a cache_item list"

definition empty_slot :: "'a cache_item" where
  "empty_slot = \<lparr>ci_item = None, ci_href = None\<rparr>"

definition cache_init :: "bool \<Rightarrow> int \<Rightarrow> 'a cache option" where
  "cache_init ok len =
     (if len \<le> 0 then None else if \<not> ok then None
      else Some \<lparr>items = replicate (nat len) empty_slot\<rparr>)"

definition cache_dispose_slot :: "'a cache \<Rightarrow> nat \<Rightarrow> 'a cache" where
  "cache_dispose_slot c i = c\<lparr>items := (items c)[i := empty_slot]\<rparr>"

text \<open>The shuffling loop of \<open>__cache_update\<close>: slot \<open>loc\<close> gets what slot \<open>loc - 1\<close> had.\<close>

fun shuffle_down :: "'a cache_item list \<Rightarrow> nat \<Rightarrow> 'a cache_item list" where
  "shuffle_down its 0 = its"
| "shuffle_down its (Suc loc) = shuffle_down (its[Suc loc := its ! loc]) loc"

text \<open>\<open>__cache_update\<close>, with the number of unlocks it does itself.\<close>

definition cache_update_core :: "'a cache \<Rightarrow> cstr option \<Rightarrow> 'a option \<Rightarrow> 'a cache \<times> nat" where
  "cache_update_core c href item =
     (if is_str_identical (ci_href (items c ! 0)) href 1 = 1 then (c, 1)
      else (c\<lparr>items := (shuffle_down (items c) (length (items c) - 1))
                [0 := \<lparr>ci_item = item, ci_href = href\<rparr>]\<rparr>, 0))"

definition cache_update :: "'a cache \<Rightarrow> cstr option \<Rightarrow> 'a option \<Rightarrow> 'a cache \<times> nat" where
  "cache_update c href item =
     (if href = None \<or> item = None then (c, 0)
      else let (c', u) = cache_update_core c href item in (c', u + 1))"

fun cache_search_loop :: "'a cache \<Rightarrow> cstr \<Rightarrow> nat list \<Rightarrow> 'a option \<times> 'a cache \<times> nat" where
  "cache_search_loop c href [] = (None, c, 1)"
| "cache_search_loop c href (i # is) =
     (let slot = items c ! i in
      if ci_item slot = None \<or> ci_href slot = None then cache_search_loop c href is
      else if is_str_identical (ci_href slot) (Some href) 1 = 1 then
        let (c', u) = (if 0 < i then cache_update_core c (ci_href slot) (ci_item slot) else (c, 0))
        in (ci_item slot, c', u + 1)
      else cache_search_loop c href is)"

definition cache_search :: "'a cache \<Rightarrow> cstr option \<Rightarrow> 'a option \<times> 'a cache \<times> nat" where
  "cache_search c href =
     (case href of None \<Rightarrow> (None, c, 0)
      | Some h \<Rightarrow> cache_search_loop c h [0..<length (items c)])"

fun cache_invalidate_loop :: "'a cache \<Rightarrow> cstr \<Rightarrow> nat \<Rightarrow> nat list \<Rightarrow> 'a cache" where
  "cache_invalidate_loop c href len [] = c"
| "cache_invalidate_loop c href len (i # is) =
     (let slot = items c ! i in
      case (ci_item slot, ci_href slot) of
        (Some _, Some h) \<Rightarrow>
          cache_invalidate_loop (if strncmp_eq h href len then cache_dispose_slot c i else c) href len is
      | _ \<Rightarrow> cache_invalidate_loop c href len is)"

definition cache_invalidate :: "'a cache \<Rightarrow> cstr option \<Rightarrow> 'a cache" where
  "cache_invalidate c href =
     (case href of None \<Rightarrow> c
      | Some h \<Rightarrow>
          let len = (if last_byte h = slash then length h - 1 else length h)
          in cache_invalidate_loop c h len [0..<length (items c)])"

definition cache_dispose :: "'a cache \<Rightarrow> 'a cache" where
  "cache_dispose c = foldl cache_dispose_slot c [0..<length (items c)]"

section \<open>device.c: looking devices up\<close>

record devices =
  dv_tab :: "dev_ref hash_table"
  dv_cache :: "dev_ref cache"
  dv_root :: dev_ref

definition is_device_root_href :: "cstr \<Rightarrow> int" where
  "is_device_root_href href = is_str_identical (Some href) (Some (obix_roots_root OBIX_DEVICE)) 1"

definition device_search :: "devices \<Rightarrow> cstr \<Rightarrow> dev_ref option \<times> devices" where
  "device_search s href =
     (if is_given_type href OBIX_DEVICE = 0 then (None, s)
      else if is_device_root_href href = 1 then (Some (dv_root s), s)
      else case cache_search (dv_cache s) (Some href) of
          (Some d, c, _) \<Rightarrow> (Some d, s\<lparr>dv_cache := c\<rparr>)
        | (None, c, _) \<Rightarrow>
            (case hash_search device_hash_ops (dv_tab s) (Some href) of
               None \<Rightarrow> (None, s\<lparr>dv_cache := c\<rparr>)
             | Some d \<Rightarrow> (Some d, s\<lparr>dv_cache := fst (cache_update c (Some (dev_href d)) (Some d))\<rparr>)))"

text \<open>
  The table and cache part of \<open>__device_link\<close> and \<open>__device_unlink\<close> (the sibling lists are
  kept elsewhere).  \<open>ok\<close> is the allocation inside \<open>hash_add\<close>.
\<close>

definition device_link :: "bool \<Rightarrow> devices \<Rightarrow> dev_ref \<Rightarrow> errcode \<times> devices" where
  "device_link ok s child =
     (case hash_add device_hash_ops ok (dv_tab s) (Some (dev_href child)) (Some child) of
        (r, tab) \<Rightarrow>
          if r \<noteq> 0 then (ERR_NO_MEM, s\<lparr>dv_tab := tab\<rparr>)
          else (ERR_SUCCESS, s\<lparr>dv_tab := tab,
                     dv_cache := fst (cache_update (dv_cache s) (Some (dev_href child)) (Some child))\<rparr>))"

definition device_unlink :: "devices \<Rightarrow> dev_ref \<Rightarrow> devices" where
  "device_unlink s d =
     s\<lparr>dv_tab := hash_del device_hash_ops (dv_tab s) (Some (dev_href d)),
       dv_cache := cache_invalidate (dv_cache s) (Some (dev_href d))\<rparr>"

section \<open>Coherence\<close>

definition cache_wf :: "'a cache \<Rightarrow> bool" where
  "cache_wf c \<longleftrightarrow> items c \<noteq> [] \<and> (\<forall>x \<in> set (items c). ci_item x = None \<longleftrightarrow> ci_href x = None)"

abbreviation dev_same :: "cstr \<Rightarrow> cstr \<Rightarrow> bool" where
  "dev_same s t \<equiv> strip_slash s = strip_slash t"

abbreviation dev_table_wf :: "dev_ref hash_table \<Rightarrow> bool" where
  "dev_table_wf \<equiv> table_wf device_hash_ops dev_href dev_same"

text \<open>Every cached device is the one the hash table has under that href.\<close>

definition coherent :: "devices \<Rightarrow> bool" where
  "coherent s \<longleftrightarrow> dev_table_wf (dv_tab s) \<and> cache_wf (dv_cache s) \<and>
     (\<forall>x \<in> set (items (dv_cache s)). \<forall>d h. ci_item x = Some d \<longrightarrow> ci_href x = Some h \<longrightarrow>
        h = dev_href d \<and> hash_search device_hash_ops (dv_tab s) (Some h) = Some d)"

definition matches :: "'a cache \<Rightarrow> cstr \<Rightarrow> nat \<Rightarrow> bool" where
  "matches c href i \<longleftrightarrow>
     (case (ci_item (items c ! i), ci_href (items c ! i)) of
        (Some _, Some h) \<Rightarrow> strip_slash h = strip_slash href | _ \<Rightarrow> False)"

text \<open>Invalidation empties exactly the slots whose href has the given one as a prefix.\<close>

definition prefixed :: "nat \<Rightarrow> cstr \<Rightarrow> 'a cache_item \<Rightarrow> bool" where
  "prefixed len href x \<longleftrightarrow>
     (case (ci_item x, ci_href x) of (Some _, Some h) \<Rightarrow> strncmp_eq h href len | _ \<Rightarrow> False)"

section \<open>Runs of the device registry\<close>

text \<open>
  What a client of the registry sees: a map from hrefs, up to a trailing slash, to devices.
  \<open>dev_op\<close> are the calls, \<open>dev_run\<close> runs them on the real state, \<open>dev_spec_run\<close> on the map.
  A registration is only tried for an href that is free, as \<open>device_add\<close> ensures inside
  the write region of the parent.
\<close>

datatype dev_op = Find_Dev cstr | Link_Dev dev_ref | Unlink_Dev dev_ref

fun dev_run :: "devices \<Rightarrow> dev_op list \<Rightarrow> dev_ref option list \<times> devices" where
  "dev_run s [] = ([], s)"
| "dev_run s (Find_Dev h # ops) =
     (let (r, s') = device_search s h; (rs, s'') = dev_run s' ops in (r # rs, s''))"
| "dev_run s (Link_Dev d # ops) =
     (if hash_search device_hash_ops (dv_tab s) (Some (dev_href d)) = None
      then dev_run (snd (device_link True s d)) ops else dev_run s ops)"
| "dev_run s (Unlink_Dev d # ops) = dev_run (device_unlink s d) ops"

fun dev_spec_run :: "dev_ref \<Rightarrow> (cstr \<Rightarrow> dev_ref option) \<Rightarrow> dev_op list \<Rightarrow> dev_ref option list" where
  "dev_spec_run root m [] = []"
| "dev_spec_run root m (Find_Dev h # ops) =
     (if is_given_type h OBIX_DEVICE = 0 then None
      else if is_device_root_href h = 1 then Some root else m (strip_slash h)) # dev_spec_run root m ops"
| "dev_spec_run root m (Link_Dev d # ops) =
     dev_spec_run root (if m (strip_slash (dev_href d)) = None
       then m(strip_slash (dev_href d) \<mapsto> d) else m) ops"
| "dev_spec_run root m (Unlink_Dev d # ops) = dev_spec_run root (m(strip_slash (dev_href d) := None)) ops"

definition reg_abs :: "devices \<Rightarrow> (cstr \<Rightarrow> dev_ref option) \<Rightarrow> bool" where
  "reg_abs s m \<longleftrightarrow> (\<forall>k. hash_search device_hash_ops (dv_tab s) (Some k) = m (strip_slash k))"

text \<open>A registry just set up.\<close>

definition small_devices :: devices where
  "small_devices = \<lparr>dv_tab = \<lparr>ht_size = 2, ht_table = [hash_init_head, hash_init_head]\<rparr>,
     dv_cache = \<lparr>items = [empty_slot, empty_slot]\<rparr>,
     dv_root = \<lparr>dev_href = ''/obix/deviceRoot/'', dev_ptr = 0\<rparr>\<rparr>"

section \<open>The cache operations\<close>

lemma shuffle_down_eq:
  "loc < length its \<Longrightarrow> shuffle_down its loc = take 1 its @ take loc its @ drop (Suc loc) its"
proof (induction loc arbitrary: its)
  case 0
  then show ?case by (cases its) auto
next
  case (Suc loc)
  let ?j = "its[Suc loc := its ! loc]"
  have "shuffle_down its (Suc loc) = take 1 ?j @ take loc ?j @ drop (Suc loc) ?j"
    using Suc by simp
  moreover have "take 1 ?j = take 1 its" "take loc ?j = take loc its" by (simp_all add: take_update_swap list_update_beyond)
  moreover have "drop (Suc loc) ?j = (its ! loc) # drop (Suc (Suc loc)) its"
    using Suc.prems by (simp add: Cons_nth_drop_Suc [symmetric] drop_update_cancel)
  moreover have "take loc its @ [its ! loc] = take (Suc loc) its"
    using Suc.prems by (simp add: take_Suc_conv_app_nth)
  ultimately show ?case by (metis append.assoc append_Cons append_Nil)
qed

lemma shuffle_all: "its \<noteq> [] \<Longrightarrow> (shuffle_down its (length its - 1))[0 := x] = x # butlast its"
proof -
  assume ne: "its \<noteq> []"
  then have "shuffle_down its (length its - 1) = take 1 its @ take (length its - 1) its"
    by (subst shuffle_down_eq) auto
  also have "\<dots> = hd its # butlast its" using ne by (cases its) (auto simp: butlast_conv_take)
  finally show ?thesis by simp
qed

lemma update_core_cases:
  assumes "items c \<noteq> []"
  shows "cache_update_core c href item =
     (if is_str_identical (ci_href (items c ! 0)) href 1 = 1 then (c, 1)
      else (c\<lparr>items := \<lparr>ci_item = item, ci_href = href\<rparr> # butlast (items c)\<rparr>, 0))"
  using shuffle_all [OF assms] by (simp add: cache_update_core_def)

lemma update_core_subset:
  assumes "items c \<noteq> []" "cache_update_core c href item = (c', u)"
  shows "set (items c') \<subseteq> insert \<lparr>ci_item = item, ci_href = href\<rparr> (set (items c))"
    "length (items c') = length (items c)"
  using assms by (auto simp: update_core_cases split: if_splits dest: in_set_butlastD)

lemma search_loop_spec:
  assumes wf: "cache_wf c" and len: "length (items c) = k + n"
    and before: "\<forall>j < k. \<not> matches c href j"
    and r: "cache_search_loop c href [k..<k + n] = (res, c', u)"
  shows "u = 1 \<and> cache_wf c' \<and> set (items c') \<subseteq> set (items c) \<and>
     (res = None \<longrightarrow> c' = c \<and> (\<forall>j < k + n. \<not> matches c href j)) \<and>
     (\<forall>d. res = Some d \<longrightarrow> (\<exists>x \<in> set (items c). \<exists>h. ci_item x = Some d \<and> ci_href x = Some h \<and>
        strip_slash h = strip_slash href))"
  using len before r
proof (induction n arbitrary: k)
  case 0
  then show ?case using wf by simp
next
  case (Suc n)
  have k: "k < length (items c)" using Suc.prems by simp
  have up: "[k..<k + Suc n] = k # [Suc k..<Suc k + n]" by (simp add: upt_conv_Cons)
  define slot where "slot = items c ! k"
  have mem: "slot \<in> set (items c)" using k by (simp add: slot_def)
  show ?case
  proof (cases "matches c href k")
    case False
    have "cache_search_loop c href [Suc k..<Suc k + n] = (res, c', u)"
      using Suc.prems(3) [unfolded up] False
      by (auto simp: matches_def slot_def is_str_identical_lenient split: option.splits if_splits simp del: upt.simps)
    moreover have "\<forall>j < Suc k. \<not> matches c href j" using Suc.prems(2) False less_Suc_eq by auto
    ultimately show ?thesis using Suc.IH [of "Suc k"] Suc.prems(1) by simp
  next
    case True
    then obtain d h where dh: "ci_item slot = Some d" "ci_href slot = Some h" "strip_slash h = strip_slash href"
      by (auto simp: matches_def slot_def split: option.splits)
    obtain c1 u1 where c1: "(if 0 < k then cache_update_core c (ci_href slot) (ci_item slot) else (c, 0)) = (c1, u1)"
      by fastforce
    have res: "res = Some d" "c' = c1" "u = u1 + 1"
      using Suc.prems(3) [unfolded up] dh [unfolded slot_def] c1 [unfolded slot_def]
      by (auto simp: is_str_identical_lenient Let_def split: prod.splits simp del: upt.simps)
    have ne: "items c \<noteq> []" using wf by (simp add: cache_wf_def)
    have u1: "u1 = 0"
    proof (cases "0 < k")
      case True
      have "is_str_identical (ci_href (items c ! 0)) (Some h) 1 \<noteq> 1"
      proof
        assume i: "is_str_identical (ci_href (items c ! 0)) (Some h) 1 = 1"
        then obtain h0 where h0: "ci_href (items c ! 0) = Some h0" "strip_slash h0 = strip_slash h"
          by (cases "ci_href (items c ! 0)") (auto simp: is_str_identical_lenient split: if_splits)
        moreover have "ci_item (items c ! 0) \<noteq> None"
          using wf h0 ne by (auto simp: cache_wf_def)
        ultimately have "matches c href 0" using dh by (auto simp: matches_def)
        then show False using Suc.prems(2) True by blast
      qed
      then show ?thesis using c1 True dh by (simp add: update_core_cases [OF ne])
    qed (use c1 in simp)
    have se: "\<lparr>ci_item = Some d, ci_href = Some h\<rparr> = slot" using dh by (cases slot) simp
    have sub: "set (items c1) \<subseteq> set (items c)" "length (items c1) = length (items c)"
      using c1 update_core_subset [OF ne, of "ci_href slot" "ci_item slot" c1 u1] dh se mem
      by (auto split: if_splits)
    then have "cache_wf c1" using wf by (auto simp: cache_wf_def)
    then show ?thesis using res u1 sub mem dh by auto
  qed
qed

lemma cache_search_spec:
  assumes wf: "cache_wf c" and r: "cache_search c (Some href) = (res, c', u)"
  shows "u = 1" "cache_wf c'" "set (items c') \<subseteq> set (items c)"
    "res = None \<Longrightarrow> c' = c" "res = None \<Longrightarrow> j < length (items c) \<Longrightarrow> \<not> matches c href j"
    "res = Some d \<Longrightarrow> \<exists>x \<in> set (items c). \<exists>h. ci_item x = Some d \<and> ci_href x = Some h \<and>
        strip_slash h = strip_slash href"
  using search_loop_spec [OF wf, of 0 "length (items c)" href res c' u] r
  by (auto simp: cache_search_def)

lemma invalidate_loop_eq:
  "k + n = length (items c) \<Longrightarrow>
   items (cache_invalidate_loop c href len [k..<k + n]) =
     take k (items c) @ map (\<lambda>x. if prefixed len href x then empty_slot else x) (drop k (items c))"
proof (induction n arbitrary: k c)
  case (Suc n)
  define x where "x = items c ! k"
  define c1 where "c1 = (if prefixed len href x then cache_dispose_slot c k else c)"
  have up: "[k..<k + Suc n] = k # [Suc k..<Suc k + n]" by (simp add: upt_conv_Cons)
  have step: "cache_invalidate_loop c href len [k..<k + Suc n] = cache_invalidate_loop c1 href len [Suc k..<Suc k + n]"
    unfolding up by (auto simp: c1_def x_def prefixed_def Let_def simp del: upt.simps split: option.splits)
  have len1: "Suc k + n = length (items c1)" using Suc.prems by (simp add: c1_def cache_dispose_slot_def)
  have k: "k < length (items c)" using Suc.prems by simp
  have it: "items c1 = (items c)[k := if prefixed len href x then empty_slot else x]"
    by (simp add: c1_def cache_dispose_slot_def x_def)
  have "take (Suc k) (items c1) = take k (items c) @ [if prefixed len href x then empty_slot else x]"
    using k by (simp add: it take_Suc_conv_app_nth)
  moreover have "drop (Suc k) (items c1) = drop (Suc k) (items c)" by (simp add: it)
  moreover have "drop k (items c) = x # drop (Suc k) (items c)" using k by (simp add: x_def Cons_nth_drop_Suc)
  ultimately show ?case using Suc.IH [OF len1] step by simp
qed simp

lemma cache_invalidate_items:
  "items (cache_invalidate c (Some href)) =
     map (\<lambda>x. if prefixed (length (strip_slash href)) href x then empty_slot else x) (items c)"
proof -
  have "(if last_byte href = slash then length href - 1 else length href) = length (strip_slash href)"
    by (simp add: strip_slash_take)
  then show ?thesis using invalidate_loop_eq [of 0 "length (items c)" c href]
    by (simp add: cache_invalidate_def Let_def)
qed

lemma strip_prefix: "strip_slash h = strip_slash g \<Longrightarrow> strncmp_eq h g (length (strip_slash g))"
proof -
  assume e: "strip_slash h = strip_slash g"
  have p: "take (length (strip_slash x)) x = strip_slash x" for x
    by (simp add: strip_slash_def butlast_conv_take)
  show ?thesis unfolding strncmp_eq_def using p [of h] p [of g] e by metis
qed

section \<open>Coherence of cache and table\<close>

lemma coherentD:
  assumes "coherent s" "x \<in> set (items (dv_cache s))" "ci_item x = Some d" "ci_href x = Some h"
  shows "h = dev_href d" "hash_search device_hash_ops (dv_tab s) (Some h) = Some d"
proof -
  from assms(1) have "\<forall>x \<in> set (items (dv_cache s)). \<forall>d h. ci_item x = Some d \<longrightarrow> ci_href x = Some h \<longrightarrow>
        h = dev_href d \<and> hash_search device_hash_ops (dv_tab s) (Some h) = Some d"
    unfolding coherent_def by (elim conjE)
  note c = bspec [OF this assms(2), rule_format, OF assms(3,4)]
  show "h = dev_href d" by (rule conjunct1 [OF c])
  show "hash_search device_hash_ops (dv_tab s) (Some h) = Some d" by (rule conjunct2 [OF c])
qed

lemma coherentI:
  assumes "dev_table_wf (dv_tab s)" "cache_wf (dv_cache s)"
    and "\<And>x d h. \<lbrakk>x \<in> set (items (dv_cache s)); ci_item x = Some d; ci_href x = Some h\<rbrakk> \<Longrightarrow>
       h = dev_href d \<and> hash_search device_hash_ops (dv_tab s) (Some h) = Some d"
  shows "coherent s"
  unfolding coherent_def
  by (rule conjI, rule assms(1), rule conjI, rule assms(2), intro ballI allI impI, rule assms(3); assumption)

lemma coherent_wf: "coherent s \<Longrightarrow> dev_table_wf (dv_tab s)" "coherent s \<Longrightarrow> cache_wf (dv_cache s)"
  unfolding coherent_def by (elim conjE, assumption)+

lemma coherent_subset:
  assumes "coherent s" "cache_wf c" "set (items c) \<subseteq> set (items (dv_cache s))"
  shows "coherent (s\<lparr>dv_cache := c\<rparr>)"
proof (rule coherentI)
  fix x d h assume x: "x \<in> set (items (dv_cache (s\<lparr>dv_cache := c\<rparr>)))" "ci_item x = Some d" "ci_href x = Some h"
  then have "x \<in> set (items (dv_cache s))" using assms(3) by auto
  from coherentD [OF assms(1) this x(2,3)]
  show "h = dev_href d \<and> hash_search device_hash_ops (dv_tab (s\<lparr>dv_cache := c\<rparr>)) (Some h) = Some d" by simp
qed (use assms coherent_wf in simp_all)

lemma cache_update_coherent:
  assumes "coherent s" "hash_search device_hash_ops (dv_tab s) (Some (dev_href d)) = Some d"
  shows "coherent (s\<lparr>dv_cache := fst (cache_update (dv_cache s) (Some (dev_href d)) (Some d))\<rparr>)"
proof -
  let ?c = "dv_cache s"
  have ne: "items ?c \<noteq> []" using assms(1) by (simp add: coherent_def cache_wf_def)
  obtain c' u where c': "cache_update_core ?c (Some (dev_href d)) (Some d) = (c', u)" by fastforce
  note sub = update_core_subset [OF ne c']
  have "items c' \<noteq> []" using sub(2) ne by auto
  then have wf': "cache_wf c'" using sub(1) coherent_wf(2) [OF assms(1)] by (auto simp: cache_wf_def)
  have "coherent (s\<lparr>dv_cache := c'\<rparr>)"
  proof (rule coherentI)
    fix x e h assume x: "x \<in> set (items (dv_cache (s\<lparr>dv_cache := c'\<rparr>)))" "ci_item x = Some e" "ci_href x = Some h"
    then have "x \<in> set (items ?c) \<or> e = d \<and> h = dev_href d" using sub(1) by auto
    then show "h = dev_href e \<and> hash_search device_hash_ops (dv_tab (s\<lparr>dv_cache := c'\<rparr>)) (Some h) = Some e"
      using coherentD [OF assms(1) _ x(2,3)] assms(2) by auto
  qed (use coherent_wf(1) [OF assms(1)] wf' in simp_all)
  then show ?thesis using c' by (simp add: cache_update_def)
qed

text \<open>A cached lookup returns what the table has.\<close>

lemma cache_hit_table:
  assumes co: "coherent s" and r: "cache_search (dv_cache s) (Some href) = (Some d, c', u)"
  shows "hash_search device_hash_ops (dv_tab s) (Some href) = Some d"
proof -
  have wf: "cache_wf (dv_cache s)" "dev_table_wf (dv_tab s)" using co by (simp_all add: coherent_def)
  obtain x h where x: "x \<in> set (items (dv_cache s))" "ci_item x = Some d" "ci_href x = Some h"
      "strip_slash h = strip_slash href"
    using cache_search_spec(6) [OF wf(1) r] by blast
  then have "hash_search device_hash_ops (dv_tab s) (Some h) = Some d" using coherentD [OF co] by blast
  then show ?thesis using dev.search_same [OF wf(2) x(4)] by simp
qed

lemma device_search_spec:
  assumes co: "coherent s" and r: "device_search s href = (res, s')"
  shows "coherent s'" "dv_tab s' = dv_tab s" "dv_root s' = dv_root s"
    "res = (if is_given_type href OBIX_DEVICE = 0 then None
            else if is_device_root_href href = 1 then Some (dv_root s)
            else hash_search device_hash_ops (dv_tab s) (Some href))"
proof -
  obtain cr c u where c: "cache_search (dv_cache s) (Some href) = (cr, c, u)" by (metis surj_pair)
  have wf: "cache_wf (dv_cache s)" "dev_table_wf (dv_tab s)" using co by (simp_all add: coherent_def)
  note cs = cache_search_spec [OF wf(1) c]
  let ?h = "hash_search device_hash_ops (dv_tab s) (Some href)"
  have "coherent s' \<and> dv_tab s' = dv_tab s \<and> dv_root s' = dv_root s \<and>
    res = (if is_given_type href OBIX_DEVICE = 0 then None
            else if is_device_root_href href = 1 then Some (dv_root s) else ?h)"
  proof (cases "is_given_type href OBIX_DEVICE = 0 \<or> is_device_root_href href = 1")
    case True
    then show ?thesis using r co by (auto simp: device_search_def split: if_splits)
  next
    case False
    show ?thesis
    proof (cases cr)
      case (Some d)
      then have "res = Some d" "s' = s\<lparr>dv_cache := c\<rparr>" using r c False by (simp_all add: device_search_def)
      then show ?thesis using False coherent_subset [OF co cs(2,3)] cache_hit_table [OF co, of href d c u] c Some by simp
    next
      case None
      then have ceq: "c = dv_cache s" using cs(4) by simp
      show ?thesis
      proof (cases ?h)
        case None
        then have "res = None" "s' = s" using r c False \<open>cr = None\<close> ceq by (simp_all add: device_search_def)
        then show ?thesis using False None co by simp
      next
        case (Some d)
        then have e: "res = Some d" "s' = s\<lparr>dv_cache := fst (cache_update (dv_cache s) (Some (dev_href d)) (Some d))\<rparr>"
          using r c False \<open>cr = None\<close> ceq by (auto simp: device_search_def)
        have "strip_slash href = strip_slash (dev_href d)"
          using Some dev.search_eq [OF wf(2), of href] by (auto simp: find_Some_iff)
        then have "hash_search device_hash_ops (dv_tab s) (Some (dev_href d)) = Some d"
          using dev.search_same [OF wf(2)] Some by metis
        then show ?thesis using e False Some cache_update_coherent [OF co] by simp
      qed
    qed
  qed
  then show "coherent s'" "dv_tab s' = dv_tab s" "dv_root s' = dv_root s"
    "res = (if is_given_type href OBIX_DEVICE = 0 then None
            else if is_device_root_href href = 1 then Some (dv_root s) else ?h)" by blast+
qed

lemma device_link_coherent:
  assumes co: "coherent s" and fresh: "hash_search device_hash_ops (dv_tab s) (Some (dev_href d)) = None"
    and l: "device_link True s d = (e, s')"
  shows "e = ERR_SUCCESS" "coherent s'"
    "hash_search device_hash_ops (dv_tab s') (Some k) =
       (if dev_same k (dev_href d) then Some d else hash_search device_hash_ops (dv_tab s) (Some k))"
proof -
  have wf: "dev_table_wf (dv_tab s)" using co by (simp add: coherent_def)
  obtain r tab where a: "hash_add device_hash_ops True (dv_tab s) (Some (dev_href d)) (Some d) = (r, tab)" by fastforce
  note as = dev.add_spec [OF wf a]
  have srch: "hash_search device_hash_ops tab (Some k) =
      (if dev_same k (dev_href d) then Some d else hash_search device_hash_ops (dv_tab s) (Some k))" for k
    using as fresh by simp
  have e: "e = ERR_SUCCESS" "s' = s\<lparr>dv_tab := tab, dv_cache := fst (cache_update (dv_cache s) (Some (dev_href d)) (Some d))\<rparr>"
    using l a as by (simp_all add: device_link_def)
  have "coherent (s\<lparr>dv_tab := tab\<rparr>)"
    unfolding coherent_def
  proof (intro conjI ballI allI impI)
    fix x d' h assume x: "x \<in> set (items (dv_cache (s\<lparr>dv_tab := tab\<rparr>)))" "ci_item x = Some d'" "ci_href x = Some h"
    then have *: "h = dev_href d'" "hash_search device_hash_ops (dv_tab s) (Some h) = Some d'"
      using coherentD [OF co _ x(2,3)] by simp_all
    then show "h = dev_href d'" by blast
    have "\<not> dev_same h (dev_href d)" 
    proof
      assume "dev_same h (dev_href d)"
      from dev.search_same [OF wf this] show False using *(2) fresh by simp
    qed
    then show "hash_search device_hash_ops (dv_tab (s\<lparr>dv_tab := tab\<rparr>)) (Some h) = Some d'" using srch [of h] *(2) by simp
  next
    show "dev_table_wf (dv_tab (s\<lparr>dv_tab := tab\<rparr>))" using as by simp
    show "cache_wf (dv_cache (s\<lparr>dv_tab := tab\<rparr>))" using co by (simp add: coherent_def)
  qed
  from cache_update_coherent [OF this, of d] srch e show "coherent s'" by simp
  show "e = ERR_SUCCESS" using e by simp
  show "hash_search device_hash_ops (dv_tab s') (Some k) =
       (if dev_same k (dev_href d) then Some d else hash_search device_hash_ops (dv_tab s) (Some k))"
    using srch e by simp
qed

lemma device_unlink_coherent:
  assumes co: "coherent s"
  shows "coherent (device_unlink s d)"
    "hash_search device_hash_ops (dv_tab (device_unlink s d)) (Some k) =
       (if dev_same (dev_href d) k then None else hash_search device_hash_ops (dv_tab s) (Some k))"
proof -
  have wf: "dev_table_wf (dv_tab s)" "cache_wf (dv_cache s)" using co by (simp_all add: coherent_def)
  note ds = dev.del_spec [OF wf(1), of "dev_href d"]
  show srch: "hash_search device_hash_ops (dv_tab (device_unlink s d)) (Some k) =
       (if dev_same (dev_href d) k then None else hash_search device_hash_ops (dv_tab s) (Some k))" for k
    using ds by (simp add: device_unlink_def)
  let ?len = "length (strip_slash (dev_href d))"
  let ?f = "\<lambda>x. if prefixed ?len (dev_href d) x then empty_slot else x"
  have it: "items (dv_cache (device_unlink s d)) = map ?f (items (dv_cache s))"
    by (simp add: device_unlink_def cache_invalidate_items)
  have "cache_wf (dv_cache (device_unlink s d))"
    using wf(2) by (auto simp: cache_wf_def it empty_slot_def)
  moreover have "dev_table_wf (dv_tab (device_unlink s d))" using ds by (simp add: device_unlink_def)
  moreover have "h = dev_href d' \<and> hash_search device_hash_ops (dv_tab (device_unlink s d)) (Some h) = Some d'"
    if x: "x \<in> set (items (dv_cache (device_unlink s d)))" "ci_item x = Some d'" "ci_href x = Some h" for x d' h
  proof -
    have y: "x \<in> set (items (dv_cache s))" "\<not> prefixed ?len (dev_href d) x"
      using x by (auto simp: it empty_slot_def split: if_splits)
    then have "\<not> dev_same (dev_href d) h"
      using x strip_prefix [of h "dev_href d"] by (auto simp: prefixed_def)
    then show ?thesis using srch [of h] coherentD [OF co y(1) x(2,3)] by simp
  qed
  ultimately show "coherent (device_unlink s d)" by (intro coherentI)
qed

lemma reg_absD: "reg_abs s m \<Longrightarrow> hash_search device_hash_ops (dv_tab s) (Some k) = m (strip_slash k)"
  by (simp add: reg_abs_def)

lemma reg_abs_tab: "reg_abs s m \<Longrightarrow> dv_tab s' = dv_tab s \<Longrightarrow> reg_abs s' m"
  by (simp add: reg_abs_def)

lemma reg_link:
  assumes co: "coherent s" and ab: "reg_abs s m" and fresh: "m (strip_slash (dev_href d)) = None"
  shows "coherent (snd (device_link True s d))" "dv_root (snd (device_link True s d)) = dv_root s"
    "reg_abs (snd (device_link True s d)) (m(strip_slash (dev_href d) \<mapsto> d))"
proof -
  obtain e s' where l: "device_link True s d = (e, s')" by fastforce
  have f: "hash_search device_hash_ops (dv_tab s) (Some (dev_href d)) = None"
    using reg_absD [OF ab, of "dev_href d"] fresh by (simp only:)
  note d = device_link_coherent [OF co f l]
  show "coherent (snd (device_link True s d))" using d(2) l by (simp only: snd_conv)
  show "dv_root (snd (device_link True s d)) = dv_root s"
    by (simp add: device_link_def split: prod.splits)
  have "hash_search device_hash_ops (dv_tab s') (Some k) = (m(strip_slash (dev_href d) \<mapsto> d)) (strip_slash k)" for k
    unfolding d(3) [of k] reg_absD [OF ab, of k] fun_upd_apply by (rule refl)
  then show "reg_abs (snd (device_link True s d)) (m(strip_slash (dev_href d) \<mapsto> d))"
    unfolding reg_abs_def l snd_conv by (rule allI)
qed

lemma reg_unlink:
  assumes co: "coherent s" and ab: "reg_abs s m"
  shows "reg_abs (device_unlink s d) (m(strip_slash (dev_href d) := None))"
proof -
  have "hash_search device_hash_ops (dv_tab (device_unlink s d)) (Some k) =
      (m(strip_slash (dev_href d) := None)) (strip_slash k)" for k
  proof (cases "dev_same (dev_href d) k")
    case True
    then show ?thesis unfolding device_unlink_coherent(2) [OF co, of d k] fun_upd_apply by simp
  next
    case False
    then show ?thesis unfolding device_unlink_coherent(2) [OF co, of d k] reg_absD [OF ab, of k] fun_upd_apply
      by (simp add: eq_commute)
  qed
  then show ?thesis unfolding reg_abs_def by (rule allI)
qed

lemma dev_run_refines:
  assumes "coherent s" "reg_abs s m"
  shows "fst (dev_run s ops) = dev_spec_run (dv_root s) m ops \<and> coherent (snd (dev_run s ops))"
  using assms
proof (induction ops arbitrary: s m)
  case (Cons op ops)
  show ?case
  proof (cases op)
    case (Find_Dev h)
    obtain r s' where r: "device_search s h = (r, s')" by fastforce
    note ds = device_search_spec [OF Cons.prems(1) r]
    note ih = Cons.IH [OF ds(1) reg_abs_tab [OF Cons.prems(2) ds(2)]]
    have "r = (if is_given_type h OBIX_DEVICE = 0 then None
      else if is_device_root_href h = 1 then Some (dv_root s) else m (strip_slash h))"
      unfolding ds(4) reg_absD [OF Cons.prems(2)] by (rule refl)
    then show ?thesis using ih r Find_Dev ds(3) by (simp add: split_beta)
  next
    case (Link_Dev d)
    have f: "hash_search device_hash_ops (dv_tab s) (Some (dev_href d)) = m (strip_slash (dev_href d))"
      by (rule reg_absD [OF Cons.prems(2)])
    show ?thesis
    proof (cases "m (strip_slash (dev_href d)) = None")
      case True
      note l = reg_link [OF Cons.prems True]
      show ?thesis using Cons.IH [OF l(1,3)] l(2) True f Link_Dev by (simp del: fun_upd_apply)
    next
      case False
      then obtain y where "m (strip_slash (dev_href d)) = Some y" by blast
      then show ?thesis using Cons.IH [OF Cons.prems] f Link_Dev by simp
    qed
  next
    case (Unlink_Dev d)
    have "dv_root (device_unlink s d) = dv_root s" by (simp add: device_unlink_def)
    then show ?thesis
      using Cons.IH [OF device_unlink_coherent(1) [OF Cons.prems(1)] reg_unlink [OF Cons.prems]] Unlink_Dev
      by (simp del: fun_upd_apply)
  qed
qed simp

lemma small_devices_coherent: "coherent small_devices"
proof (rule coherentI)
  show "dev_table_wf (dv_tab small_devices)" using small_table_wf by (simp add: small_devices_def)
  show "cache_wf (dv_cache small_devices)" by (simp add: small_devices_def cache_wf_def empty_slot_def)
qed (auto simp: small_devices_def empty_slot_def)

lemma nth_two: "i < (2 :: nat) \<Longrightarrow> [x, x] ! i = x"
  by (cases i) auto

lemma small_devices_empty: "hash_search device_hash_ops (dv_tab small_devices) (Some k) = None"
proof -
  have "op_compute device_hash_ops k 2 < 2"
    using device_compute_bound [of 2 k] by (simp add: device_hash_ops_def)
  then have "head_of device_hash_ops (dv_tab small_devices) k < 2"
    by (simp add: head_of_def small_devices_def word_less_nat_alt)
  then show ?thesis
    by (simp add: hash_search_def small_devices_def nth_two hash_init_head_def)
qed

section \<open>Properties\<close>

text \<open>
  C16: the device registry with its cache refines a plain map.  From a coherent state every
  sequence of lookups, registrations of free hrefs and removals returns exactly what the
  map returns (an href outside the device root is never found, the root itself always is),
  and the cache never holds anything the hash table does not.
\<close>

theorem device_registry_refines_map:
  assumes "coherent s"
    and "\<And>k. hash_search device_hash_ops (dv_tab s) (Some k) = m (strip_slash k)"
  shows "fst (dev_run s ops) = dev_spec_run (dv_root s) m ops \<and> coherent (snd (dev_run s ops))"
proof -
  have "reg_abs s m" unfolding reg_abs_def using assms(2) by (rule allI)
  from dev_run_refines [OF assms(1) this] show ?thesis .
qed

theorem device_registry_refines_map_witness:
  "fst (dev_run small_devices [Link_Dev \<lparr>dev_href = ''/obix/deviceRoot/a'', dev_ptr = 1\<rparr>,
      Find_Dev ''/obix/deviceRoot/a/'', Unlink_Dev \<lparr>dev_href = ''/obix/deviceRoot/a'', dev_ptr = 1\<rparr>,
      Find_Dev ''/obix/deviceRoot/a'']) =
    [Some \<lparr>dev_href = ''/obix/deviceRoot/a'', dev_ptr = 1\<rparr>, None]"
proof -
  have "dev_spec_run (dv_root small_devices) (\<lambda>k. None) [Link_Dev \<lparr>dev_href = ''/obix/deviceRoot/a'', dev_ptr = 1\<rparr>,
      Find_Dev ''/obix/deviceRoot/a/'', Unlink_Dev \<lparr>dev_href = ''/obix/deviceRoot/a'', dev_ptr = 1\<rparr>,
      Find_Dev ''/obix/deviceRoot/a''] = [Some \<lparr>dev_href = ''/obix/deviceRoot/a'', dev_ptr = 1\<rparr>, None]"
    by code_simp
  moreover note device_registry_refines_map [OF small_devices_coherent, of "\<lambda>k. None", OF small_devices_empty]
  ultimately show ?thesis by metis
qed

text \<open>
  C28: \<open>cache_search\<close> releases the mutex exactly once on every path, but \<open>cache_update\<close>
  releases it twice exactly when the first slot already has the href: \<open>__cache_update\<close>
  unlocks on that path and its caller unlocks again.
\<close>

theorem cache_mutex_balance:
  assumes "cache_wf c"
  shows "snd (snd (cache_search c (Some href))) = 1 \<and>
    snd (cache_update c (Some href) (Some x)) =
      (if \<exists>h. ci_href (items c ! 0) = Some h \<and> strip_slash h = strip_slash href then 2 else 1)"
proof
  obtain r c' u where s: "cache_search c (Some href) = (r, c', u)" by (metis surj_pair)
  from cache_search_spec(1) [OF assms s] s show "snd (snd (cache_search c (Some href))) = 1" by simp
  have ne: "items c \<noteq> []" using assms by (simp add: cache_wf_def)
  show "snd (cache_update c (Some href) (Some x)) =
      (if \<exists>h. ci_href (items c ! 0) = Some h \<and> strip_slash h = strip_slash href then 2 else 1)"
  proof (cases "ci_href (items c ! 0)")
    case None
    then show ?thesis by (simp add: cache_update_def update_core_cases [OF ne] is_str_identical_def)
  next
    case (Some h)
    then show ?thesis by (simp add: cache_update_def update_core_cases [OF ne] is_str_identical_lenient)
  qed
qed

theorem cache_mutex_balance_witness:
  "snd (cache_update \<lparr>items = [\<lparr>ci_item = Some (5::nat), ci_href = Some ''/a''\<rparr>]\<rparr> (Some ''/a/'') (Some 5)) = 2"
proof -
  have "strip_slash ''/a'' = strip_slash ''/a/''" by code_simp
  with cache_mutex_balance [of "\<lparr>items = [\<lparr>ci_item = Some (5::nat), ci_href = Some ''/a''\<rparr>]\<rparr>" "''/a/''" 5]
  show ?thesis by (simp add: cache_wf_def)
qed

text \<open>
  C29: the lookup of \<open>device_search\<close> is not atomic.  If another thread unlinks the device
  between the hash lookup of a cache miss and the cache update, the device stays in the
  cache: a later search returns it although the hash table no longer has it.
\<close>

theorem device_search_stale_race:
  assumes "coherent s" "is_given_type href OBIX_DEVICE \<noteq> 0" "is_device_root_href href \<noteq> 1"
    and "hash_search device_hash_ops (dv_tab s) (Some href) = Some d"
    and s1: "s1 = device_unlink s d"
    and s2: "s2 = s1\<lparr>dv_cache := fst (cache_update (dv_cache s1) (Some (dev_href d)) (Some d))\<rparr>"
  shows "fst (device_search s2 href) = Some d \<and> hash_search device_hash_ops (dv_tab s2) (Some href) = None"
proof
  have wf: "dev_table_wf (dv_tab s)" using coherent_wf assms(1) by blast
  have "find (\<lambda>x. dev_same href (dev_href x))
      (hh_items (ht_table (dv_tab s) ! head_of device_hash_ops (dv_tab s) href)) = Some d"
    using assms(4) unfolding dev.search_eq [OF wf, of href] .
  then have same: "dev_same href (dev_href d)" by (auto simp: find_Some_iff)
  have co1: "coherent s1" unfolding s1 by (rule device_unlink_coherent(1) [OF assms(1)])
  have "hash_search device_hash_ops (dv_tab s1) (Some href) = None"
    unfolding s1 device_unlink_coherent(2) [OF assms(1)] by (rule if_P) (rule same [symmetric])
  then show "hash_search device_hash_ops (dv_tab s2) (Some href) = None" by (simp add: s2)
  have cw: "cache_wf (dv_cache s1)" using co1 coherent_wf by blast
  then have ne: "items (dv_cache s1) \<noteq> []" by (simp add: cache_wf_def)
  have "is_str_identical (ci_href (items (dv_cache s1) ! 0)) (Some (dev_href d)) 1 \<noteq> 1"
  proof
    assume i: "is_str_identical (ci_href (items (dv_cache s1) ! 0)) (Some (dev_href d)) 1 = 1"
    let ?x = "items (dv_cache s1) ! 0"
    obtain h where h: "ci_href ?x = Some h" "dev_same h (dev_href d)"
      using i by (cases "ci_href ?x") (auto simp: is_str_identical_lenient split: if_splits)
    have mem: "?x \<in> set (items (dv_cache s1))" using ne by simp
    obtain e where "ci_item ?x = Some e" using cw h(1) mem by (fastforce simp: cache_wf_def)
    from coherentD(2) [OF co1 mem this h(1)] have "hash_search device_hash_ops (dv_tab s1) (Some h) = Some e" .
    moreover have "hash_search device_hash_ops (dv_tab s1) (Some h) = None"
      unfolding s1 device_unlink_coherent(2) [OF assms(1)] by (rule if_P) (rule h(2) [symmetric])
    ultimately show False by simp
  qed
  then have c2: "items (dv_cache s2) = \<lparr>ci_item = Some d, ci_href = Some (dev_href d)\<rparr> # butlast (items (dv_cache s1))"
    by (simp add: s2 cache_update_def update_core_cases [OF ne])
  have "fst (cache_search (dv_cache s2) (Some href)) = Some d"
    using same by (simp add: cache_search_def c2 upt_conv_Cons is_str_identical_lenient Let_def del: upt_Suc)
  then show "fst (device_search s2 href) = Some d"
    using assms(2,3) by (cases "cache_search (dv_cache s2) (Some href)") (auto simp: device_search_def)
qed

theorem device_search_stale_race_witness:
  "\<exists>s d s2. coherent s \<and> hash_search device_hash_ops (dv_tab s) (Some ''/obix/deviceRoot/a'') = Some d \<and>
     fst (device_search s2 ''/obix/deviceRoot/a'') = Some d \<and>
     hash_search device_hash_ops (dv_tab s2) (Some ''/obix/deviceRoot/a'') = None"
proof -
  let ?d = "\<lparr>dev_href = ''/obix/deviceRoot/a'', dev_ptr = 1\<rparr>"
  let ?h = "''/obix/deviceRoot/a''"
  obtain e s where l: "device_link True small_devices ?d = (e, s)" by fastforce
  note dl = device_link_coherent [OF small_devices_coherent small_devices_empty l]
  have f: "hash_search device_hash_ops (dv_tab s) (Some ?h) = Some ?d"
    unfolding dl(3) by (simp only: dev_ref.simps simp_thms if_True)
  have "is_given_type ?h OBIX_DEVICE \<noteq> 0" "is_device_root_href ?h \<noteq> 1" by code_simp+
  from device_search_stale_race [OF dl(2) this f refl refl] dl(2) f show ?thesis by blast
qed

end
