(* ===== verification/Obix_Tsync.thy ===== *)
theory Obix_Tsync
  imports Obix_Interfaces
begin

text \<open>
  The readers-writers monitor of \<open>src/src/libs/tsync.c\<close>.

  Every call takes the mutex of the structure, so a call is a sequence of critical
  sections cut at \<open>pthread_cond_wait\<close>: one function per critical section gives the new
  fields, whether the thread is refused, blocks or enters, and the condition variables it
  signals.  The threads around it are a step relation over all their interleavings, with
  the sleepers of each queue.  The counters are C ints; with fewer than \<open>2 ^ 31\<close> threads
  they do not overflow.  The DEBUG output is left out.
\<close>

section \<open>tsync.h, tsync.c: the critical sections\<close>

record tsync =
  being_shutdown :: int
  readers :: int
  writers :: int
  running_readers :: int
  running_writers :: int

text \<open>
  What a call does when it leaves the mutex: it returns \<open>- 1\<close>, it blocks in
  \<open>pthread_cond_wait\<close>, or it returns 0.
\<close>

datatype outcome = Refused | Blocked | Entered

text \<open>The wait queue a condition variable call is made on: \<open>rq\<close>, \<open>wq\<close> or \<open>swq\<close>.\<close>

datatype wake = Signal_wq | Broadcast_rq | Signal_swq

definition tsync_init :: tsync where
  "tsync_init = \<lparr>being_shutdown = 0, readers = 0, writers = 0, running_readers = 0, running_writers = 0\<rparr>"

text \<open>The loops around \<open>pthread_cond_wait\<close>, run at entry and after every wakeup.\<close>

definition shutdown_wait :: "tsync \<Rightarrow> outcome \<times> tsync" where
  "shutdown_wait s = (if readers s > 0 \<or> writers s > 0 then (Blocked, s) else (Entered, s))"

definition tsync_shutdown_entry :: "tsync \<Rightarrow> outcome \<times> tsync" where
  "tsync_shutdown_entry s =
     (if being_shutdown s = 1 then (Refused, s) else shutdown_wait (s\<lparr>being_shutdown := 1\<rparr>))"

definition tsync_shutdown_revoke :: "tsync \<Rightarrow> tsync" where
  "tsync_shutdown_revoke s = (if being_shutdown s = 1 then s\<lparr>being_shutdown := 0\<rparr> else s)"

definition writer_wait :: "tsync \<Rightarrow> outcome \<times> tsync" where
  "writer_wait s =
     (if running_readers s > 0 \<or> running_writers s > 0 then (Blocked, s)
      else (Entered, s\<lparr>running_writers := running_writers s + 1\<rparr>))"

definition tsync_writer_entry :: "tsync \<Rightarrow> outcome \<times> tsync" where
  "tsync_writer_entry s =
     (if being_shutdown s = 1 then (Refused, s) else writer_wait (s\<lparr>writers := writers s + 1\<rparr>))"

definition tsync_writer_exit :: "tsync \<Rightarrow> tsync \<times> wake list" where
  "tsync_writer_exit s0 =
     (let s = s0\<lparr>writers := writers s0 - 1, running_writers := running_writers s0 - 1\<rparr> in
      (s, if writers s > 0 then [Signal_wq]
          else if readers s > 0 then [Broadcast_rq]
          else if being_shutdown s = 1 \<and> readers s = 0 \<and> writers s = 0 then [Signal_swq]
          else []))"

definition reader_wait :: "tsync \<Rightarrow> outcome \<times> tsync" where
  "reader_wait s =
     (if writers s > 0 then (Blocked, s)
      else (Entered, s\<lparr>running_readers := running_readers s + 1\<rparr>))"

definition tsync_reader_entry :: "tsync \<Rightarrow> outcome \<times> tsync" where
  "tsync_reader_entry s =
     (if being_shutdown s = 1 then (Refused, s) else reader_wait (s\<lparr>readers := readers s + 1\<rparr>))"

definition tsync_reader_exit :: "tsync \<Rightarrow> tsync \<times> wake list" where
  "tsync_reader_exit s0 =
     (let s = s0\<lparr>readers := readers s0 - 1, running_readers := running_readers s0 - 1\<rparr> in
      (s, (if running_readers s = 0 \<and> writers s > 0 then [Signal_wq] else []) @
          (if being_shutdown s = 1 \<and> readers s = 0 \<and> writers s = 0 then [Signal_swq] else [])))"

section \<open>Threads\<close>

text \<open>
  Where a thread is: outside, asleep on one of the queues (the flag says whether it has
  been woken and waits for the mutex), in a region, or past a successful shutdown.
\<close>

datatype place = Idle | WaitR bool | WaitW bool | WaitS bool | RunR | RunW | Shut

record sys =
  sync :: tsync
  pc :: "place list"

text \<open>
  A signal wakes one sleeper if there is one, a broadcast all of them.  POSIX allows a
  signal to wake several and wakeups without any signal: both are covered by the steps,
  which let a sleeper re-test its condition at any time.
\<close>

fun woken :: "wake \<Rightarrow> place list \<Rightarrow> place list set" where
  "woken Signal_wq ps =
     (if WaitW False \<in> set ps
      then (\<lambda>i. ps[i := WaitW True]) ` {i \<in> {..<length ps}. ps ! i = WaitW False} else {ps})"
| "woken Signal_swq ps =
     (if WaitS False \<in> set ps
      then (\<lambda>i. ps[i := WaitS True]) ` {i \<in> {..<length ps}. ps ! i = WaitS False} else {ps})"
| "woken Broadcast_rq ps = {map (\<lambda>p. if p = WaitR False then WaitR True else p) ps}"

fun woken_all :: "wake list \<Rightarrow> place list \<Rightarrow> place list set" where
  "woken_all [] ps = {ps}"
| "woken_all (w # ws) ps = (\<Union>qs \<in> woken w ps. woken_all ws qs)"

fun after :: "place \<Rightarrow> place \<Rightarrow> outcome \<Rightarrow> place" where
  "after wait run Refused = Idle"
| "after wait run Blocked = wait"
| "after wait run Entered = run"

inductive tsync_step :: "sys \<Rightarrow> sys \<Rightarrow> bool" where
  enter_w: "\<lbrakk>t < length ps; ps ! t = Idle; tsync_writer_entry s = (r, s')\<rbrakk> \<Longrightarrow>
     tsync_step \<lparr>sync = s, pc = ps\<rparr> \<lparr>sync = s', pc = ps[t := after (WaitW False) RunW r]\<rparr>"
| retry_w: "\<lbrakk>t < length ps; ps ! t = WaitW b; writer_wait s = (r, s')\<rbrakk> \<Longrightarrow>
     tsync_step \<lparr>sync = s, pc = ps\<rparr> \<lparr>sync = s', pc = ps[t := after (WaitW False) RunW r]\<rparr>"
| exit_w: "\<lbrakk>t < length ps; ps ! t = RunW; tsync_writer_exit s = (s', ws); qs \<in> woken_all ws (ps[t := Idle])\<rbrakk> \<Longrightarrow>
     tsync_step \<lparr>sync = s, pc = ps\<rparr> \<lparr>sync = s', pc = qs\<rparr>"
| enter_r: "\<lbrakk>t < length ps; ps ! t = Idle; tsync_reader_entry s = (r, s')\<rbrakk> \<Longrightarrow>
     tsync_step \<lparr>sync = s, pc = ps\<rparr> \<lparr>sync = s', pc = ps[t := after (WaitR False) RunR r]\<rparr>"
| retry_r: "\<lbrakk>t < length ps; ps ! t = WaitR b; reader_wait s = (r, s')\<rbrakk> \<Longrightarrow>
     tsync_step \<lparr>sync = s, pc = ps\<rparr> \<lparr>sync = s', pc = ps[t := after (WaitR False) RunR r]\<rparr>"
| exit_r: "\<lbrakk>t < length ps; ps ! t = RunR; tsync_reader_exit s = (s', ws); qs \<in> woken_all ws (ps[t := Idle])\<rbrakk> \<Longrightarrow>
     tsync_step \<lparr>sync = s, pc = ps\<rparr> \<lparr>sync = s', pc = qs\<rparr>"
| enter_s: "\<lbrakk>t < length ps; ps ! t = Idle; tsync_shutdown_entry s = (r, s')\<rbrakk> \<Longrightarrow>
     tsync_step \<lparr>sync = s, pc = ps\<rparr> \<lparr>sync = s', pc = ps[t := after (WaitS False) Shut r]\<rparr>"
| retry_s: "\<lbrakk>t < length ps; ps ! t = WaitS b; shutdown_wait s = (r, s')\<rbrakk> \<Longrightarrow>
     tsync_step \<lparr>sync = s, pc = ps\<rparr> \<lparr>sync = s', pc = ps[t := after (WaitS False) Shut r]\<rparr>"
| revoke: "\<lbrakk>t < length ps; ps ! t = Shut; tsync_shutdown_revoke s = s'\<rbrakk> \<Longrightarrow>
     tsync_step \<lparr>sync = s, pc = ps\<rparr> \<lparr>sync = s', pc = ps[t := Idle]\<rparr>"

definition tsync_start :: "nat \<Rightarrow> sys" where
  "tsync_start n = \<lparr>sync = tsync_init, pc = replicate n Idle\<rparr>"

definition tsync_reach :: "sys \<Rightarrow> bool" where
  "tsync_reach x \<longleftrightarrow> (\<exists>n. tsync_step\<^sup>*\<^sup>* (tsync_start n) x)"

definition may_write :: "sys \<Rightarrow> nat \<Rightarrow> bool" where
  "may_write x t \<longleftrightarrow> t < length (pc x) \<and> (pc x ! t = RunW \<or> pc x ! t = Shut)"

definition may_read :: "sys \<Rightarrow> nat \<Rightarrow> bool" where
  "may_read x t \<longleftrightarrow> t < length (pc x) \<and> pc x ! t = RunR"

section \<open>Counting threads\<close>

abbreviation cnt :: "place \<Rightarrow> place list \<Rightarrow> int" where
  "cnt p ps \<equiv> int (count_list ps p)"

text \<open>
  The invariant.  The fields are determined by the counts; who writes is alone; a
  completed shutdown leaves nobody behind; and no wakeup is lost: whoever sleeps unwoken
  has somebody who will wake it.
\<close>

definition fields_of :: "(place \<Rightarrow> int) \<Rightarrow> tsync" where
  "fields_of c = \<lparr>being_shutdown = c (WaitS False) + c (WaitS True) + c Shut,
     readers = c (WaitR False) + c (WaitR True) + c RunR,
     writers = c (WaitW False) + c (WaitW True) + c RunW,
     running_readers = c RunR, running_writers = c RunW\<rparr>"

definition safe :: "(place \<Rightarrow> int) \<Rightarrow> bool" where
  "safe c \<longleftrightarrow> c RunW \<le> 1 \<and> (c RunW = 0 \<or> c RunR = 0) \<and>
     c (WaitS False) + c (WaitS True) + c Shut \<le> 1 \<and>
     (c Shut = 0 \<or> readers (fields_of c) = 0 \<and> writers (fields_of c) = 0)"

definition live :: "(place \<Rightarrow> int) \<Rightarrow> bool" where
  "live c \<longleftrightarrow> (c (WaitW False) = 0 \<or> 0 < c RunR + c RunW + c (WaitW True)) \<and>
     (c (WaitR False) = 0 \<or> 0 < writers (fields_of c)) \<and>
     (c (WaitS False) = 0 \<or> 0 < readers (fields_of c) + writers (fields_of c))"

definition tsync_inv :: "sys \<Rightarrow> bool" where
  "tsync_inv x \<longleftrightarrow> (let c = \<lambda>p. cnt p (pc x) in sync x = fields_of c \<and> safe c \<and> live c)"

definition move :: "place \<Rightarrow> place \<Rightarrow> (place \<Rightarrow> int) \<Rightarrow> place \<Rightarrow> int" where
  "move a b c p = c p - (if a = p then 1 else 0) + (if b = p then 1 else 0)"

text \<open>The effect of a wakeup on the counts does not depend on who is chosen.\<close>

fun wake_c :: "(place \<Rightarrow> int) \<Rightarrow> wake \<Rightarrow> place \<Rightarrow> int" where
  "wake_c c Signal_wq = (if 0 < c (WaitW False) then move (WaitW False) (WaitW True) c else c)"
| "wake_c c Signal_swq = (if 0 < c (WaitS False) then move (WaitS False) (WaitS True) c else c)"
| "wake_c c Broadcast_rq = c(WaitR False := 0, WaitR True := c (WaitR True) + c (WaitR False))"

definition inv_c :: "tsync \<Rightarrow> (place \<Rightarrow> int) \<Rightarrow> bool" where
  "inv_c s c \<longleftrightarrow> (\<forall>p. 0 \<le> c p) \<and> s = fields_of c \<and> safe c \<and> live c"

text \<open>Two runs of two threads: a writer that waits for a reader, and a shutdown.\<close>

definition contended :: sys where
  "contended = \<lparr>sync = \<lparr>being_shutdown = 0, readers = 1, writers = 1, running_readers = 1, running_writers = 0\<rparr>,
     pc = [RunR, WaitW False]\<rparr>"

definition closed :: sys where
  "closed = \<lparr>sync = \<lparr>being_shutdown = 1, readers = 0, writers = 0, running_readers = 0, running_writers = 0\<rparr>,
     pc = [Shut, Idle]\<rparr>"

lemma count_update:
  "i < length ps \<Longrightarrow>
   cnt p (ps[i := q]) = cnt p ps - (if ps ! i = p then 1 else 0) + (if q = p then 1 else 0)"
proof (induction ps arbitrary: i)
  case (Cons x ps)
  show ?case
  proof (cases i)
    case (Suc j)
    then have "cnt p (ps[j := q]) = cnt p ps - (if ps ! j = p then 1 else 0) + (if q = p then 1 else 0)"
      using Cons by simp
    then show ?thesis using Suc by (auto split: if_splits)
  qed simp
qed simp

lemma count_broadcast:
  "cnt p (map (\<lambda>p. if p = WaitR False then WaitR True else p) ps) =
    (if p = WaitR False then 0 else if p = WaitR True then cnt (WaitR True) ps + cnt (WaitR False) ps else cnt p ps)"
  by (induction ps) auto

lemma cnt_pos: "0 < cnt p ps \<longleftrightarrow> (\<exists>t < length ps. ps ! t = p)"
  by (simp add: in_set_conv_nth [symmetric]) (metis count_list_0_iff neq0_conv)

lemmas tsync_op_defs = tsync_writer_entry_def tsync_reader_entry_def tsync_shutdown_entry_def
  writer_wait_def reader_wait_def shutdown_wait_def tsync_shutdown_revoke_def

lemma cnt_update_move: "t < length ps \<Longrightarrow> (\<lambda>p. cnt p (ps[t := q])) = move (ps ! t) q (\<lambda>p. cnt p ps)"
  by (simp add: count_update move_def fun_eq_iff)

lemma cnt_mem: "0 < cnt p ps \<longleftrightarrow> p \<in> set ps"
  using count_list_0_iff [of ps p] by auto

lemma woken_cnt: "qs \<in> woken w ps \<Longrightarrow> (\<lambda>p. cnt p qs) = wake_c (\<lambda>p. cnt p ps) w"
proof (cases w)
  case Signal_wq
  assume "qs \<in> woken w ps"
  then show ?thesis using Signal_wq cnt_mem [where p = "WaitW False" and ps = ps]
    by (auto simp: cnt_update_move split: if_splits)
next
  case Signal_swq
  assume "qs \<in> woken w ps"
  then show ?thesis using Signal_swq cnt_mem [where p = "WaitS False" and ps = ps]
    by (auto simp: cnt_update_move split: if_splits)
next
  case Broadcast_rq
  assume "qs \<in> woken w ps"
  then show ?thesis using Broadcast_rq by (auto simp: count_broadcast fun_eq_iff)
qed

lemma woken_all_cnt: "qs \<in> woken_all ws ps \<Longrightarrow> (\<lambda>p. cnt p qs) = foldl wake_c (\<lambda>p. cnt p ps) ws"
proof (induction ws arbitrary: ps)
  case (Cons w ws)
  then obtain rs where "rs \<in> woken w ps" "qs \<in> woken_all ws rs" by auto
  then show ?case using Cons.IH woken_cnt by simp
qed simp

lemma inv_cD:
  assumes "inv_c s c"
  shows "s = fields_of c" "safe c" "live c"
    "0 \<le> c RunR" "0 \<le> c RunW" "0 \<le> c Shut" "0 \<le> c (WaitR False)" "0 \<le> c (WaitR True)"
    "0 \<le> c (WaitW False)" "0 \<le> c (WaitW True)" "0 \<le> c (WaitS False)" "0 \<le> c (WaitS True)"
  using assms by (auto simp: inv_c_def)

lemmas step_simps = tsync_op_defs fields_of_def move_def

lemma move_nonneg: "inv_c s c \<Longrightarrow> 0 < c a \<Longrightarrow> 0 \<le> move a b c p"
  unfolding inv_c_def move_def by (cases "a = p") (auto simp: int_one_le_iff_zero_less)

lemma inv_c_entry_w:
  assumes "inv_c s c" "tsync_writer_entry s = (r, s')" "q = after (WaitW False) RunW r"
  shows "s' = fields_of (move Idle q c)" "safe (move Idle q c)" "live (move Idle q c)"
  using inv_cD [OF assms(1)] assms(2,3) unfolding safe_def live_def
  by (auto simp: step_simps split: if_splits)

lemma inv_c_retry_w:
  assumes "inv_c s c" "0 < c (WaitW b)" "writer_wait s = (r, s')" "q = after (WaitW False) RunW r"
  shows "s' = fields_of (move (WaitW b) q c)" "safe (move (WaitW b) q c)" "live (move (WaitW b) q c)"
  using inv_cD [OF assms(1)] assms(2-) unfolding safe_def live_def
  by (cases b; auto simp: step_simps split: if_splits)+

lemma inv_c_entry_r:
  assumes "inv_c s c" "tsync_reader_entry s = (r, s')" "q = after (WaitR False) RunR r"
  shows "s' = fields_of (move Idle q c)" "safe (move Idle q c)" "live (move Idle q c)"
  using inv_cD [OF assms(1)] assms(2,3) unfolding safe_def live_def
  by (auto simp: step_simps split: if_splits)

lemma inv_c_retry_r:
  assumes "inv_c s c" "0 < c (WaitR b)" "reader_wait s = (r, s')" "q = after (WaitR False) RunR r"
  shows "s' = fields_of (move (WaitR b) q c)" "safe (move (WaitR b) q c)" "live (move (WaitR b) q c)"
  using inv_cD [OF assms(1)] assms(2-) unfolding safe_def live_def
  by (cases b; auto simp: step_simps split: if_splits)+

lemma inv_c_entry_s:
  assumes "inv_c s c" "tsync_shutdown_entry s = (r, s')" "q = after (WaitS False) Shut r"
  shows "s' = fields_of (move Idle q c)" "safe (move Idle q c)" "live (move Idle q c)"
  using inv_cD [OF assms(1)] assms(2,3) unfolding safe_def live_def
  by (auto simp: step_simps split: if_splits)

lemma inv_c_retry_s:
  assumes "inv_c s c" "0 < c (WaitS b)" "shutdown_wait s = (r, s')" "q = after (WaitS False) Shut r"
  shows "s' = fields_of (move (WaitS b) q c)" "safe (move (WaitS b) q c)" "live (move (WaitS b) q c)"
  using inv_cD [OF assms(1)] assms(2-) unfolding safe_def live_def
  by (cases b; auto simp: step_simps split: if_splits)+

lemma inv_c_revoke:
  assumes "inv_c s c" "0 < c Shut" "tsync_shutdown_revoke s = s'"
  shows "s' = fields_of (move Shut Idle c)" "safe (move Shut Idle c)" "live (move Shut Idle c)"
  using inv_cD [OF assms(1)] assms(2-) unfolding safe_def live_def
  by (auto simp: step_simps split: if_splits)

lemma inv_c_exit_w:
  assumes "inv_c s c" "0 < c RunW" "tsync_writer_exit s = (s', ws)" "c' = foldl wake_c (move RunW Idle c) ws"
  shows "s' = fields_of c'" "safe c'" "live c'"
  using inv_cD [OF assms(1)] assms(2-) unfolding safe_def live_def tsync_writer_exit_def Let_def
  by (auto simp: step_simps split: if_splits)

lemma inv_c_exit_r:
  assumes "inv_c s c" "0 < c RunR" "tsync_reader_exit s = (s', ws)" "c' = foldl wake_c (move RunR Idle c) ws"
  shows "s' = fields_of c'" "safe c'" "live c'"
  using inv_cD [OF assms(1)] assms(2-) unfolding safe_def live_def tsync_reader_exit_def Let_def
  by (auto simp: step_simps split: if_splits)

lemma tsync_inv_c: "tsync_inv x \<longleftrightarrow> inv_c (sync x) (\<lambda>p. cnt p (pc x))"
  by (simp add: tsync_inv_def inv_c_def Let_def)

lemma nth_cnt: "t < length ps \<Longrightarrow> 0 < cnt (ps ! t) ps"
  by (simp add: cnt_mem del: of_nat_0_less_iff)

lemma inv_c_cnt:
  "inv_c s (\<lambda>p. cnt p ps) \<longleftrightarrow> s = fields_of (\<lambda>p. cnt p ps) \<and> safe (\<lambda>p. cnt p ps) \<and> live (\<lambda>p. cnt p ps)"
  by (simp add: inv_c_def)

lemma inv_c_move:
  assumes "t < length ps" "s' = fields_of (move (ps ! t) q (\<lambda>p. cnt p ps))" "safe (move (ps ! t) q (\<lambda>p. cnt p ps))"
    "live (move (ps ! t) q (\<lambda>p. cnt p ps))"
  shows "inv_c s' (\<lambda>p. cnt p (ps[t := q]))"
  unfolding inv_c_def cnt_update_move [OF assms(1), symmetric]
  using assms(2-) cnt_update_move [OF assms(1)] by (metis of_nat_0_le_iff)

lemma tsync_step_inv: "tsync_step x y \<Longrightarrow> tsync_inv x \<Longrightarrow> tsync_inv y"
proof (induction rule: tsync_step.induct)
  case (enter_w t ps s r s')
  then show ?case using inv_c_entry_w [of s "\<lambda>p. cnt p ps" r s' "after (WaitW False) RunW r"]
    by (simp add: tsync_inv_c inv_c_move)
next
  case (retry_w t ps b s r s')
  then show ?case using inv_c_retry_w [of s "\<lambda>p. cnt p ps" b r s' "after (WaitW False) RunW r"] nth_cnt [of t ps]
    by (simp add: tsync_inv_c inv_c_move)
next
  case (enter_r t ps s r s')
  then show ?case using inv_c_entry_r [of s "\<lambda>p. cnt p ps" r s' "after (WaitR False) RunR r"]
    by (simp add: tsync_inv_c inv_c_move)
next
  case (retry_r t ps b s r s')
  then show ?case using inv_c_retry_r [of s "\<lambda>p. cnt p ps" b r s' "after (WaitR False) RunR r"] nth_cnt [of t ps]
    by (simp add: tsync_inv_c inv_c_move)
next
  case (enter_s t ps s r s')
  then show ?case using inv_c_entry_s [of s "\<lambda>p. cnt p ps" r s' "after (WaitS False) Shut r"]
    by (simp add: tsync_inv_c inv_c_move)
next
  case (retry_s t ps b s r s')
  then show ?case using inv_c_retry_s [of s "\<lambda>p. cnt p ps" b r s' "after (WaitS False) Shut r"] nth_cnt [of t ps]
    by (simp add: tsync_inv_c inv_c_move)
next
  case (revoke t ps s s')
  then show ?case using inv_c_revoke [of s "\<lambda>p. cnt p ps" s'] nth_cnt [of t ps]
    by (simp add: tsync_inv_c inv_c_move)
next
  case (exit_w t ps s s' ws qs)
  have c: "(\<lambda>p. cnt p qs) = foldl wake_c (move RunW Idle (\<lambda>p. cnt p ps)) ws"
    using woken_all_cnt [OF exit_w(4)] cnt_update_move [OF exit_w(1), of Idle] exit_w(2) by simp
  have i: "inv_c s (\<lambda>p. cnt p ps)" using exit_w(5) by (simp add: tsync_inv_c)
  have p: "0 < cnt RunW ps" using nth_cnt [OF exit_w(1)] exit_w(2) by simp
  have "inv_c s' (\<lambda>p. cnt p qs)"
    unfolding inv_c_cnt by (intro conjI inv_c_exit_w [OF i p exit_w(3) c])
  then show ?case by (simp add: tsync_inv_c)
next
  case (exit_r t ps s s' ws qs)
  have c: "(\<lambda>p. cnt p qs) = foldl wake_c (move RunR Idle (\<lambda>p. cnt p ps)) ws"
    using woken_all_cnt [OF exit_r(4)] cnt_update_move [OF exit_r(1), of Idle] exit_r(2) by simp
  have i: "inv_c s (\<lambda>p. cnt p ps)" using exit_r(5) by (simp add: tsync_inv_c)
  have p: "0 < cnt RunR ps" using nth_cnt [OF exit_r(1)] exit_r(2) by simp
  have "inv_c s' (\<lambda>p. cnt p qs)"
    unfolding inv_c_cnt by (intro conjI inv_c_exit_r [OF i p exit_r(3) c])
  then show ?case by (simp add: tsync_inv_c)
qed

lemma tsync_start_inv: "tsync_inv (tsync_start n)"
proof -
  have "cnt p (replicate n Idle) = 0" if "p \<noteq> Idle" for p using that by (induction n) auto
  then show ?thesis
    by (simp add: tsync_inv_def tsync_start_def tsync_init_def safe_def live_def fields_of_def)
qed

lemma tsync_reach_inv: "tsync_reach x \<Longrightarrow> tsync_inv x"
proof -
  assume "tsync_reach x"
  then obtain n where "tsync_step\<^sup>*\<^sup>* (tsync_start n) x" by (auto simp: tsync_reach_def)
  then show ?thesis
    by (induction rule: rtranclp_induct) (auto simp: tsync_start_inv tsync_step_inv)
qed

lemma tsync_reach_step: "tsync_reach x \<Longrightarrow> tsync_step x y \<Longrightarrow> tsync_reach y"
  unfolding tsync_reach_def by (meson rtranclp.rtrancl_into_rtrancl)

lemma count_two:
  assumes "t < length ps" "u < length ps" "t \<noteq> u"
  shows "2 \<le> length (filter P ps) \<or> \<not> P (ps ! t) \<or> \<not> P (ps ! u)"
proof (rule ccontr)
  assume "\<not> ?thesis"
  then have "P (ps ! t)" "P (ps ! u)" "length (filter P ps) < 2" by auto
  then have "{t, u} \<subseteq> {i. i < length ps \<and> P (ps ! i)}" using assms by auto
  then have "card {t, u} \<le> length (filter P ps)"
    by (simp add: length_filter_conv_card card_mono)
  then show False using \<open>length (filter P ps) < 2\<close> assms(3) by simp
qed

lemma filter_cnt: "int (length (filter (\<lambda>p. p = a) ps)) = cnt a ps"
  by (induction ps) auto

lemma alone_RunW:
  assumes "tsync_inv x" "t < length (pc x)" "u < length (pc x)" "t \<noteq> u" "pc x ! t = RunW"
  shows "pc x ! u \<noteq> RunR" "pc x ! u \<noteq> RunW" "pc x ! u \<noteq> Shut"
proof -
  have c: "safe (\<lambda>p. cnt p (pc x))" using assms(1) by (simp add: tsync_inv_def Let_def)
  have pos: "0 < cnt RunW (pc x)" using nth_cnt [OF assms(2)] assms(5) by simp
  show "pc x ! u \<noteq> RunW"
    using count_two [OF assms(2-4), of "\<lambda>p. p = RunW"] assms(5) filter_cnt [of RunW "pc x"] c
    by (auto simp: safe_def)
  show "pc x ! u \<noteq> RunR" "pc x ! u \<noteq> Shut"
    using c pos nth_cnt [OF assms(3)] by (auto simp: safe_def fields_of_def)
qed

text \<open>A completed shutdown leaves every other thread outside.\<close>

lemma alone_Shut:
  assumes "tsync_inv x" "t < length (pc x)" "u < length (pc x)" "t \<noteq> u" "pc x ! t = Shut"
  shows "pc x ! u = Idle"
proof -
  have c: "safe (\<lambda>p. cnt p (pc x))" using assms(1) by (simp add: tsync_inv_def Let_def)
  have pos: "0 < cnt Shut (pc x)" using nth_cnt [OF assms(2)] assms(5) by simp
  have "pc x ! u \<noteq> Shut"
    using count_two [OF assms(2-4), of "\<lambda>p. p = Shut"] assms(5) filter_cnt [of Shut "pc x"] c
    by (auto simp: safe_def)
  moreover have "0 < cnt (pc x ! u) (pc x)" by (rule nth_cnt [OF assms(3)])
  moreover have "cnt RunR (pc x) = 0" "cnt RunW (pc x) = 0" "cnt (WaitR b) (pc x) = 0"
      "cnt (WaitW b) (pc x) = 0" "cnt (WaitS b) (pc x) = 0" for b
    using c pos by (cases b; auto simp: safe_def fields_of_def)+
  ultimately show ?thesis by (cases "pc x ! u") auto
qed

interpretation ts: rw_monitor tsync_reach tsync_step may_write may_read
proof
  show "tsync_reach x \<Longrightarrow> tsync_step x y \<Longrightarrow> tsync_reach y" for x y by (rule tsync_reach_step)
  show "\<not> may_read x u \<and> \<not> may_write x u" if "tsync_reach x" "may_write x t" "u \<noteq> t" for x t u
  proof (cases "u < length (pc x)")
    case True
    have "pc x ! t = RunW \<or> pc x ! t = Shut" "t < length (pc x)" using that(2) by (auto simp: may_write_def)
    then show ?thesis
      using alone_RunW [OF tsync_reach_inv [OF that(1)], of t u] alone_Shut [OF tsync_reach_inv [OF that(1)], of t u]
        True that(3) by (auto simp: may_read_def may_write_def)
  qed (auto simp: may_read_def may_write_def)
qed (auto simp: may_read_def may_write_def)

lemma reach_start: "tsync_reach (tsync_start n)"
  unfolding tsync_reach_def by blast

lemma contended_reach: "tsync_reach contended"
proof -
  let ?s = "\<lparr>being_shutdown = 0, readers = 1, writers = 0, running_readers = 1, running_writers = 0\<rparr>"
  have "tsync_step (tsync_start 2) \<lparr>sync = ?s, pc = [RunR, Idle]\<rparr>"
    using enter_r [of 0 "[Idle, Idle]" tsync_init Entered ?s]
    by (simp add: tsync_start_def tsync_init_def tsync_op_defs numeral_2_eq_2)
  moreover have "tsync_step \<lparr>sync = ?s, pc = [RunR, Idle]\<rparr> contended"
    using enter_w [of 1 "[RunR, Idle]" ?s Blocked "sync contended"]
    by (simp add: tsync_op_defs contended_def)
  ultimately show ?thesis using reach_start tsync_reach_step by blast
qed

lemma closed_reach: "tsync_reach closed"
proof -
  have "tsync_step (tsync_start 2) closed"
    using enter_s [of 0 "[Idle, Idle]" tsync_init Entered "sync closed"]
    by (simp add: tsync_start_def tsync_init_def tsync_op_defs closed_def numeral_2_eq_2)
  then show ?thesis using reach_start tsync_reach_step by blast
qed

section \<open>Properties\<close>

text \<open>
  C1: readers-writers exclusion with synchronised shutdown.  In every reachable state of any
  number of threads, a thread in its write region excludes all other readers and writers,
  a completed shutdown leaves every other thread outside, and the counters of the structure
  are the numbers of threads that wait or run.
\<close>

theorem tsync_exclusion:
  assumes "tsync_reach x" "t < length (pc x)" "u < length (pc x)" "t \<noteq> u"
  shows "(pc x ! t = RunW \<longrightarrow> pc x ! u \<noteq> RunR \<and> pc x ! u \<noteq> RunW \<and> pc x ! u \<noteq> Shut) \<and>
    (pc x ! t = Shut \<longrightarrow> pc x ! u = Idle) \<and>
    running_writers (sync x) = cnt RunW (pc x) \<and> running_readers (sync x) = cnt RunR (pc x) \<and>
    readers (sync x) = cnt (WaitR False) (pc x) + cnt (WaitR True) (pc x) + cnt RunR (pc x) \<and>
    writers (sync x) = cnt (WaitW False) (pc x) + cnt (WaitW True) (pc x) + cnt RunW (pc x)"
proof -
  note i = tsync_reach_inv [OF assms(1)]
  have "sync x = fields_of (\<lambda>p. cnt p (pc x))" using i by (simp add: tsync_inv_def Let_def)
  then show ?thesis using alone_RunW [OF i assms(2-4)] alone_Shut [OF i assms(2-4)] by (simp add: fields_of_def)
qed

theorem tsync_exclusion_witness: "pc closed ! 1 = Idle \<and> writers (sync closed) = 0"
  using tsync_exclusion [OF closed_reach, of 0 1] by (simp add: closed_def)



text \<open>
  C7: no wakeup is lost.  Whenever some thread sleeps in one of the three wait loops, another
  thread is inside a region and will leave it, or some thread has been woken and enters as
  soon as it gets the mutex; so the monitor never deadlocks, even without spurious wakeups.
\<close>

theorem tsync_no_lost_wakeup:
  assumes "tsync_reach x" "t < length (pc x)" "pc x ! t \<in> {WaitR b, WaitW b, WaitS b}"
  shows "\<exists>u < length (pc x). pc x ! u = RunR \<or> pc x ! u = RunW \<or>
     (pc x ! u = WaitW True \<and> fst (writer_wait (sync x)) = Entered) \<or>
     (pc x ! u = WaitR True \<and> fst (reader_wait (sync x)) = Entered) \<or>
     (pc x ! u = WaitS True \<and> fst (shutdown_wait (sync x)) = Entered)"
proof -
  define c where "c = (\<lambda>p. cnt p (pc x))"
  have ic: "inv_c (sync x) c" using tsync_reach_inv [OF assms(1)] by (simp add: tsync_inv_c c_def)
  note d = inv_cD [OF ic]
  have pos: "0 < c (pc x ! t)" using nth_cnt [OF assms(2)] by (simp add: c_def)
  have ex: "0 < c p \<Longrightarrow> \<exists>u < length (pc x). pc x ! u = p" for p by (simp only: c_def cnt_pos)
  consider "0 < c RunR" | "0 < c RunW" | "c RunR = 0" "c RunW = 0" "0 < c (WaitW True)"
    | "c RunR = 0" "c RunW = 0" "c (WaitW True) = 0" using d(4-) by force
  then show ?thesis
  proof cases
    case 3
    then have "fst (writer_wait (sync x)) = Entered" by (simp add: d(1) writer_wait_def fields_of_def)
    then show ?thesis using ex [OF 3(3)] by blast
  next
    case 4
    then have w0: "c (WaitW False) = 0" using d(3,9) by (auto simp: live_def)
    then have rf: "c (WaitR False) = 0" using d(3) 4 by (auto simp: live_def fields_of_def)
    show ?thesis
    proof (cases "0 < c (WaitR True)")
      case True
      have "fst (reader_wait (sync x)) = Entered" using 4 w0 by (simp add: d(1) reader_wait_def fields_of_def)
      then show ?thesis using ex [OF True] by blast
    next
      case False
      have e: "fst (shutdown_wait (sync x)) = Entered"
        using 4 w0 rf False by (simp add: d(1) shutdown_wait_def fields_of_def)
      have "c (WaitS False) = 0" using d(3) 4 w0 rf False by (auto simp: live_def fields_of_def)
      then have "0 < c (WaitS True)"
        using pos assms(3) 4 w0 rf False by (cases b) auto
      then show ?thesis using ex e by blast
    qed
  qed (use ex in blast)+
qed

theorem tsync_no_lost_wakeup_witness:
  "\<exists>u < 2. pc contended ! u = RunR \<or> pc contended ! u = RunW \<or>
     (pc contended ! u = WaitW True \<and> fst (writer_wait (sync contended)) = Entered) \<or>
     (pc contended ! u = WaitR True \<and> fst (reader_wait (sync contended)) = Entered) \<or>
     (pc contended ! u = WaitS True \<and> fst (shutdown_wait (sync contended)) = Entered)"
proof -
  have "length (pc contended) = 2" "pc contended ! 1 \<in> {WaitR False, WaitW False, WaitS False}"
    by (simp_all add: contended_def)
  then show ?thesis using tsync_no_lost_wakeup [OF contended_reach, of 1 False] by simp
qed

text \<open>
  C15: shutdown is exclusive and final.  Once a thread has returned 0 from
  \<open>tsync_shutdown_entry\<close>, and until it revokes, every entry call of another thread is
  refused, a second shutdown included.
\<close>

theorem tsync_shut_refuses:
  assumes "tsync_reach x" "t < length (pc x)" "pc x ! t = Shut"
  shows "tsync_writer_entry (sync x) = (Refused, sync x) \<and> tsync_reader_entry (sync x) = (Refused, sync x) \<and>
     tsync_shutdown_entry (sync x) = (Refused, sync x)"
proof -
  have ic: "inv_c (sync x) (\<lambda>p. cnt p (pc x))" using tsync_reach_inv [OF assms(1)] by (simp add: tsync_inv_c)
  have "0 < cnt Shut (pc x)" using nth_cnt [OF assms(2)] assms(3) by simp
  then have "being_shutdown (sync x) = 1"
    using inv_cD(1,2,11,12) [OF ic] by (simp add: safe_def fields_of_def)
  then show ?thesis by (simp add: tsync_op_defs)
qed

theorem tsync_shut_refuses_witness: "tsync_reader_entry (sync closed) = (Refused, sync closed)"
  using tsync_shut_refuses [OF closed_reach, of 0] by (simp add: closed_def)

end
