(* ===== verification/Obix_Ptask.thy ===== *)
theory Obix_Ptask
  imports Obix_Strings
begin

text \<open>
  The periodic task queue of \<open>src/src/libs/ptask.c\<close>.

  The doubly linked queue of a worker thread is a list of task descriptors; a pointer to a
  descriptor is its ID, which is never reused, so an access to a freed descriptor is a
  lookup that fails and the whole step is \<open>None\<close>.  All calls run under \<open>taskListMutex\<close>;
  the worker thread is cut at the points where it releases it: waiting for the deadline of
  the head, and running a payload.  \<open>now\<close> is the clock read inside a call, \<open>ok\<close> whether
  \<open>malloc\<close> succeeds.  Times are in range for \<open>time_t\<close>, IDs for \<open>int\<close>.
\<close>

section \<open>Times\<close>

definition timespec_fromMillis :: "int \<Rightarrow> timespec" where
  "timespec_fromMillis millis = \<lparr>tv_sec = c_div millis 1000, tv_nsec = c_mod millis 1000 * 1000000\<rparr>"

definition timespec_add :: "timespec \<Rightarrow> timespec \<Rightarrow> int \<times> timespec" where
  "timespec_add t1 t2 =
     (let newNano = tv_nsec t1 + tv_nsec t2;
          s = tv_sec t1 + (tv_sec t2 + c_div newNano 1000000000);
          n = c_mod newNano 1000000000;
          (s, n) = (if n < 0 \<and> s > 0 then (s - 1, 1000000000 + n)
                    else if s < 0 \<and> n > 0 then (s + 1, n - 1000000000) else (s, n))
      in (if s \<ge> 0 \<and> n \<ge> 0 then 1 else - 1, \<lparr>tv_sec = s, tv_nsec = n\<rparr>))"

definition timespec_cmp :: "timespec \<Rightarrow> timespec \<Rightarrow> int" where
  "timespec_cmp t1 t2 =
     (if tv_sec t1 > tv_sec t2 then 1
      else if tv_sec t1 < tv_sec t2 then - 1
      else if tv_nsec t1 > tv_nsec t2 then 1
      else if tv_nsec t1 < tv_nsec t2 then - 1
      else 0)"

section \<open>Tasks and the queue\<close>

datatype payload = Stop_Task | User_Task nat

record ptask =
  pt_id :: int
  pt_period :: timespec
  pt_next :: timespec
  executeTimes :: int
  pt_task :: payload
  isCancelled :: bool
  isExecuting :: bool

datatype worker = W_idle | W_timed int | W_running int | W_exited

record task_thread =
  id_gen :: int
  taskList :: "ptask list"
  tt_worker :: worker

definition EXECUTE_INDEFINITE :: int where
  "EXECUTE_INDEFINITE = - 1"

definition periodicTask_get :: "task_thread \<Rightarrow> int \<Rightarrow> ptask option" where
  "periodicTask_get th tid = find (\<lambda>p. pt_id p = tid) (taskList th)"

text \<open>What an update through a pointer does to the descriptor in the queue.\<close>

definition set_task :: "task_thread \<Rightarrow> ptask \<Rightarrow> task_thread" where
  "set_task th p = th\<lparr>taskList := map (\<lambda>q. if pt_id q = pt_id p then p else q) (taskList th)\<rparr>"

definition periodicTask_removeFromList :: "task_thread \<Rightarrow> int \<Rightarrow> task_thread" where
  "periodicTask_removeFromList th tid = th\<lparr>taskList := filter (\<lambda>q. pt_id q \<noteq> tid) (taskList th)\<rparr>"

text \<open>The search for a position: from \<open>next\<close> on, past every task that is due earlier.\<close>

fun insert_task :: "ptask \<Rightarrow> ptask list \<Rightarrow> ptask list" where
  "insert_task p [] = [p]"
| "insert_task p (q # qs) =
     (if timespec_cmp (pt_next p) (pt_next q) = 1 then q # insert_task p qs else p # q # qs)"

text \<open>The queue split at a task: what is before it and what is after it.\<close>

fun split_at :: "int \<Rightarrow> ptask list \<Rightarrow> ptask list \<times> ptask list" where
  "split_at tid [] = ([], [])"
| "split_at tid (q # qs) =
     (if pt_id q = tid then ([], qs) else let (a, b) = split_at tid qs in (q # a, b))"

definition generateNextExecTime :: "task_thread \<Rightarrow> ptask \<Rightarrow> bool \<Rightarrow> task_thread" where
  "generateNextExecTime th p0 newly_created =
     (let p = p0\<lparr>pt_next := snd (timespec_add (pt_next p0) (pt_period p0))\<rparr> in
      if newly_created then th\<lparr>taskList := insert_task p (taskList th)\<rparr>
      else let (before, rest) = split_at (pt_id p) (taskList th) in
           if before = [] \<and> rest = [] then set_task th p
           else th\<lparr>taskList := before @ insert_task p rest\<rparr>)"

definition periodicTask_setPeriod :: "ptask \<Rightarrow> int \<Rightarrow> int \<Rightarrow> ptask" where
  "periodicTask_setPeriod p period runs =
     p\<lparr>pt_period := timespec_fromMillis period, executeTimes := runs\<rparr>"

definition periodicTask_resetExecTime :: "timespec \<Rightarrow> task_thread \<Rightarrow> ptask \<Rightarrow> bool \<Rightarrow> task_thread" where
  "periodicTask_resetExecTime now th p newly_created =
     generateNextExecTime th (p\<lparr>pt_next := now\<rparr>) newly_created"

definition periodicTask_create ::
  "bool \<Rightarrow> timespec \<Rightarrow> task_thread \<Rightarrow> payload \<Rightarrow> int \<Rightarrow> int \<Rightarrow> (int \<times> task_thread) option" where
  "periodicTask_create ok now th task period runs =
     (if \<not> ok then None
      else let p = \<lparr>pt_id = id_gen th, pt_period = \<lparr>tv_sec = 0, tv_nsec = 0\<rparr>,
                    pt_next = \<lparr>tv_sec = 0, tv_nsec = 0\<rparr>, executeTimes = 0, pt_task = task,
                    isCancelled = False, isExecuting = False\<rparr>;
               th' = th\<lparr>id_gen := id_gen th + 1\<rparr>
           in Some (pt_id p, periodicTask_resetExecTime now th' (periodicTask_setPeriod p period runs) True))"

section \<open>The calls\<close>

definition ptask_init :: "bool \<Rightarrow> task_thread option" where
  "ptask_init ok = (if ok then Some \<lparr>id_gen = 1, taskList = [], tt_worker = W_idle\<rparr> else None)"

definition ptask_schedule ::
  "bool \<Rightarrow> timespec \<Rightarrow> task_thread \<Rightarrow> payload \<Rightarrow> int \<Rightarrow> int \<Rightarrow> int \<times> task_thread" where
  "ptask_schedule ok now th task period runs =
     (if runs \<le> 0 \<and> runs \<noteq> EXECUTE_INDEFINITE then (- 1, th)
      else case periodicTask_create ok now th task period runs of
             None \<Rightarrow> (- 1, th)
           | Some (tid, th') \<Rightarrow> (if task = Stop_Task then 1 else tid, th'))"

definition ptask_reschedule ::
  "timespec \<Rightarrow> task_thread \<Rightarrow> int \<Rightarrow> int \<Rightarrow> int \<Rightarrow> int \<Rightarrow> int \<times> task_thread" where
  "ptask_reschedule now th tid period runs add =
     (if runs = 0 then (- 1, th)
      else case periodicTask_get th tid of
        None \<Rightarrow> (- 1, th)
      | Some p \<Rightarrow>
          if add = 1 then
            let addTime = timespec_fromMillis period; (v, temp) = timespec_add (pt_period p) addTime in
            if v < 0 then (- 1, th)
            else (0, set_task th (p\<lparr>pt_period := temp,
                       pt_next := snd (timespec_add (pt_next p) addTime), executeTimes := runs\<rparr>))
          else if period < 0 then (- 1, th)
          else (0, periodicTask_resetExecTime now th (periodicTask_setPeriod p period runs) False))"

definition ptask_reset :: "timespec \<Rightarrow> task_thread \<Rightarrow> int \<Rightarrow> int \<times> task_thread" where
  "ptask_reset now th tid =
     (case periodicTask_get th tid of
        None \<Rightarrow> (- 1, th)
      | Some p \<Rightarrow> (0, periodicTask_resetExecTime now th p False))"

text \<open>
  \<open>ptask_cancel\<close>: \<open>None\<close> as the return value means that the caller sleeps on
  \<open>taskExecuted\<close>; \<open>cancel_wait\<close> is its loop, run again after every wakeup.
\<close>

definition cancel_wait :: "task_thread \<Rightarrow> int \<Rightarrow> int \<Rightarrow> (int option \<times> task_thread) option" where
  "cancel_wait th tid wait =
     (case periodicTask_get th tid of
        None \<Rightarrow> None
      | Some p \<Rightarrow> if isExecuting p \<and> wait = 1 then Some (None, th)
                  else Some (Some 0, periodicTask_removeFromList th tid))"

definition ptask_cancel :: "task_thread \<Rightarrow> int \<Rightarrow> int \<Rightarrow> (int option \<times> task_thread) option" where
  "ptask_cancel th tid wait =
     (case periodicTask_get th tid of
        None \<Rightarrow> Some (Some (- 1), th)
      | Some p \<Rightarrow> if isCancelled p then Some (Some 0, th)
                  else cancel_wait (set_task th (p\<lparr>isCancelled := True\<rparr>)) tid wait)"

section \<open>The worker thread\<close>

text \<open>
  \<open>threadCycle\<close> and \<open>__periodicTask_execute\<close>: it picks the head and sleeps until its
  deadline (\<open>worker_pick\<close>); \<open>worker_wakeup\<close> is a return value 0 of the timed wait,
  \<open>worker_timeout\<close> one of \<open>ETIMEDOUT\<close> or \<open>EINVAL\<close>, after which the payload of the task
  picked before the wait runs without the mutex; \<open>worker_finish\<close> is the rest of the
  execution.  The stop task empties the queue and ends the thread.
\<close>

definition worker_pick :: "task_thread \<Rightarrow> task_thread" where
  "worker_pick th =
     (if tt_worker th \<noteq> W_idle then th
      else case taskList th of [] \<Rightarrow> th | p # _ \<Rightarrow> th\<lparr>tt_worker := W_timed (pt_id p)\<rparr>)"

definition worker_wakeup :: "task_thread \<Rightarrow> task_thread" where
  "worker_wakeup th = (case tt_worker th of W_timed _ \<Rightarrow> th\<lparr>tt_worker := W_idle\<rparr> | _ \<Rightarrow> th)"

definition worker_timeout :: "task_thread \<Rightarrow> task_thread option" where
  "worker_timeout th =
     (case tt_worker th of
        W_timed tid \<Rightarrow>
          (case periodicTask_get th tid of
             None \<Rightarrow> None
           | Some p \<Rightarrow>
               if pt_task p = Stop_Task then Some (th\<lparr>taskList := [], tt_worker := W_exited\<rparr>)
               else Some ((set_task th (p\<lparr>isExecuting := True\<rparr>))\<lparr>tt_worker := W_running tid\<rparr>))
      | _ \<Rightarrow> Some th)"

definition worker_finish :: "task_thread \<Rightarrow> task_thread option" where
  "worker_finish th =
     (case tt_worker th of
        W_running tid \<Rightarrow>
          (case periodicTask_get th tid of
             None \<Rightarrow> None
           | Some p \<Rightarrow>
               let th = th\<lparr>tt_worker := W_idle\<rparr> in
               if isCancelled p then Some th
               else let p = p\<lparr>isExecuting := False\<rparr> in
                    if executeTimes p \<noteq> EXECUTE_INDEFINITE then
                      let p = p\<lparr>executeTimes := executeTimes p - 1\<rparr> in
                      if executeTimes p = 0 then Some (periodicTask_removeFromList th tid)
                      else Some (generateNextExecTime th p False)
                    else Some (generateNextExecTime th p False))
      | _ \<Rightarrow> Some th)"

section \<open>obix_task\<close>

record obix_task =
  ot_initialised :: int
  ot_id :: int
  ot_func :: payload
  ot_period :: int
  ot_times :: int

text \<open>
  The descriptor carries its worker thread (\<open>task->t\<close>) as the second component, \<open>None\<close>
  for a NULL pointer.
\<close>

definition obix_setup_task ::
  "bool \<Rightarrow> obix_task \<times> task_thread option \<Rightarrow> task_thread option \<Rightarrow> payload \<Rightarrow> int \<Rightarrow> int \<Rightarrow>
    int \<times> obix_task \<times> task_thread option" where
  "obix_setup_task ok = (\<lambda>(task, t0) t func period runs.
     if ot_initialised task = 1 then (0, task, t0)
     else case (case t of None \<Rightarrow> ptask_init ok | Some th \<Rightarrow> Some th) of
            None \<Rightarrow> (- 1, task, None)
          | Some th \<Rightarrow> (0, \<lparr>ot_initialised = 1, ot_id = 0, ot_func = func, ot_period = period,
                           ot_times = runs\<rparr>, Some th))"

definition obix_schedule_task ::
  "bool \<Rightarrow> timespec \<Rightarrow> obix_task \<times> task_thread option \<Rightarrow> int \<times> obix_task \<times> task_thread option" where
  "obix_schedule_task ok now = (\<lambda>(task, t).
     case t of
       None \<Rightarrow> (- 1, task, t)
     | Some th \<Rightarrow>
         if ot_initialised task = 0 then (- 1, task, t)
         else let (r, th') = ptask_schedule ok now th (ot_func task) (ot_period task) (ot_times task)
              in (if r < 0 then - 1 else 0, task\<lparr>ot_id := r\<rparr>, Some th'))"

definition obix_reset_task :: "timespec \<Rightarrow> obix_task \<times> task_thread \<Rightarrow> int \<times> task_thread" where
  "obix_reset_task now = (\<lambda>(task, th).
     if ot_initialised task = 0 \<or> ot_id task < 0 then (- 1, th) else ptask_reset now th (ot_id task))"

text \<open>It returns nothing: \<open>Some 0\<close> stands for having returned.\<close>

definition obix_cancel_task ::
  "obix_task \<times> task_thread option \<Rightarrow> (int option \<times> task_thread option) option" where
  "obix_cancel_task = (\<lambda>(task, t).
     case t of
       None \<Rightarrow> Some (Some 0, None)
     | Some th \<Rightarrow>
         if ot_initialised task = 1 then map_option (\<lambda>(r, th'). (map_option (\<lambda>_. 0) r, Some th')) (ptask_cancel th (ot_id task) 1)
         else Some (Some 0, t))"

text \<open>\<open>ptask_dispose\<close> up to joining the worker thread.\<close>

definition ptask_dispose :: "bool \<Rightarrow> timespec \<Rightarrow> task_thread \<Rightarrow> int \<times> task_thread" where
  "ptask_dispose ok now th =
     (let (e, th') = ptask_schedule ok now th Stop_Task 0 1 in (if e \<le> 0 then e else 0, th'))"

section \<open>Runs\<close>

text \<open>
  Any interleaving of client calls and worker steps.  A step carries the time it happens
  at; \<open>Do_Timeout\<close> is the expiry of the deadline the worker waits for.
\<close>

datatype pt_op =
    Do_Schedule bool payload int int
  | Do_Reset int
  | Do_Reschedule int int int int
  | Do_Cancel int int
  | Do_Cancel_Retry int int
  | Do_Pick
  | Do_Wakeup
  | Do_Timeout
  | Do_Finish

fun pt_do :: "timespec \<Rightarrow> pt_op \<Rightarrow> task_thread \<Rightarrow> task_thread option" where
  "pt_do now (Do_Schedule ok task period runs) th = Some (snd (ptask_schedule ok now th task period runs))"
| "pt_do now (Do_Reset tid) th = Some (snd (ptask_reset now th tid))"
| "pt_do now (Do_Reschedule tid period runs add) th = Some (snd (ptask_reschedule now th tid period runs add))"
| "pt_do now (Do_Cancel tid wait) th = map_option snd (ptask_cancel th tid wait)"
| "pt_do now (Do_Cancel_Retry tid wait) th = map_option snd (cancel_wait th tid wait)"
| "pt_do now Do_Pick th = Some (worker_pick th)"
| "pt_do now Do_Wakeup th = Some (worker_wakeup th)"
| "pt_do now Do_Timeout th = worker_timeout th"
| "pt_do now Do_Finish th = worker_finish th"

fun pt_run :: "task_thread \<Rightarrow> (timespec \<times> pt_op) list \<Rightarrow> task_thread option" where
  "pt_run th [] = Some th"
| "pt_run th ((now, oper) # ops) = (case pt_do now oper th of None \<Rightarrow> None | Some th' \<Rightarrow> pt_run th' ops)"

definition ts_ns :: "timespec \<Rightarrow> int" where
  "ts_ns t = tv_sec t * 1000000000 + tv_nsec t"

definition ts_ok :: "timespec \<Rightarrow> bool" where
  "ts_ok t \<longleftrightarrow> 0 \<le> tv_sec t \<and> 0 \<le> tv_nsec t \<and> tv_nsec t < 1000000000"

text \<open>
  The queue invariant: distinct IDs below the generator, valid times, the queue sorted by
  deadline, and no deadline more than one period ahead of the clock.
\<close>

definition uniq :: "task_thread \<Rightarrow> bool" where
  "uniq th \<longleftrightarrow> distinct (map pt_id (taskList th)) \<and> (\<forall>p \<in> set (taskList th). pt_id p < id_gen th)"

definition due_sorted :: "ptask list \<Rightarrow> bool" where
  "due_sorted ps \<longleftrightarrow> sorted (map (\<lambda>p. ts_ns (pt_next p)) ps)"

definition task_ok :: "timespec \<Rightarrow> ptask \<Rightarrow> bool" where
  "task_ok now p \<longleftrightarrow> ts_ok (pt_period p) \<and> ts_ok (pt_next p) \<and>
     ts_ns (pt_next p) \<le> ts_ns now + ts_ns (pt_period p)"

definition running_ok :: "timespec \<Rightarrow> task_thread \<Rightarrow> bool" where
  "running_ok now th \<longleftrightarrow> (\<forall>p \<in> set (taskList th). tt_worker th = W_running (pt_id p) \<longrightarrow>
       ts_ns (pt_next p) \<le> ts_ns now \<or> executeTimes p = 1) \<and>
     (case tt_worker th of W_running t \<Rightarrow> t < id_gen th | W_timed t \<Rightarrow> t < id_gen th | _ \<Rightarrow> True)"

definition pt_inv :: "timespec \<Rightarrow> task_thread \<Rightarrow> bool" where
  "pt_inv now th \<longleftrightarrow> uniq th \<and> due_sorted (taskList th) \<and> (\<forall>p \<in> set (taskList th). task_ok now p) \<and>
     running_ok now th"

text \<open>
  How the queue is used: periods are not negative, the timed wait only expires at the
  deadline, the running task is reset only if this is its last run, and periods are not
  changed.
\<close>

fun step_ok :: "timespec \<Rightarrow> task_thread \<Rightarrow> pt_op \<Rightarrow> bool" where
  "step_ok now th (Do_Schedule _ _ period _) = (0 \<le> period)"
| "step_ok now th (Do_Reset tid) =
     (tt_worker th \<noteq> W_running tid \<or> (\<forall>p \<in> set (taskList th). pt_id p = tid \<longrightarrow> executeTimes p = 1))"
| "step_ok now th (Do_Reschedule _ _ _ _) = False"
| "step_ok now th Do_Timeout =
     (case tt_worker th of
        W_timed tid \<Rightarrow> \<forall>p \<in> set (taskList th). pt_id p = tid \<longrightarrow> ts_ns (pt_next p) \<le> ts_ns now
      | _ \<Rightarrow> True)"
| "step_ok now th _ = True"

fun run_ok :: "timespec \<Rightarrow> task_thread \<Rightarrow> (timespec \<times> pt_op) list \<Rightarrow> bool" where
  "run_ok prev th [] = True"
| "run_ok prev th ((now, oper) # ops) =
     (ts_ok now \<and> ts_ns prev \<le> ts_ns now \<and> step_ok now th oper \<and>
      (case pt_do now oper th of None \<Rightarrow> True | Some th' \<Rightarrow> run_ok now th' ops))"

fun run_end :: "timespec \<Rightarrow> (timespec \<times> pt_op) list \<Rightarrow> timespec" where
  "run_end prev [] = prev"
| "run_end prev ((now, oper) # ops) = run_end now ops"

text \<open>The descriptor a schedule call puts into the queue.\<close>

definition new_task :: "timespec \<Rightarrow> task_thread \<Rightarrow> payload \<Rightarrow> int \<Rightarrow> int \<Rightarrow> ptask" where
  "new_task now th task period runs = \<lparr>pt_id = id_gen th, pt_period = timespec_fromMillis period,
     pt_next = snd (timespec_add now (timespec_fromMillis period)), executeTimes = runs, pt_task = task,
     isCancelled = False, isExecuting = False\<rparr>"

section \<open>A cancelled task that is executing\<close>

text \<open>
  The state in which a canceller waits: the task is in the queue, executing and cancelled.
  No stop task is queued.
\<close>

definition hung :: "int \<Rightarrow> task_thread \<Rightarrow> bool" where
  "hung tid th \<longleftrightarrow> uniq th \<and> (\<forall>p \<in> set (taskList th). pt_task p \<noteq> Stop_Task) \<and>
     (\<exists>p \<in> set (taskList th). pt_id p = tid \<and> isExecuting p \<and> isCancelled p)"

fun keeps_thread :: "int \<Rightarrow> pt_op \<Rightarrow> bool" where
  "keeps_thread tid (Do_Schedule _ task _ _) = (task \<noteq> Stop_Task)"
| "keeps_thread tid (Do_Cancel_Retry t wait) = (t = tid \<longrightarrow> wait = 1)"
| "keeps_thread tid _ = True"

section \<open>Rounds of the worker thread\<close>

definition round_ops :: "timespec \<Rightarrow> (timespec \<times> pt_op) list" where
  "round_ops now = [(now, Do_Pick), (now, Do_Timeout), (now, Do_Finish)]"

fun rounds :: "timespec list \<Rightarrow> (timespec \<times> pt_op) list" where
  "rounds [] = []"
| "rounds (now # ts) = round_ops now @ rounds ts"

definition busy :: task_thread where
  "busy = \<lparr>id_gen = 2, taskList = [\<lparr>pt_id = 1, pt_period = \<lparr>tv_sec = 1, tv_nsec = 0\<rparr>,
        pt_next = \<lparr>tv_sec = 3, tv_nsec = 0\<rparr>, executeTimes = 3, pt_task = User_Task 0, isCancelled = False,
        isExecuting = True\<rparr>], tt_worker = W_running 1\<rparr>"

section \<open>Times\<close>

lemma timespec_add_ok:
  assumes "ts_ok a" "ts_ok b"
  shows "ts_ok (snd (timespec_add a b))" "ts_ns (snd (timespec_add a b)) = ts_ns a + ts_ns b"
    "fst (timespec_add a b) = 1"
proof -
  let ?n = "tv_nsec a + tv_nsec b"
  have n: "0 \<le> ?n" using assms by (simp add: ts_ok_def)
  have d: "c_div ?n 1000000000 = ?n div 1000000000" "c_mod ?n 1000000000 = ?n mod 1000000000"
    using n by (simp_all add: c_div_nonneg c_mod_nonneg)
  have "0 \<le> ?n div 1000000000" using n by (simp add: pos_imp_zdiv_nonneg_iff)
  then have s: "0 \<le> tv_sec a + (tv_sec b + ?n div 1000000000)" using assms by (simp add: ts_ok_def)
  have e: "timespec_add a b = (1, \<lparr>tv_sec = tv_sec a + (tv_sec b + ?n div 1000000000), tv_nsec = ?n mod 1000000000\<rparr>)"
    using s by (simp add: timespec_add_def d Let_def not_less)
  show "ts_ok (snd (timespec_add a b))" using s by (simp add: e ts_ok_def)
  show "fst (timespec_add a b) = 1" by (simp add: e)
  show "ts_ns (snd (timespec_add a b)) = ts_ns a + ts_ns b"
    by (simp add: e ts_ns_def ring_distribs)
qed

lemma timespec_cmp_ns:
  assumes "ts_ok a" "ts_ok b"
  shows "timespec_cmp a b = 1 \<longleftrightarrow> ts_ns b < ts_ns a"
  using assms by (auto simp: timespec_cmp_def ts_ok_def ts_ns_def)

lemma fromMillis_ok:
  assumes "0 \<le> m"
  shows "ts_ok (timespec_fromMillis m)" "ts_ns (timespec_fromMillis m) = m * 1000000"
proof -
  have d: "c_div m 1000 = m div 1000" "c_mod m 1000 = m mod 1000"
    using assms by (simp_all add: c_div_nonneg c_mod_nonneg)
  have "0 \<le> m div 1000" using assms by (simp add: pos_imp_zdiv_nonneg_iff)
  moreover have "0 \<le> m mod 1000" "m mod 1000 < 1000" by simp_all
  ultimately show "ts_ok (timespec_fromMillis m)" by (simp add: ts_ok_def timespec_fromMillis_def d)
  show "ts_ns (timespec_fromMillis m) = m * 1000000"
    unfolding ts_ns_def timespec_fromMillis_def timespec.simps d using div_mult_mod_eq [of m 1000] by linarith
qed

section \<open>The queue operations\<close>

lemma insert_task_set [simp]: "set (insert_task p qs) = insert p (set qs)"
  by (induction qs) auto

lemma insert_task_ids: "distinct (map pt_id qs) \<Longrightarrow> pt_id p \<notin> pt_id ` set qs \<Longrightarrow> distinct (map pt_id (insert_task p qs))"
  by (induction qs) auto

lemma insert_task_sorted:
  assumes "due_sorted qs" "ts_ok (pt_next p)" "\<forall>q \<in> set qs. ts_ok (pt_next q)"
  shows "due_sorted (insert_task p qs)"
  using assms by (induction qs) (auto simp: due_sorted_def timespec_cmp_ns)

lemma split_at_append: "pt_id p \<notin> pt_id ` set a \<Longrightarrow> split_at (pt_id p) (a @ p # b) = (a, b)"
  by (induction a) auto

lemma get_Some:
  assumes "uniq th"
  shows "periodicTask_get th tid = Some p \<longleftrightarrow> p \<in> set (taskList th) \<and> pt_id p = tid"
proof -
  have "distinct (map pt_id xs) \<Longrightarrow> find (\<lambda>p. pt_id p = tid) xs = Some p \<longleftrightarrow> p \<in> set xs \<and> pt_id p = tid" for xs
    by (induction xs) (auto simp: image_iff)
  then show ?thesis using assms by (simp add: uniq_def periodicTask_get_def)
qed

lemma set_task_list:
  assumes "uniq th" "taskList th = a @ q # b" "pt_id q = pt_id p"
  shows "taskList (set_task th p) = a @ p # b"
proof -
  have "pt_id r \<noteq> pt_id p" if "r \<in> set a \<union> set b" for r using that assms by (auto simp: uniq_def image_iff)
  then have "map (\<lambda>q. if pt_id q = pt_id p then p else q) a = a" "map (\<lambda>q. if pt_id q = pt_id p then p else q) b = b"
    by (auto intro: map_idI)
  then show ?thesis using assms by (simp add: set_task_def)
qed

lemma generate_list:
  assumes u: "uniq th" and l: "taskList th = a @ q # b" and i: "pt_id q = pt_id p"
  shows "taskList (generateNextExecTime th p False) =
           a @ insert_task (p\<lparr>pt_next := snd (timespec_add (pt_next p) (pt_period p))\<rparr>) b"
    "id_gen (generateNextExecTime th p False) = id_gen th"
    "tt_worker (generateNextExecTime th p False) = tt_worker th"
proof -
  let ?p = "p\<lparr>pt_next := snd (timespec_add (pt_next p) (pt_period p))\<rparr>"
  have "pt_id q \<notin> pt_id ` set a" using u l by (auto simp: uniq_def)
  then have sp: "split_at (pt_id p) (taskList th) = (a, b)" using split_at_append [of q a b] l i by simp
  have st: "taskList (set_task th ?p) = a @ ?p # b" using set_task_list [OF u l, of ?p] i by simp
  show "taskList (generateNextExecTime th p False) = a @ insert_task ?p b"
    using sp st by (auto simp: generateNextExecTime_def Let_def)
  show "id_gen (generateNextExecTime th p False) = id_gen th"
    "tt_worker (generateNextExecTime th p False) = tt_worker th"
    by (auto simp: generateNextExecTime_def Let_def set_task_def split: prod.splits)
qed

text \<open>Replacing a task by one with a deadline that is not earlier keeps the queue.\<close>

lemma requeue_uniq:
  assumes "uniq th" "taskList th = a @ q # b" "pt_id p = pt_id q" "taskList th' = a @ insert_task p b" "id_gen th' = id_gen th"
  shows "uniq th'"
  using assms insert_task_ids [of b p] by (auto simp: uniq_def)

lemma requeue_sorted:
  assumes "due_sorted (a @ q # b)" "ts_ns (pt_next q) \<le> ts_ns (pt_next p)" "ts_ok (pt_next p)" "\<forall>r \<in> set b. ts_ok (pt_next r)"
  shows "due_sorted (a @ insert_task p b)"
proof -
  have b: "due_sorted b" using assms(1) by (simp add: due_sorted_def sorted_append)
  have "due_sorted (insert_task p b)" by (rule insert_task_sorted [OF b assms(3,4)])
  then show ?thesis using assms(1,2) by (fastforce simp: due_sorted_def sorted_append)
qed

lemma task_ok_mono: "task_ok now p \<Longrightarrow> ts_ns now \<le> ts_ns now' \<Longrightarrow> task_ok now' p"
  by (auto simp: task_ok_def)

lemma pt_inv_mono: "pt_inv now th \<Longrightarrow> ts_ns now \<le> ts_ns now' \<Longrightarrow> pt_inv now' th"
  unfolding pt_inv_def running_ok_def using task_ok_mono by fastforce

text \<open>One lemma per operation.\<close>

lemma task_split:
  assumes "uniq th" "p \<in> set (taskList th)"
  obtains a b where "taskList th = a @ p # b" "\<forall>r \<in> set a \<union> set b. pt_id r \<noteq> pt_id p"
proof -
  obtain a b where l: "taskList th = a @ p # b" using assms(2) by (meson split_list)
  then have "\<forall>r \<in> set a \<union> set b. pt_id r \<noteq> pt_id p" using assms(1) by (auto simp: uniq_def image_iff)
  with l show ?thesis by (rule that)
qed

lemma schedule_cases:
  "snd (ptask_schedule ok now th task period runs) \<in>
     {th, th\<lparr>id_gen := id_gen th + 1, taskList := insert_task (new_task now th task period runs) (taskList th)\<rparr>}"
  by (auto simp: ptask_schedule_def periodicTask_create_def periodicTask_resetExecTime_def
      generateNextExecTime_def periodicTask_setPeriod_def new_task_def)

lemma schedule_inv:
  assumes i: "pt_inv now th" and n: "ts_ok now" and p: "0 \<le> period"
  shows "pt_inv now (snd (ptask_schedule ok now th task period runs))"
proof -
  define p where "p = new_task now th task period runs"
  note m = fromMillis_ok [OF p] timespec_add_ok [OF n fromMillis_ok(1) [OF p]]
  have ok: "task_ok now p" using m by (simp add: task_ok_def p_def new_task_def)
  let ?th = "th\<lparr>id_gen := id_gen th + 1, taskList := insert_task p (taskList th)\<rparr>"
  have "snd (ptask_schedule ok now th task period runs) \<in> {th, ?th}"
    unfolding p_def by (rule schedule_cases)
  moreover have "pt_inv now ?th"
    unfolding pt_inv_def
  proof (intro conjI)
    have "pt_id p \<notin> pt_id ` set (taskList th)" using i by (auto simp: pt_inv_def uniq_def p_def new_task_def)
    then show "uniq ?th" using i insert_task_ids [of "taskList th" p] by (auto simp: pt_inv_def uniq_def p_def new_task_def)
    show "due_sorted (taskList ?th)"
      using insert_task_sorted [of "taskList th" p] i ok by (simp add: pt_inv_def task_ok_def)
    show "\<forall>q \<in> set (taskList ?th). task_ok now q" using i ok by (simp add: pt_inv_def)
    show "running_ok now ?th" using i by (auto simp: pt_inv_def running_ok_def p_def new_task_def split: worker.splits)
  qed
  ultimately show ?thesis using i by auto
qed

text \<open>A task put back with a later deadline, everything else untouched.\<close>

lemma requeue_inv:
  assumes i: "pt_inv now th" and p: "p \<in> set (taskList th)"
    and q: "pt_id q = pt_id p" "ts_ok (pt_next q)" "ts_ok (pt_period q)"
      "ts_ns (pt_next p) \<le> ts_ns (pt_next q) + ts_ns (pt_period q)"
      "ts_ns (pt_next q) \<le> ts_ns now"
    and w: "running_ok now (generateNextExecTime th q False)"
  shows "pt_inv now (generateNextExecTime th q False)"
proof -
  have u: "uniq th" using i by (simp add: pt_inv_def)
  obtain a b where l: "taskList th = a @ p # b" using task_split [OF u p] by blast
  let ?q = "q\<lparr>pt_next := snd (timespec_add (pt_next q) (pt_period q))\<rparr>"
  note m = timespec_add_ok [OF q(2,3)]
  note g = generate_list [OF u l q(1) [symmetric]]
  have tok: "task_ok now ?q" using m q by (simp add: task_ok_def)
  show ?thesis
    unfolding pt_inv_def
  proof (intro conjI w)
    show "uniq (generateNextExecTime th q False)" by (rule requeue_uniq [OF u l _ g(1,2)]) (simp add: q(1))
    have "due_sorted (a @ p # b)" "\<forall>r \<in> set b. ts_ok (pt_next r)" using i l by (auto simp: pt_inv_def task_ok_def)
    then show "due_sorted (taskList (generateNextExecTime th q False))"
      unfolding g(1) by (intro requeue_sorted [where q = p]) (use m q in simp_all)
    show "\<forall>r \<in> set (taskList (generateNextExecTime th q False)). task_ok now r"
      using i l tok by (auto simp: g(1) pt_inv_def)
  qed
qed

lemma reset_inv:
  assumes i: "pt_inv now th" and n: "ts_ok now" and s: "step_ok now th (Do_Reset tid)"
  shows "pt_inv now (snd (ptask_reset now th tid))"
proof (cases "periodicTask_get th tid")
  case None
  then show ?thesis using i by (simp add: ptask_reset_def)
next
  case (Some p)
  have u: "uniq th" using i by (simp add: pt_inv_def)
  then have p: "p \<in> set (taskList th)" "pt_id p = tid" using get_Some [OF u] Some by auto
  obtain a b where l: "taskList th = a @ p # b" "\<forall>r \<in> set a \<union> set b. pt_id r \<noteq> pt_id p"
    using task_split [OF u p(1)] by blast
  have tok: "task_ok now p" using i p by (simp add: pt_inv_def)
  let ?q = "p\<lparr>pt_next := now\<rparr>"
  note g = generate_list [OF u l(1), of ?q]
  have "running_ok now (generateNextExecTime th ?q False)"
    using i l s p by (auto simp: running_ok_def g pt_inv_def split: worker.splits)
  then have "pt_inv now (generateNextExecTime th ?q False)"
    by (intro requeue_inv [OF i p(1)]) (use n tok in \<open>auto simp: task_ok_def\<close>)
  then show ?thesis using Some by (simp add: ptask_reset_def periodicTask_resetExecTime_def)
qed

lemma set_flags_inv:
  assumes i: "pt_inv now th" and p: "p \<in> set (taskList th)"
    and q: "pt_id q = pt_id p" "pt_next q = pt_next p" "pt_period q = pt_period p" "executeTimes q = executeTimes p"
  shows "pt_inv now (set_task th q)"
proof -
  have u: "uniq th" using i by (simp add: pt_inv_def)
  obtain a b where l: "taskList th = a @ p # b" using task_split [OF u p] by blast
  have s: "taskList (set_task th q) = a @ q # b" by (rule set_task_list [OF u l]) (simp add: q)
  have "id_gen (set_task th q) = id_gen th" "tt_worker (set_task th q) = tt_worker th" by (simp_all add: set_task_def)
  then show ?thesis using i l s q by (auto simp: pt_inv_def uniq_def due_sorted_def task_ok_def running_ok_def split: worker.splits)
qed

lemma remove_inv: "pt_inv now th \<Longrightarrow> pt_inv now (periodicTask_removeFromList th tid)"
  unfolding pt_inv_def uniq_def due_sorted_def running_ok_def periodicTask_removeFromList_def
  by (auto intro: sorted_filter simp: distinct_map_filter split: worker.splits)

lemma worker_inv: "pt_inv now th \<Longrightarrow> w = W_idle \<or> w = W_exited \<Longrightarrow> pt_inv now (th\<lparr>tt_worker := w\<rparr>)"
  by (auto simp: pt_inv_def uniq_def running_ok_def)

lemma cancel_inv:
  assumes i: "pt_inv now th" and c: "ptask_cancel th tid wait = Some (r, th')"
  shows "pt_inv now th'"
proof (cases "periodicTask_get th tid")
  case (Some p)
  then have p: "p \<in> set (taskList th)" using i get_Some by (auto simp: pt_inv_def)
  note s = set_flags_inv [OF i p, of "p\<lparr>isCancelled := True\<rparr>"]
  show ?thesis using c Some i s remove_inv [OF s]
    by (auto simp: ptask_cancel_def cancel_wait_def split: if_splits option.splits)
qed (use i c in \<open>simp add: ptask_cancel_def\<close>)

lemma cancel_wait_inv: "pt_inv now th \<Longrightarrow> cancel_wait th tid wait = Some (r, th') \<Longrightarrow> pt_inv now th'"
  by (auto simp: cancel_wait_def remove_inv split: if_splits option.splits)

lemma pick_inv: "pt_inv now th \<Longrightarrow> pt_inv now (worker_pick th)"
  by (auto simp: worker_pick_def pt_inv_def uniq_def running_ok_def due_sorted_def split: list.splits)

lemma wakeup_inv: "pt_inv now th \<Longrightarrow> pt_inv now (worker_wakeup th)"
  by (auto simp: worker_wakeup_def worker_inv split: worker.splits)

lemma timeout_inv:
  assumes i: "pt_inv now th" and s: "step_ok now th Do_Timeout" and t: "worker_timeout th = Some th'"
  shows "pt_inv now th'"
proof (cases "tt_worker th")
  case (W_timed tid)
  then obtain p where g: "periodicTask_get th tid = Some p" using t by (auto simp: worker_timeout_def split: option.splits)
  then have p: "p \<in> set (taskList th)" "pt_id p = tid" using i get_Some by (auto simp: pt_inv_def)
  let ?q = "p\<lparr>isExecuting := True\<rparr>"
  have q: "pt_inv now (set_task th ?q)" by (rule set_flags_inv [OF i p(1)]) simp_all
  have late: "ts_ns (pt_next p) \<le> ts_ns now" using s W_timed p by simp
  have u: "uniq th" using i by (simp add: pt_inv_def)
  have "\<forall>r \<in> set (taskList (set_task th ?q)). pt_id r = tid \<longrightarrow> ts_ns (pt_next r) \<le> ts_ns now"
    using late p by (auto simp: set_task_def)
  moreover have "tid < id_gen (set_task th ?q)" using u p by (auto simp: uniq_def set_task_def)
  ultimately have "pt_inv now ((set_task th ?q)\<lparr>tt_worker := W_running tid\<rparr>)"
    using q by (auto simp: pt_inv_def uniq_def running_ok_def)
  moreover have "pt_inv now (th\<lparr>taskList := [], tt_worker := W_exited\<rparr>)"
    by (simp add: pt_inv_def uniq_def due_sorted_def running_ok_def)
  ultimately show ?thesis using t W_timed g by (auto simp: worker_timeout_def split: if_splits)
qed (use t i in \<open>auto simp: worker_timeout_def\<close>)

lemma finish_inv:
  assumes i: "pt_inv now th" and t: "worker_finish th = Some th'"
  shows "pt_inv now th'"
proof (cases "tt_worker th")
  case (W_running tid)
  then obtain p where g: "periodicTask_get th tid = Some p" using t by (auto simp: worker_finish_def split: option.splits)
  then have p: "p \<in> set (taskList th)" "pt_id p = tid" using i get_Some by (auto simp: pt_inv_def)
  let ?th = "th\<lparr>tt_worker := W_idle\<rparr>"
  have i0: "pt_inv now ?th" by (rule worker_inv [OF i]) simp
  have late: "ts_ns (pt_next p) \<le> ts_ns now \<or> executeTimes p = 1"
    using i p W_running by (auto simp: pt_inv_def running_ok_def)
  have req: "pt_inv now (generateNextExecTime ?th (p\<lparr>isExecuting := False, executeTimes := n\<rparr>) False)"
    if "ts_ns (pt_next p) \<le> ts_ns now" for n
  proof -
    let ?q = "p\<lparr>isExecuting := False, executeTimes := n\<rparr>"
    have u: "uniq ?th" using i0 by (simp add: pt_inv_def)
    obtain a b where l: "taskList ?th = a @ p # b" using p by (auto dest: split_list)
    have tok: "task_ok now p" using i p by (simp add: pt_inv_def)
    then have "0 \<le> ts_ns (pt_period p)" by (auto simp: task_ok_def ts_ok_def ts_ns_def)
    then show ?thesis
      by (intro requeue_inv [OF i0, of p])
        (use p tok that generate_list [OF u l, of ?q] in \<open>auto simp: task_ok_def running_ok_def\<close>)
  qed
  show ?thesis
    using t W_running g i0 late req [of "executeTimes p"] req [of "executeTimes p - 1"] remove_inv [OF i0, of tid]
    by (auto simp: worker_finish_def Let_def EXECUTE_INDEFINITE_def split: if_splits)
qed (use t i in \<open>auto simp: worker_finish_def\<close>)

lemma pt_do_inv:
  assumes "pt_inv now th" "ts_ok now" "step_ok now th oper" "pt_do now oper th = Some th'"
  shows "pt_inv now th'"
  using assms
  by (cases oper)
    (auto simp: schedule_inv reset_inv pick_inv wakeup_inv simp del: step_ok.simps(2,4)
      intro: cancel_inv cancel_wait_inv timeout_inv finish_inv)

lemma pt_run_inv:
  assumes "pt_inv prev th" "run_ok prev th ops" "pt_run th ops = Some th'"
  shows "pt_inv (run_end prev ops) th'"
  using assms
proof (induction prev th ops rule: run_ok.induct)
  case (2 prev th now oper ops)
  then obtain th1 where th1: "pt_do now oper th = Some th1" by (auto split: option.splits)
  have "pt_inv now th" using 2 pt_inv_mono by auto
  then have "pt_inv now th1" using 2 th1 pt_do_inv by auto
  then show ?case using 2 th1 by simp
qed simp

text \<open>Every operation leaves the flags of other tasks alone, and never clears those of a hung one.\<close>

lemma hung_same:
  assumes h: "hung tid th" and p: "p \<in> set (taskList th)" and q: "pt_id q = pt_id p" "pt_task q = pt_task p"
    and fl: "pt_id p = tid \<Longrightarrow> isExecuting q \<and> isCancelled q"
  shows "hung tid (set_task th q)" "hung tid (generateNextExecTime th q False)"
proof -
  have u: "uniq th" using h by (simp add: hung_def)
  obtain a b where l: "taskList th = a @ p # b" "\<forall>r \<in> set a \<union> set b. pt_id r \<noteq> pt_id p"
    using task_split [OF u p] by blast
  have s: "taskList (set_task th q) = a @ q # b" by (rule set_task_list [OF u l(1)]) (simp add: q)
  moreover have "id_gen (set_task th q) = id_gen th" by (simp add: set_task_def)
  ultimately show "hung tid (set_task th q)" using h l q fl by (auto simp: hung_def uniq_def)
  note g = generate_list [OF u l(1) q(1) [symmetric]]
  have "uniq (generateNextExecTime th q False)" by (rule requeue_uniq [OF u l(1) _ g(1,2)]) (simp add: q)
  then show "hung tid (generateNextExecTime th q False)" using h l q fl by (auto simp: hung_def g)
qed

lemma hung_remove: "hung tid th \<Longrightarrow> t \<noteq> tid \<Longrightarrow> hung tid (periodicTask_removeFromList th t)"
  by (auto simp: hung_def uniq_def periodicTask_removeFromList_def distinct_map_filter)

lemma hung_worker [simp]: "hung tid (th\<lparr>tt_worker := w\<rparr>) = hung tid th"
  by (simp add: hung_def uniq_def)

lemma hung_get: "hung tid th \<Longrightarrow> periodicTask_get th t = Some p \<Longrightarrow>
    p \<in> set (taskList th) \<and> pt_id p = t \<and> pt_task p \<noteq> Stop_Task \<and> (t = tid \<longrightarrow> isExecuting p \<and> isCancelled p)"
proof -
  assume h: "hung tid th" and g: "periodicTask_get th t = Some p"
  have u: "uniq th" using h by (simp add: hung_def)
  have p: "p \<in> set (taskList th)" "pt_id p = t" using get_Some [OF u] g by auto
  have "isExecuting p \<and> isCancelled p" if "t = tid"
  proof -
    obtain r where "r \<in> set (taskList th)" "pt_id r = tid" "isExecuting r \<and> isCancelled r"
      using h by (auto simp: hung_def)
    moreover then have "periodicTask_get th tid = Some r" using get_Some [OF u] by simp
    moreover have "periodicTask_get th tid = Some p" using g that by simp
    ultimately show ?thesis by simp
  qed
  then show ?thesis using h p by (auto simp: hung_def)
qed

lemma hung_schedule:
  assumes h: "hung tid th" and t: "task \<noteq> Stop_Task"
  shows "hung tid (snd (ptask_schedule ok now th task period runs))"
proof -
  define p where "p = new_task now th task period runs"
  have "pt_id p \<notin> pt_id ` set (taskList th)" using h by (auto simp: hung_def uniq_def p_def new_task_def)
  then have "hung tid (th\<lparr>id_gen := id_gen th + 1, taskList := insert_task p (taskList th)\<rparr>)"
    using h t insert_task_ids [of "taskList th" p] by (auto simp: hung_def uniq_def p_def new_task_def)
  then show ?thesis using schedule_cases [of ok now th task period runs] h by (auto simp: p_def)
qed

lemma hung_reset: "hung tid th \<Longrightarrow> hung tid (snd (ptask_reset now th t))"
  using hung_get [of tid th t]
  by (auto simp: ptask_reset_def periodicTask_resetExecTime_def intro: hung_same(2) split: option.splits)

lemma hung_reschedule: "hung tid th \<Longrightarrow> hung tid (snd (ptask_reschedule now th t period runs add))"
  using hung_get [of tid th t]
  by (auto simp: ptask_reschedule_def periodicTask_resetExecTime_def periodicTask_setPeriod_def Let_def
      intro: hung_same split: option.splits prod.splits)

lemma hung_wait: "hung tid th \<Longrightarrow> cancel_wait th tid 1 = Some (None, th)"
proof -
  assume h: "hung tid th"
  then have u: "uniq th" by (simp add: hung_def)
  obtain p where "p \<in> set (taskList th)" "pt_id p = tid" "isExecuting p" using h by (auto simp: hung_def)
  then have "periodicTask_get th tid = Some p" using get_Some [OF u] by simp
  then show ?thesis using \<open>isExecuting p\<close> by (simp add: cancel_wait_def)
qed

lemma hung_retry: "hung tid th \<Longrightarrow> cancel_wait th t wait = Some (r, th') \<Longrightarrow> (t = tid \<longrightarrow> wait = 1) \<Longrightarrow> hung tid th'"
  using hung_get [of tid th t] hung_remove [of tid th t]
  by (auto simp: cancel_wait_def split: option.splits if_splits)

lemma hung_cancel: "hung tid th \<Longrightarrow> ptask_cancel th t wait = Some (r, th') \<Longrightarrow> hung tid th'"
proof (cases "periodicTask_get th t")
  case (Some p)
  assume h: "hung tid th" and c: "ptask_cancel th t wait = Some (r, th')"
  note g = hung_get [OF h Some]
  show ?thesis
  proof (cases "isCancelled p")
    case False
    then have "t \<noteq> tid" using g by auto
    moreover have "hung tid (set_task th (p\<lparr>isCancelled := True\<rparr>))"
      by (rule hung_same(1) [OF h]) (use g \<open>t \<noteq> tid\<close> in auto)
    ultimately show ?thesis using c Some False by (auto simp: ptask_cancel_def intro: hung_retry)
  qed (use c h Some in \<open>auto simp: ptask_cancel_def\<close>)
qed (auto simp: ptask_cancel_def)

lemma hung_timeout: "hung tid th \<Longrightarrow> worker_timeout th = Some th' \<Longrightarrow> hung tid th'"
  using hung_get [of tid th]
  by (fastforce simp: worker_timeout_def intro: hung_same(1) split: worker.splits option.splits if_splits)

lemma hung_finish: "hung tid th \<Longrightarrow> worker_finish th = Some th' \<Longrightarrow> hung tid th'"
proof (cases "tt_worker th")
  case (W_running t)
  assume h: "hung tid th" and f: "worker_finish th = Some th'"
  then obtain p where g: "periodicTask_get th t = Some p" using W_running by (auto simp: worker_finish_def split: option.splits)
  note p = hung_get [OF h g]
  show ?thesis
  proof (cases "isCancelled p")
    case True
    then show ?thesis using f W_running g h by (auto simp: worker_finish_def)
  next
    case False
    then have "t \<noteq> tid" using p by auto
    let ?th = "th\<lparr>tt_worker := W_idle\<rparr>"
    have "hung tid (periodicTask_removeFromList ?th t)" by (rule hung_remove) (use h \<open>t \<noteq> tid\<close> in auto)
    moreover have "hung tid (generateNextExecTime ?th (p\<lparr>isExecuting := False, executeTimes := n\<rparr>) False)" for n
      by (rule hung_same(2) [where p = p]) (use h p \<open>t \<noteq> tid\<close> in auto)
    moreover have "hung tid (generateNextExecTime ?th (p\<lparr>isExecuting := False\<rparr>) False)"
      by (rule hung_same(2) [where p = p]) (use h p \<open>t \<noteq> tid\<close> in auto)
    ultimately show ?thesis using f W_running g False
      by (simp add: worker_finish_def Let_def split: if_splits) metis+
  qed
qed (auto simp: worker_finish_def)

lemma hung_step: "hung tid th \<Longrightarrow> keeps_thread tid oper \<Longrightarrow> pt_do now oper th = Some th' \<Longrightarrow> hung tid th'"
  by (cases oper)
    (auto simp: hung_schedule hung_reset hung_reschedule worker_pick_def worker_wakeup_def
      intro: hung_cancel hung_retry hung_timeout hung_finish split: list.splits worker.splits if_splits)

lemma hung_run: "hung tid th \<Longrightarrow> \<forall>x \<in> set ops. keeps_thread tid (snd x) \<Longrightarrow> pt_run th ops = Some th' \<Longrightarrow> hung tid th'"
proof (induction th ops rule: pt_run.induct)
  case (2 th now oper ops)
  then show ?case using hung_step [of tid th oper now] by (auto split: option.splits)
qed simp

lemma pt_run_append:
  "pt_run th (xs @ ys) = (case pt_run th xs of None \<Rightarrow> None | Some th' \<Rightarrow> pt_run th' ys)"
  by (induction th xs rule: pt_run.induct) (auto split: option.splits)

text \<open>One round on a queue of a single user task.\<close>

lemma one_round:
  assumes "taskList th = [p]" "tt_worker th = W_idle" "pt_task p \<noteq> Stop_Task" "\<not> isCancelled p" "\<not> isExecuting p"
  shows "pt_run th (round_ops now) = Some
    (if executeTimes p = 1 then th\<lparr>taskList := []\<rparr>
     else th\<lparr>taskList := [p\<lparr>pt_next := snd (timespec_add (pt_next p) (pt_period p)),
       executeTimes := if executeTimes p = EXECUTE_INDEFINITE then executeTimes p else executeTimes p - 1\<rparr>]\<rparr>)"
  using assms
  by (cases p) (auto simp: round_ops_def worker_pick_def worker_timeout_def worker_finish_def periodicTask_get_def
      set_task_def periodicTask_removeFromList_def generateNextExecTime_def Let_def EXECUTE_INDEFINITE_def)

lemma many_rounds:
  assumes "taskList th = [p]" "tt_worker th = W_idle" "pt_task p \<noteq> Stop_Task" "\<not> isCancelled p" "\<not> isExecuting p"
    and "ts_ok (pt_next p)" "ts_ok (pt_period p)"
    and "executeTimes p = EXECUTE_INDEFINITE \<or> int (length ts) < executeTimes p"
  shows "\<exists>q th'. pt_run th (rounds ts) = Some th' \<and> taskList th' = [q] \<and> tt_worker th' = W_idle \<and>
    pt_id q = pt_id p \<and> pt_task q = pt_task p \<and> pt_period q = pt_period p \<and> \<not> isCancelled q \<and> \<not> isExecuting q \<and>
    ts_ok (pt_next q) \<and> ts_ns (pt_next q) = ts_ns (pt_next p) + int (length ts) * ts_ns (pt_period p) \<and>
    executeTimes q = (if executeTimes p = EXECUTE_INDEFINITE then executeTimes p else executeTimes p - int (length ts))"
  using assms
proof (induction ts arbitrary: th p)
  case (Cons now ts)
  let ?p = "p\<lparr>pt_next := snd (timespec_add (pt_next p) (pt_period p)),
       executeTimes := if executeTimes p = EXECUTE_INDEFINITE then executeTimes p else executeTimes p - 1\<rparr>"
  let ?th = "th\<lparr>taskList := [?p]\<rparr>"
  note a = timespec_add_ok [OF Cons.prems(6,7)]
  have r: "pt_run th (round_ops now) = Some ?th"
    using one_round [OF Cons.prems(1-5), of now] Cons.prems(8) by (auto simp: EXECUTE_INDEFINITE_def)
  have ih: "\<exists>q th'. pt_run ?th (rounds ts) = Some th' \<and> taskList th' = [q] \<and> tt_worker th' = W_idle \<and>
    pt_id q = pt_id ?p \<and> pt_task q = pt_task ?p \<and> pt_period q = pt_period ?p \<and> \<not> isCancelled q \<and> \<not> isExecuting q \<and>
    ts_ok (pt_next q) \<and> ts_ns (pt_next q) = ts_ns (pt_next ?p) + int (length ts) * ts_ns (pt_period ?p) \<and>
    executeTimes q = (if executeTimes ?p = EXECUTE_INDEFINITE then executeTimes ?p else executeTimes ?p - int (length ts))"
    by (rule Cons.IH) (use Cons.prems a in \<open>auto simp: EXECUTE_INDEFINITE_def\<close>)
  have n: "executeTimes p = EXECUTE_INDEFINITE \<or> 1 < executeTimes p" using Cons.prems(8) by auto
  from ih obtain q th' where q: "pt_run ?th (rounds ts) = Some th'" "taskList th' = [q]" "tt_worker th' = W_idle"
    "pt_id q = pt_id p" "pt_task q = pt_task p" "pt_period q = pt_period p" "\<not> isCancelled q" "\<not> isExecuting q"
    "ts_ok (pt_next q)" "ts_ns (pt_next q) = ts_ns (pt_next ?p) + int (length ts) * ts_ns (pt_period p)"
    "executeTimes q = (if executeTimes ?p = EXECUTE_INDEFINITE then executeTimes ?p else executeTimes ?p - int (length ts))"
    by auto
  have "pt_run th (rounds (now # ts)) = Some th'" using r q(1) by (simp add: pt_run_append)
  moreover have "ts_ns (pt_next q) = ts_ns (pt_next p) + int (length (now # ts)) * ts_ns (pt_period p)"
    using q(10) a(2) by (simp add: ring_distribs)
  moreover have "executeTimes q = (if executeTimes p = EXECUTE_INDEFINITE then executeTimes p else executeTimes p - int (length (now # ts)))"
    using q(11) n by (auto simp: EXECUTE_INDEFINITE_def)
  ultimately show ?case using q by blast
qed simp

section \<open>Properties\<close>





text \<open>
  C21: cancelling a task that is executing, with waiting, never returns.  The call marks the
  task and sleeps until it is no longer executing, but when the worker comes back to a
  cancelled task it signals without clearing that flag: after any further calls and worker
  steps (short of stopping the whole thread) the caller still sleeps, and the task is
  still in the queue to be executed again.
\<close>

theorem ptask_cancel_executing_hangs:
  assumes "distinct (map pt_id (taskList th))" "\<forall>q \<in> set (taskList th). pt_id q < id_gen th \<and> pt_task q \<noteq> Stop_Task"
    and "p \<in> set (taskList th)" "isExecuting p" "\<not> isCancelled p"
  shows "\<exists>th1. ptask_cancel th (pt_id p) 1 = Some (None, th1) \<and>
    (\<forall>ops th2. (\<forall>x \<in> set ops. keeps_thread (pt_id p) (snd x)) \<longrightarrow> pt_run th1 ops = Some th2 \<longrightarrow>
       cancel_wait th2 (pt_id p) 1 = Some (None, th2) \<and> pt_id p \<in> pt_id ` set (taskList th2))"
proof -
  let ?q = "p\<lparr>isCancelled := True\<rparr>"
  let ?th1 = "set_task th ?q"
  have u: "uniq th" using assms(1,2) by (simp add: uniq_def)
  obtain a b where l: "taskList th = a @ p # b" using task_split [OF u assms(3)] by blast
  have s: "taskList ?th1 = a @ ?q # b" by (rule set_task_list [OF u l]) simp
  have "id_gen ?th1 = id_gen th" by (simp add: set_task_def)
  then have h: "hung (pt_id p) ?th1" using u assms l s by (auto simp: hung_def uniq_def)
  have g: "periodicTask_get th (pt_id p) = Some p" using get_Some [OF u] assms(3) by simp
  then have c: "ptask_cancel th (pt_id p) 1 = Some (None, ?th1)"
    using assms(5) hung_wait [OF h] by (simp add: ptask_cancel_def)
  have "cancel_wait th2 (pt_id p) 1 = Some (None, th2) \<and> pt_id p \<in> pt_id ` set (taskList th2)"
    if "\<forall>x \<in> set ops. keeps_thread (pt_id p) (snd x)" "pt_run ?th1 ops = Some th2" for ops th2
  proof -
    have h2: "hung (pt_id p) th2" by (rule hung_run [OF h that])
    then obtain r where "r \<in> set (taskList th2)" "pt_id r = pt_id p" unfolding hung_def by blast
    then show ?thesis using hung_wait [OF h2] by (metis imageI)
  qed
  with c show ?thesis by blast
qed

theorem ptask_cancel_executing_hangs_witness:
  "\<exists>th1. ptask_cancel busy 1 1 = Some (None, th1) \<and>
     (\<forall>th2. pt_run th1 [(\<lparr>tv_sec = 4, tv_nsec = 0\<rparr>, Do_Finish)] = Some th2 \<longrightarrow> cancel_wait th2 1 1 = Some (None, th2))"
proof -
  let ?p = "\<lparr>pt_id = 1, pt_period = \<lparr>tv_sec = 1, tv_nsec = 0\<rparr>,
        pt_next = \<lparr>tv_sec = 3, tv_nsec = 0\<rparr>, executeTimes = 3, pt_task = User_Task 0, isCancelled = False,
        isExecuting = True\<rparr>"
  obtain th1 where c: "ptask_cancel busy (pt_id ?p) 1 = Some (None, th1)"
    and r: "\<And>ops th2. \<lbrakk>\<forall>x \<in> set ops. keeps_thread (pt_id ?p) (snd x); pt_run th1 ops = Some th2\<rbrakk> \<Longrightarrow>
       cancel_wait th2 (pt_id ?p) 1 = Some (None, th2)"
    using ptask_cancel_executing_hangs [of busy ?p] by (auto simp: busy_def)
  show ?thesis using c r [of "[(\<lparr>tv_sec = 4, tv_nsec = 0\<rparr>, Do_Finish)]"] by auto
qed

text \<open>
  Changing a period can unsort the queue.  \<open>ptask_reschedule\<close> with \<open>add == 0\<close> searches
  the new place only behind the task's old one; if the new deadline is earlier than that
  of the task before it, the queue is no longer sorted.
\<close>

theorem ptask_reschedule_unsorts:
  assumes "distinct (map pt_id (taskList th))" "\<forall>q \<in> set (taskList th). pt_id q < id_gen th"
    and l: "taskList th = a @ r # p # b" and "runs \<noteq> 0" "add \<noteq> 1" "0 \<le> period" "ts_ok now"
    and early: "ts_ns now + period * 1000000 < ts_ns (pt_next r)"
  shows "fst (ptask_reschedule now th (pt_id p) period runs add) = 0 \<and>
    \<not> sorted (map (\<lambda>q. ts_ns (pt_next q)) (taskList (snd (ptask_reschedule now th (pt_id p) period runs add))))"
proof -
  have u: "uniq th" using assms(1,2) by (simp add: uniq_def)
  have g: "periodicTask_get th (pt_id p) = Some p" using get_Some [OF u] l by simp
  let ?q = "(periodicTask_setPeriod p period runs)\<lparr>pt_next := now\<rparr>"
  let ?q' = "?q\<lparr>pt_next := snd (timespec_add now (timespec_fromMillis period))\<rparr>"
  note m = fromMillis_ok [OF assms(6)] timespec_add_ok [OF assms(7) fromMillis_ok(1) [OF assms(6)]]
  have e: "ptask_reschedule now th (pt_id p) period runs add = (0, generateNextExecTime th ?q False)"
    using g assms(4,5,6) by (simp add: ptask_reschedule_def periodicTask_resetExecTime_def)
  have "taskList (generateNextExecTime th ?q False) = (a @ [r]) @ insert_task ?q' b"
    using generate_list(1) [OF u, of "a @ [r]" p b ?q] l by (simp add: periodicTask_setPeriod_def)
  moreover have "\<not> sorted (map (\<lambda>q. ts_ns (pt_next q)) ((a @ [r]) @ insert_task ?q' b))"
    using early m by (auto simp: sorted_append)
  ultimately show ?thesis using e by simp
qed

theorem ptask_reschedule_unsorts_witness:
  "\<exists>th r. snd (ptask_reschedule \<lparr>tv_sec = 5, tv_nsec = 0\<rparr> th 2 1000 1 0) = r \<and>
     \<not> sorted (map (\<lambda>q. ts_ns (pt_next q)) (taskList r))"
proof -
  define p where "p = (\<lambda>i s. \<lparr>pt_id = i, pt_period = \<lparr>tv_sec = s, tv_nsec = 0\<rparr>, pt_next = \<lparr>tv_sec = 5 + s, tv_nsec = 0\<rparr>,
     executeTimes = 1, pt_task = User_Task 0, isCancelled = False, isExecuting = False\<rparr>)"
  let ?th = "\<lparr>id_gen = 3, taskList = [p 1 10, p 2 20], tt_worker = W_idle\<rparr>"
  have "\<not> sorted (map (\<lambda>q. ts_ns (pt_next q))
      (taskList (snd (ptask_reschedule \<lparr>tv_sec = 5, tv_nsec = 0\<rparr> ?th (pt_id (p 2 20)) 1000 1 0))))"
    using ptask_reschedule_unsorts [of ?th "[]" "p 1 10" "p 2 20" "[]" 1 0 1000 "\<lparr>tv_sec = 5, tv_nsec = 0\<rparr>"]
    by (simp add: p_def ts_ok_def ts_ns_def)
  moreover have "pt_id (p 2 20) = 2" by (simp add: p_def)
  ultimately have "\<not> sorted (map (\<lambda>q. ts_ns (pt_next q))
      (taskList (snd (ptask_reschedule \<lparr>tv_sec = 5, tv_nsec = 0\<rparr> ?th 2 1000 1 0))))" by (simp only: not_False_eq_True)
  then show ?thesis by blast
qed

text \<open>
  Two uses of a freed task.  A task that cancels itself while it runs (which needs
  \<open>wait == 0\<close>) is freed under the worker, which then reads it; and a task cancelled after
  the worker's timed wait on it has expired, but before the worker has the mutex again, is
  executed although it is freed.
\<close>

theorem ptask_cancel_use_after_free:
  assumes "distinct (map pt_id (taskList th))" "p \<in> set (taskList th)" "\<not> isCancelled p"
  shows "(tt_worker th = W_running (pt_id p) \<longrightarrow>
       (\<exists>th'. ptask_cancel th (pt_id p) 0 = Some (Some 0, th') \<and> worker_finish th' = None)) \<and>
    (tt_worker th = W_timed (pt_id p) \<and> \<not> isExecuting p \<longrightarrow>
       (\<exists>th'. ptask_cancel th (pt_id p) 1 = Some (Some 0, th') \<and> worker_timeout th' = None))"
proof -
  let ?th1 = "set_task th (p\<lparr>isCancelled := True\<rparr>)"
  let ?th' = "periodicTask_removeFromList ?th1 (pt_id p)"
  have fnd: "distinct (map pt_id xs) \<Longrightarrow> p \<in> set xs \<Longrightarrow> find (\<lambda>q. pt_id q = pt_id p) xs = Some p" for xs
    by (induction xs) (auto simp: image_iff)
  have "find (\<lambda>q. pt_id q = pt_id p) (map (\<lambda>q. if pt_id q = pt_id p then p\<lparr>isCancelled := True\<rparr> else q) xs) =
      Some (p\<lparr>isCancelled := True\<rparr>)" if "p \<in> set xs" for xs
    using that by (induction xs) auto
  then have g1: "periodicTask_get ?th1 (pt_id p) = Some (p\<lparr>isCancelled := True\<rparr>)"
    using assms(2) by (simp add: periodicTask_get_def set_task_def)
  have g: "periodicTask_get th (pt_id p) = Some p" using fnd assms by (simp add: periodicTask_get_def)
  have gone: "periodicTask_get ?th' (pt_id p) = None"
    by (auto simp: periodicTask_get_def periodicTask_removeFromList_def find_None_iff)
  have w: "tt_worker ?th' = tt_worker th" by (simp add: set_task_def periodicTask_removeFromList_def)
  show ?thesis
    using g g1 gone w assms(3)
    by (auto simp: ptask_cancel_def cancel_wait_def worker_finish_def worker_timeout_def)
qed

theorem ptask_cancel_use_after_free_witness:
  "\<exists>th'. ptask_cancel busy 1 0 = Some (Some 0, th') \<and> worker_finish th' = None"
  using ptask_cancel_use_after_free [of busy "hd (taskList busy)"] by (simp add: busy_def)

end
