(* ===== verification/Obix_Time.thy ===== *)
theory Obix_Time
  imports Obix_Strings
begin

text \<open>
  Durations and timestamps: \<open>obix_reltime_to_long\<close>, \<open>obix_reltime_from_long\<close> and the
  \<open>timestamp_*\<close> functions of \<open>src/src/libs/obix_utils.c\<close>, with what they use of the C
  library: \<open>%d\<close>, \<open>%3ld\<close> and \<open>%.2d\<close> of \<open>sprintf\<close>, \<open>gmtime_r\<close> and \<open>timegm\<close> on the
  proleptic Gregorian calendar, and \<open>strptime\<close> with \<open>%FT%T%z\<close>, which stops at the first
  field it cannot read and leaves the rest of the structure as it was.

  A C \<open>long\<close> has 64 bits.  A parser position is the rest of the string.  \<open>None\<close> as a
  duration means that the output variable is not written.
\<close>

section \<open>Decimal output\<close>

definition digit_char :: "nat \<Rightarrow> char" where
  "digit_char d = char_of (48 + d)"

fun dec_nat :: "nat \<Rightarrow> cstr" where
  "dec_nat n = (if n < 10 then [digit_char n] else dec_nat (n div 10) @ [digit_char (n mod 10)])"

declare dec_nat.simps [simp del]

text \<open>\<open>%d\<close> and \<open>%ld\<close>, \<open>%<w>ld\<close> (padded with blanks) and \<open>%.<w>d\<close> (padded with zeros).\<close>

definition fmt_d :: "int \<Rightarrow> cstr" where
  "fmt_d i = (if i < 0 then CHR ''-'' # dec_nat (nat (- i)) else dec_nat (nat i))"

definition fmt_width :: "nat \<Rightarrow> int \<Rightarrow> cstr" where
  "fmt_width w i = replicate (w - length (fmt_d i)) (CHR '' '') @ fmt_d i"

definition fmt_prec :: "nat \<Rightarrow> int \<Rightarrow> cstr" where
  "fmt_prec w i = replicate (w - length (fmt_d i)) (CHR ''0'') @ fmt_d i"

section \<open>Durations\<close>

text \<open>\<open>strtoposl\<close>: the value, the number of characters read, whether anything was parsed.\<close>

definition strtoposl :: "cstr \<Rightarrow> int \<times> nat \<times> bool" where
  "strtoposl s = (let (l, n, _) = strtol s in if n = 0 then (- 1, 0, False) else (l, n, True))"

fun rt_trim :: "nat \<Rightarrow> int \<Rightarrow> int" where
  "rt_trim 0 l = l"
| "rt_trim (Suc f) l = (if l > 1000 then rt_trim f (c_div l 10) else l)"

text \<open>
  The parser in the order of the code: the last test and the sign, then seconds, minutes,
  hours and days, each continuing with the next.  \<open>parsed\<close> is \<open>parsedSomething\<close>, \<open>l\<close>
  the number read last and \<open>e\<close> the string at \<open>endPos\<close>.  The trimming loop divides by
  ten while the value is above 1000, which 64-bit values end within 20 rounds.
\<close>

definition rt_end :: "bool \<Rightarrow> int \<Rightarrow> bool \<Rightarrow> int \<times> int option" where
  "rt_end neg result parsed =
     (if \<not> parsed then (- 1, None) else (0, Some (if neg then - result else result)))"

definition rt_seconds :: "bool \<Rightarrow> int \<Rightarrow> bool \<Rightarrow> int \<Rightarrow> cstr \<Rightarrow> int \<times> int option" where
  "rt_seconds neg result parsed l e =
     (if cget e 0 = CHR ''S'' \<or> cget e 0 = CHR ''.'' then
        if l < 0 then (- 1, None)
        else if l > 2147482 \<or> (result > 0 \<and> l > 59) then (- 2, None)
        else
          let result = result + l * 1000 in
          if cget e 0 = CHR ''.'' then
            let s = tl e; (l, n, p) = strtoposl s in
            if cget (drop n s) 0 \<noteq> CHR ''S'' then (- 1, None)
            else rt_end neg (result + rt_trim 20 l * 10 ^ (3 - n)) p
          else rt_end neg result parsed
      else if l \<noteq> - 1 then (- 1, None)
      else rt_end neg result parsed)"

definition rt_minutes :: "bool \<Rightarrow> int \<Rightarrow> bool \<Rightarrow> int \<Rightarrow> cstr \<Rightarrow> int \<times> int option" where
  "rt_minutes neg result parsed l e =
     (if cget e 0 = CHR ''M'' then
        if l < 0 then (- 1, None)
        else if l > 35790 \<or> (result > 0 \<and> l > 59) then (- 2, None)
        else let s = tl e; (l', n, p) = strtoposl s
             in rt_seconds neg (result + l * 60000) (parsed \<or> p) l' (drop n s)
      else rt_seconds neg result parsed l e)"

definition rt_hours :: "bool \<Rightarrow> int \<Rightarrow> bool \<Rightarrow> int \<Rightarrow> cstr \<Rightarrow> int \<times> int option" where
  "rt_hours neg result parsed l e =
     (if cget e 0 = CHR ''H'' then
        if l < 0 then (- 1, None)
        else if l > 595 \<or> (result > 0 \<and> l > 23) then (- 2, None)
        else let s = tl e; (l', n, p) = strtoposl s
             in rt_minutes neg (result + l * 3600000) (parsed \<or> p) l' (drop n s)
      else rt_minutes neg result parsed l e)"

definition rt_time :: "bool \<Rightarrow> int \<Rightarrow> bool \<Rightarrow> cstr \<Rightarrow> int \<times> int option" where
  "rt_time neg result parsed s =
     (if cget s 0 = CHR ''T'' then
        let s = tl s; (l, n, p) = strtoposl s in rt_hours neg result p l (drop n s)
      else rt_end neg result parsed)"

definition obix_reltime_to_long :: "cstr \<Rightarrow> int \<times> int option" where
  "obix_reltime_to_long str =
     (let neg = (cget str 0 = CHR ''-''); s = (if neg then tl str else str) in
      if cget s 0 \<noteq> CHR ''P'' then (- 1, None)
      else
        let s = tl s; (l, n, parsed) = strtoposl s; e = drop n s in
        if cget e 0 = CHR ''Y'' \<or> cget e 0 = CHR ''M'' then (- 2, None)
        else if cget e 0 = CHR ''D'' then
          if l < 0 then (- 1, None)
          else if l > 23 then (- 2, None)
          else rt_time neg (l * 86400000) parsed (tl e)
        else if parsed then (- 1, None)
        else rt_time neg 0 parsed s)"

datatype reltime_format = RELTIME_SEC | RELTIME_MIN | RELTIME_HOUR | RELTIME_DAY

definition long_len :: "int \<Rightarrow> int" where
  "long_len l =
     (let len = length (takeWhile (\<lambda>s. l > s)
            [0, 9, 99, 999, 9999, 99999, 999999, 9999999, 99999999, 999999999, LONG_MAX])
      in if len = 0 then 0 else int len + 1)"

record reltime_parts =
  rp_neg :: bool
  rp_days :: int
  rp_hours :: int
  rp_minutes :: int
  rp_seconds :: int
  rp_millis :: int

definition reltime_split :: "int \<Rightarrow> reltime_format \<Rightarrow> reltime_parts" where
  "reltime_split millis format =
     (let m = (if millis < 0 then millis * - 1 else millis);
          seconds = c_int (c_div m 1000);
          ms = c_mod m 1000;
          (minutes, seconds) =
            (if format \<noteq> RELTIME_SEC then (c_div seconds 60, c_mod seconds 60) else (0, seconds));
          (hours, minutes) =
            (if format = RELTIME_HOUR \<or> format = RELTIME_DAY then (c_div minutes 60, c_mod minutes 60)
             else (0, minutes));
          (days, hours) = (if format = RELTIME_DAY then (c_div hours 24, c_mod hours 24) else (0, hours))
      in \<lparr>rp_neg = (millis < 0), rp_days = days, rp_hours = hours, rp_minutes = minutes,
          rp_seconds = seconds, rp_millis = ms\<rparr>)"

text \<open>\<open>stringSize\<close> after the computation, that is the allocation is one byte more.\<close>

definition reltime_size :: "reltime_parts \<Rightarrow> int" where
  "reltime_size p =
     1 + (if rp_neg p then 1 else 0)
       + (if rp_millis p > 0 then long_len (rp_millis p) + 1 else 0)
       + (if rp_seconds p > 0 then long_len (rp_seconds p) + 1 else 0)
       + (if rp_minutes p > 0 then long_len (rp_minutes p) + 1 else 0)
       + (if rp_hours p > 0 then long_len (rp_hours p) + 1 else 0)
       + (if rp_days p > 0 then long_len (rp_days p) + 1 else 0)
       + (if rp_millis p > 0 \<or> rp_seconds p > 0 \<or> rp_minutes p > 0 \<or> rp_hours p > 0 then 1 else 0)"

definition reltime_text :: "reltime_parts \<Rightarrow> cstr" where
  "reltime_text p =
     (if rp_neg p then ''-'' else []) @ ''P''
     @ (if rp_days p > 0 then fmt_d (rp_days p) @ ''D'' else [])
     @ (if rp_millis p > 0 \<or> rp_seconds p > 0 \<or> rp_minutes p > 0 \<or> rp_hours p > 0 then ''T'' else [])
     @ (if rp_hours p > 0 then fmt_d (rp_hours p) @ ''H'' else [])
     @ (if rp_minutes p > 0 then fmt_d (rp_minutes p) @ ''M'' else [])
     @ (if rp_seconds p > 0 \<or> rp_millis p > 0 then
          fmt_d (rp_seconds p) @ (if rp_millis p > 0 then ''.'' @ fmt_width 3 (rp_millis p) else []) @ ''S''
        else [])"

definition OBIX_RELTIME_ZERO :: cstr where
  "OBIX_RELTIME_ZERO = ''PT0S''"

text \<open>The string and the size of its buffer; \<open>ok\<close> is whether \<open>malloc\<close> succeeds.\<close>

definition obix_reltime_from_long :: "bool \<Rightarrow> int \<Rightarrow> reltime_format \<Rightarrow> (cstr \<times> int) option" where
  "obix_reltime_from_long ok millis format =
     (if \<not> ok then None
      else if millis = 0 then Some (OBIX_RELTIME_ZERO, 4 + 1)
      else let p = reltime_split millis format in Some (reltime_text p, reltime_size p + 1))"

definition sec_text :: "int \<Rightarrow> int \<Rightarrow> cstr" where
  "sec_text s ms = (if s > 0 \<or> ms > 0 then
          fmt_d s @ (if ms > 0 then ''.'' @ fmt_width 3 ms else []) @ ''S'' else [])"

definition min_text :: "int \<Rightarrow> int \<Rightarrow> int \<Rightarrow> cstr" where
  "min_text m s ms = (if m > 0 then fmt_d m @ ''M'' else []) @ sec_text s ms"

definition hour_text :: "int \<Rightarrow> int \<Rightarrow> int \<Rightarrow> int \<Rightarrow> cstr" where
  "hour_text h m s ms = (if h > 0 then fmt_d h @ ''H'' else []) @ min_text m s ms"

text \<open>A whole duration whose parts are in range.\<close>

definition parts_ok :: "reltime_parts \<Rightarrow> bool" where
  "parts_ok p \<longleftrightarrow> 0 \<le> rp_days p \<and> rp_days p \<le> 23 \<and>
     0 \<le> rp_hours p \<and> rp_hours p \<le> 595 \<and> (0 < rp_days p \<longrightarrow> rp_hours p \<le> 23) \<and>
     0 \<le> rp_minutes p \<and> rp_minutes p \<le> 35790 \<and> (0 < rp_days p \<or> 0 < rp_hours p \<longrightarrow> rp_minutes p \<le> 59) \<and>
     0 \<le> rp_seconds p \<and> rp_seconds p \<le> 2147482 \<and>
     (0 < rp_days p \<or> 0 < rp_hours p \<or> 0 < rp_minutes p \<longrightarrow> rp_seconds p \<le> 59) \<and>
     0 \<le> rp_millis p \<and> rp_millis p < 1000"

definition parts_val :: "reltime_parts \<Rightarrow> int" where
  "parts_val p = (let v = rp_days p * 86400000 + rp_hours p * 3600000 + rp_minutes p * 60000 +
     rp_seconds p * 1000 + rp_millis p in if rp_neg p then - v else v)"

section \<open>Decimal strings\<close>

lemma of_char_digit: "d < 10 \<Longrightarrow> (of_char (digit_char d) :: nat) = 48 + d"
  by (simp add: digit_char_def)

lemma digit_char_props:
  assumes "d < 10"
  shows "isdigit (digit_char d)" "digit_val (digit_char d) = int d" "\<not> isspace (digit_char d)"
    "digit_char d \<noteq> CHR ''-''" "digit_char d \<noteq> CHR ''+''"
proof -
  note o = of_char_digit [OF assms]
  show "isdigit (digit_char d)" "digit_val (digit_char d) = int d" "\<not> isspace (digit_char d)"
    using o assms by (auto simp: isdigit_def digit_val_def isspace_def)
  have "(of_char (CHR ''-'') :: nat) = 45" "(of_char (CHR ''+'') :: nat) = 43" by code_simp+
  then show "digit_char d \<noteq> CHR ''-''" "digit_char d \<noteq> CHR ''+''" using o by auto
qed

lemma dec_nat_digits: "\<forall>c \<in> set (dec_nat n). isdigit c \<and> \<not> isspace c \<and> c \<noteq> CHR ''-'' \<and> c \<noteq> CHR ''+''"
proof (induction n rule: dec_nat.induct)
  case (1 n)
  then show ?case
    using digit_char_props [of n] digit_char_props [of "n mod 10"]
    by (subst dec_nat.simps) auto
qed

lemma dec_nat_ne [simp]: "dec_nat n \<noteq> []"
  by (subst dec_nat.simps) auto

lemma digits_val_snoc: "digits_val (ds @ [c]) = 10 * digits_val ds + digit_val c"
  by (simp add: digits_val_def)

lemma dec_nat_val: "digits_val (dec_nat n) = int n"
proof (induction n rule: dec_nat.induct)
  case (1 n)
  show ?case
  proof (cases "n < 10")
    case True
    then show ?thesis using digit_char_props(2) [of n] by (subst dec_nat.simps) (simp add: digits_val_def)
  next
    case False
    then have "digits_val (dec_nat n) = 10 * int (n div 10) + int (n mod 10)"
      using 1 digit_char_props(2) [of "n mod 10"] by (subst dec_nat.simps) (simp add: digits_val_snoc)
    also have "\<dots> = int n" using div_mult_mod_eq [of n 10] by (metis mult.commute of_nat_add of_nat_mult of_nat_numeral)
    finally show ?thesis .
  qed
qed

lemma dec_nat_length: "length (dec_nat n) = (if n < 10 then 1 else Suc (length (dec_nat (n div 10))))"
  by (subst dec_nat.simps) simp

lemma dec_nat_length_le: "n < 10 ^ k \<Longrightarrow> 0 < k \<Longrightarrow> length (dec_nat n) \<le> k"
proof (induction k arbitrary: n)
  case (Suc k)
  show ?case
  proof (cases "n < 10")
    case False
    then have "0 < k" using Suc.prems by (cases k) auto
    moreover have "n div 10 < 10 ^ k" using Suc.prems by (simp add: less_mult_imp_div_less)
    ultimately show ?thesis using Suc.IH False by (subst dec_nat_length) simp
  qed (subst dec_nat_length, simp)
qed simp

lemma fmt_d_digits: "0 \<le> i \<Longrightarrow> c \<in> set (fmt_d i) \<Longrightarrow> isdigit c"
  using dec_nat_digits by (simp add: fmt_d_def)

lemma fmt_d_length: "0 \<le> i \<Longrightarrow> i < 10 ^ k \<Longrightarrow> 0 < k \<Longrightarrow> length (fmt_d i) \<le> k"
  using dec_nat_length_le [of "nat i" k] by (simp add: fmt_d_def nat_less_iff)

lemma dec_nat_length_ge: "10 ^ k \<le> n \<Longrightarrow> Suc k \<le> length (dec_nat n)"
proof (induction k arbitrary: n)
  case 0
  then show ?case by (simp add: Suc_le_eq)
next
  case (Suc k)
  have "(1 :: nat) \<le> 10 ^ k" by simp
  then have "10 * 1 \<le> 10 * (10 :: nat) ^ k" by (rule mult_le_mono2)
  moreover have "10 * 10 ^ k \<le> n" using Suc.prems by simp
  ultimately have "10 \<le> n" by linarith
  moreover have "10 ^ k \<le> n div 10"
    using Suc.prems by (simp add: less_eq_div_iff_mult_less_eq mult.commute)
  ultimately show ?case using Suc.IH by (subst dec_nat_length) simp
qed

text \<open>Reading a number back.\<close>

lemma strtol_dec:
  assumes "int n \<le> LONG_MAX" "r = [] \<or> \<not> isdigit (hd r)"
  shows "strtol (replicate k (CHR '' '') @ dec_nat n @ r) = (int n, k + length (dec_nat n), False)"
proof -
  have sp: "isspace (CHR '' '')" by code_simp
  obtain d ds where d: "dec_nat n = d # ds" by (cases "dec_nat n") auto
  have dd: "\<forall>c \<in> set (d # ds). isdigit c \<and> \<not> isspace c \<and> c \<noteq> CHR ''-'' \<and> c \<noteq> CHR ''+''"
    using dec_nat_digits [of n] d by simp
  have tw: "takeWhile isspace (replicate k (CHR '' '') @ d # ds @ r) = replicate k (CHR '' '')"
    using sp dd by (induction k) auto
  have dw: "dropWhile isspace (replicate k (CHR '' '') @ d # ds @ r) = d # ds @ r"
    using sp dd by (induction k) auto
  have "takeWhile isdigit ((d # ds) @ r) = d # ds"
    using dd assms(2) by (cases r) (auto simp: takeWhile_append2 takeWhile_eq_all_conv)
  then have td: "takeWhile isdigit (d # ds @ r) = d # ds" by simp
  have "digits_val (d # ds) = int n" using dec_nat_val [of n] d by simp
  moreover have "LONG_MIN \<le> int n" by (simp add: LONG_MIN_def)
  ultimately show ?thesis using assms(1) dd tw dw td d
    by (simp add: strtol_def Let_def)
qed

lemma strtoposl_dec:
  assumes "0 \<le> i" "i \<le> LONG_MAX" "r = [] \<or> \<not> isdigit (hd r)"
  shows "strtoposl (fmt_d i @ r) = (i, length (fmt_d i), True)"
    "strtoposl (fmt_width w i @ r) = (i, max w (length (fmt_d i)), True)"
  using strtol_dec [of "nat i" r 0] strtol_dec [of "nat i" r "w - length (dec_nat (nat i))"] assms
  by (auto simp: strtoposl_def fmt_d_def fmt_width_def max_def)

lemma strtoposl_none:
  assumes "\<not> isspace c" "\<not> isdigit c" "c \<noteq> CHR ''-''" "c \<noteq> CHR ''+''"
  shows "strtoposl (c # r) = (- 1, 0, False)"
  using assms by (simp add: strtoposl_def strtol_def)

lemma strtoposl_Nil: "strtoposl [] = (- 1, 0, False)"
  by (simp add: strtoposl_def strtol_def)

lemma letters:
  "\<not> isdigit (CHR ''D'')" "\<not> isdigit (CHR ''T'')" "\<not> isdigit (CHR ''H'')" "\<not> isdigit (CHR ''M'')"
  "\<not> isdigit (CHR ''S'')" "\<not> isdigit (CHR ''.'')" "\<not> isspace (CHR ''T'')" "\<not> isspace (CHR ''S'')"
  by code_simp+

section \<open>The duration round trip\<close>

lemma rt_trim_id: "l \<le> 1000 \<Longrightarrow> rt_trim f l = l"
  by (cases f) auto

lemma small_LONG_MAX: "i < 3000000000 \<Longrightarrow> i \<le> LONG_MAX"
  by (simp add: LONG_MAX_def)

lemma fmt_d_3: "0 \<le> i \<Longrightarrow> i < 1000 \<Longrightarrow> length (fmt_d i) \<le> 3"
  using dec_nat_length_le [of "nat i" 3] by (simp add: fmt_d_def nat_less_iff)

text \<open>The seconds, as the parser sees them after the number before them has been read.\<close>

lemma parse_sec:
  assumes "0 \<le> s" "s \<le> 2147482" "0 < res \<longrightarrow> s \<le> 59" "0 \<le> ms" "ms < 1000" "parsed \<or> 0 < s \<or> 0 < ms"
    and "strtoposl (sec_text s ms) = (l, n, p)"
  shows "rt_seconds neg res (parsed \<or> p) l (drop n (sec_text s ms)) =
    (0, Some (if neg then - (res + s * 1000 + ms) else res + s * 1000 + ms))"
proof (cases "s > 0 \<or> ms > 0")
  case False
  then show ?thesis using assms strtoposl_Nil
    by (auto simp: sec_text_def rt_seconds_def rt_end_def NUL_def)
next
  case True
  let ?r = "(if ms > 0 then ''.'' @ fmt_width 3 ms else []) @ ''S''"
  have "strtoposl (fmt_d s @ ?r) = (s, length (fmt_d s), True)"
    by (rule strtoposl_dec) (use assms letters in \<open>auto simp: LONG_MAX_def\<close>)
  then have e: "l = s" "n = length (fmt_d s)" "p" using assms(7) True by (auto simp: sec_text_def)
  have d: "drop n (sec_text s ms) = ?r" using True e by (simp add: sec_text_def)
  show ?thesis
  proof (cases "ms > 0")
    case ms: True
    have f: "strtoposl (fmt_width 3 ms @ ''S'') = (ms, 3, True)"
      using strtoposl_dec(2) [of ms "''S''" 3] assms ms letters fmt_d_3 [of ms] by (simp add: LONG_MAX_def)
    have w: "drop 3 (fmt_width 3 ms @ ''S'') = ''S''"
      using fmt_d_3 [of ms] ms assms by (simp add: fmt_width_def)
    show ?thesis unfolding d using assms(1-6) e ms f w
      by (auto simp: rt_seconds_def rt_end_def rt_trim_id)
  next
    case False
    then show ?thesis unfolding d using assms(1-6) e by (auto simp: rt_seconds_def rt_end_def)
  qed
qed

lemma parse_sec_next:
  assumes "0 \<le> s" "s \<le> 2147482" "strtoposl (sec_text s ms) = (l, n, p)"
  shows "cget (drop n (sec_text s ms)) 0 \<in> {CHR ''S'', CHR ''.'', NUL}"
proof (cases "s > 0 \<or> ms > 0")
  case True
  let ?r = "(if ms > 0 then ''.'' @ fmt_width 3 ms else []) @ ''S''"
  have "strtoposl (fmt_d s @ ?r) = (s, length (fmt_d s), True)"
    by (rule strtoposl_dec) (use assms letters in \<open>auto simp: LONG_MAX_def\<close>)
  then have "n = length (fmt_d s)" using assms(3) True by (auto simp: sec_text_def)
  then show ?thesis using True by (simp add: sec_text_def)
qed (simp add: sec_text_def)

lemma parse_min:
  assumes "0 \<le> m" "m \<le> 35790" "0 < res \<longrightarrow> m \<le> 59" "0 \<le> res"
    and "0 \<le> s" "s \<le> 2147482" "0 < res \<or> 0 < m \<longrightarrow> s \<le> 59" "0 \<le> ms" "ms < 1000"
    and "parsed \<or> 0 < m \<or> 0 < s \<or> 0 < ms" "strtoposl (min_text m s ms) = (l, n, p)"
  shows "rt_minutes neg res (parsed \<or> p) l (drop n (min_text m s ms)) =
    (0, Some (if neg then - (res + m * 60000 + s * 1000 + ms) else res + m * 60000 + s * 1000 + ms))"
    "cget (drop n (min_text m s ms)) 0 \<in> {CHR ''M'', CHR ''S'', CHR ''.'', NUL}"
proof -
  obtain l' n' p' where q: "strtoposl (sec_text s ms) = (l', n', p')" by (metis surj_pair)
  have "rt_minutes neg res (parsed \<or> p) l (drop n (min_text m s ms)) =
      (0, Some (if neg then - (res + m * 60000 + s * 1000 + ms) else res + m * 60000 + s * 1000 + ms)) \<and>
    cget (drop n (min_text m s ms)) 0 \<in> {CHR ''M'', CHR ''S'', CHR ''.'', NUL}"
  proof (cases "m > 0")
    case True
    have "strtoposl (fmt_d m @ ''M'' @ sec_text s ms) = (m, length (fmt_d m), True)"
      by (rule strtoposl_dec) (use assms letters in \<open>auto simp: LONG_MAX_def\<close>)
    then have e: "l = m" "n = length (fmt_d m)" "p" using assms(11) True by (auto simp: min_text_def)
    have d: "drop n (min_text m s ms) = CHR ''M'' # sec_text s ms" using True e by (simp add: min_text_def)
    have "rt_seconds neg (res + m * 60000) (True \<or> p') l' (drop n' (sec_text s ms)) =
        (0, Some (if neg then - (res + m * 60000 + s * 1000 + ms) else res + m * 60000 + s * 1000 + ms))"
      by (rule parse_sec [OF _ _ _ _ _ _ q]) (use assms True in auto)
    then show ?thesis unfolding d using e q assms(1-4) by (auto simp: rt_minutes_def)
  next
    case False
    then have t: "min_text m s ms = sec_text s ms" by (simp add: min_text_def)
    then have e: "l' = l" "n' = n" "p' = p" using q assms(11) by simp_all
    note nx = parse_sec_next [OF assms(5,6) q]
    have "rt_seconds neg res (parsed \<or> p) l (drop n (sec_text s ms)) =
        (0, Some (if neg then - (res + s * 1000 + ms) else res + s * 1000 + ms))"
      by (rule parse_sec [OF _ _ _ _ _ _ q [unfolded e]]) (use assms False in auto)
    then show ?thesis unfolding t using nx [unfolded e] False assms(1)
      by (auto simp: rt_minutes_def NUL_def)
  qed
  then show "rt_minutes neg res (parsed \<or> p) l (drop n (min_text m s ms)) =
    (0, Some (if neg then - (res + m * 60000 + s * 1000 + ms) else res + m * 60000 + s * 1000 + ms))"
    "cget (drop n (min_text m s ms)) 0 \<in> {CHR ''M'', CHR ''S'', CHR ''.'', NUL}" by blast+
qed

lemma parse_hour:
  assumes "0 \<le> h" "h \<le> 595" "0 < res \<longrightarrow> h \<le> 23" "0 \<le> res"
    and "0 \<le> m" "m \<le> 35790" "0 < res \<or> 0 < h \<longrightarrow> m \<le> 59"
    and "0 \<le> s" "s \<le> 2147482" "0 < res \<or> 0 < h \<or> 0 < m \<longrightarrow> s \<le> 59" "0 \<le> ms" "ms < 1000"
    and "0 < h \<or> 0 < m \<or> 0 < s \<or> 0 < ms"
  shows "rt_time neg res parsed (CHR ''T'' # hour_text h m s ms) =
    (0, Some (if neg then - (res + h * 3600000 + m * 60000 + s * 1000 + ms)
              else res + h * 3600000 + m * 60000 + s * 1000 + ms))"
proof -
  obtain l n p where q: "strtoposl (min_text m s ms) = (l, n, p)" by (metis surj_pair)
  show ?thesis
  proof (cases "h > 0")
    case True
    have e: "strtoposl (fmt_d h @ ''H'' @ min_text m s ms) = (h, length (fmt_d h), True)"
      by (rule strtoposl_dec) (use assms letters in \<open>auto simp: LONG_MAX_def\<close>)
    have "rt_minutes neg (res + h * 3600000) (True \<or> p) l (drop n (min_text m s ms)) =
        (0, Some (if neg then - (res + h * 3600000 + m * 60000 + s * 1000 + ms)
                  else res + h * 3600000 + m * 60000 + s * 1000 + ms))"
      by (rule parse_min(1) [OF _ _ _ _ _ _ _ _ _ _ q]) (use assms True in auto)
    then show ?thesis using e q True assms(1-4) by (auto simp: hour_text_def rt_time_def rt_hours_def)
  next
    case False
    have r: "rt_minutes neg res (False \<or> p) l (drop n (min_text m s ms)) =
        (0, Some (if neg then - (res + m * 60000 + s * 1000 + ms) else res + m * 60000 + s * 1000 + ms))"
      by (rule parse_min(1) [OF _ _ _ _ _ _ _ _ _ _ q]) (use assms False in auto)
    have "cget (drop n (min_text m s ms)) 0 \<in> {CHR ''M'', CHR ''S'', CHR ''.'', NUL}"
      by (rule parse_min(2) [OF _ _ _ _ _ _ _ _ _ _ q, where res = res and parsed = False]) (use assms False in auto)
    then show ?thesis using r q False assms(1) by (auto simp: hour_text_def rt_time_def rt_hours_def NUL_def)
  qed
qed

lemma reltime_text_eq:
  "reltime_text p = (if rp_neg p then ''-'' else []) @ ''P''
     @ (if rp_days p > 0 then fmt_d (rp_days p) @ ''D'' else [])
     @ (if rp_millis p > 0 \<or> rp_seconds p > 0 \<or> rp_minutes p > 0 \<or> rp_hours p > 0
        then CHR ''T'' # hour_text (rp_hours p) (rp_minutes p) (rp_seconds p) (rp_millis p) else [])"
  by (auto simp: reltime_text_def hour_text_def min_text_def sec_text_def)

lemma reltime_parse:
  assumes ok: "parts_ok p" and nz: "parts_val p \<noteq> 0"
  shows "obix_reltime_to_long (reltime_text p) = (0, Some (parts_val p))"
proof -
  let ?d = "rp_days p" and ?h = "rp_hours p" and ?m = "rp_minutes p" and ?s = "rp_seconds p" and ?ms = "rp_millis p"
  let ?t = "?ms > 0 \<or> ?s > 0 \<or> ?m > 0 \<or> ?h > 0"
  let ?T = "if ?t then CHR ''T'' # hour_text ?h ?m ?s ?ms else []"
  let ?v = "?d * 86400000 + ?h * 3600000 + ?m * 60000 + ?s * 1000 + ?ms"
  have T: "rt_time neg (?d * 86400000) (0 < ?d) ?T = (0, Some (if neg then - ?v else ?v))" for neg
  proof (cases ?t)
    case True
    have "rt_time neg (?d * 86400000) (0 < ?d) (CHR ''T'' # hour_text ?h ?m ?s ?ms) =
      (0, Some (if neg then - (?d * 86400000 + ?h * 3600000 + ?m * 60000 + ?s * 1000 + ?ms)
              else ?d * 86400000 + ?h * 3600000 + ?m * 60000 + ?s * 1000 + ?ms))"
      by (rule parse_hour) (use ok True in \<open>auto simp: parts_ok_def\<close>)
    then show ?thesis using True by simp
  next
    case False
    then have z: "?h = 0" "?m = 0" "?s = 0" "?ms = 0" using ok by (auto simp: parts_ok_def)
    then have "0 < ?d" using nz ok by (auto simp: parts_val_def parts_ok_def Let_def split: if_splits)
    then show ?thesis using z by (simp add: rt_time_def rt_end_def NUL_def)
  qed
  have body: "obix_reltime_to_long ((if neg then ''-'' else []) @ ''P'' @ (if ?d > 0 then fmt_d ?d @ ''D'' else []) @ ?T) =
      (0, Some (if neg then - ?v else ?v))" for neg
  proof (cases "?d > 0")
    case True
    have "strtoposl (fmt_d ?d @ ''D'' @ ?T) = (?d, length (fmt_d ?d), True)"
      by (rule strtoposl_dec) (use ok letters in \<open>auto simp: LONG_MAX_def parts_ok_def\<close>)
    then show ?thesis using True ok T [of neg] by (cases neg) (auto simp: obix_reltime_to_long_def parts_ok_def)
  next
    case False
    then have d0: "?d = 0" using ok by (auto simp: parts_ok_def)
    then have t: ?t using nz ok by (auto simp: parts_val_def parts_ok_def Let_def split: if_splits)
    have "strtoposl (CHR ''T'' # hour_text ?h ?m ?s ?ms) = (- 1, 0, False)"
      by (rule strtoposl_none) (use letters in auto)
    then show ?thesis using d0 t T [of neg] by (cases neg) (auto simp: obix_reltime_to_long_def)
  qed
  show ?thesis using body [of "rp_neg p"] by (simp only: reltime_text_eq parts_val_def Let_def)
qed

text \<open>Splitting a number of milliseconds.\<close>

lemma reltime_split_ok:
  assumes "\<bar>millis\<bar> < 2073600000"
  shows "parts_ok (reltime_split millis format)" "parts_val (reltime_split millis format) = millis"
proof -
  define m where "m = \<bar>millis\<bar>"
  define s where "s = m div 1000"
  define mi where "mi = s div 60"
  define h where "h = mi div 60"
  define d where "d = h div 24"
  have m0: "0 \<le> m" "m < 2073600000" "(if millis < 0 then millis * - 1 else millis) = m"
    using assms by (auto simp: m_def)
  have s: "0 \<le> s" "s < 2073600" using m0 by (auto simp: s_def)
  have mi: "0 \<le> mi" "mi < 34560" using s by (auto simp: mi_def)
  have h: "0 \<le> h" "h < 576" using mi by (auto simp: h_def)
  have d: "0 \<le> d" "d < 24" using h by (auto simp: d_def)
  have e: "c_div m 1000 = s" "c_mod m 1000 = m mod 1000" "c_div s 60 = mi" "c_mod s 60 = s mod 60"
      "c_div mi 60 = h" "c_mod mi 60 = mi mod 60" "c_div h 24 = d" "c_mod h 24 = h mod 24" "c_int s = s"
    using m0 s mi h
    by (simp_all add: c_div_nonneg c_mod_nonneg s_def [symmetric] mi_def [symmetric] h_def [symmetric] d_def [symmetric])
  have sum: "m = s * 1000 + m mod 1000" "s = mi * 60 + s mod 60" "mi = h * 60 + mi mod 60" "h = d * 24 + h mod 24"
    unfolding s_def mi_def h_def d_def by (simp_all only: div_mult_mod_eq)
  have r: "0 \<le> m mod 1000" "m mod 1000 < 1000" "0 \<le> s mod 60" "s mod 60 < 60" "0 \<le> mi mod 60" "mi mod 60 < 60"
      "0 \<le> h mod 24" "h mod 24 < 24"
    by simp_all
  have p: "reltime_split millis format = \<lparr>rp_neg = (millis < 0),
      rp_days = (if format = RELTIME_DAY then d else 0),
      rp_hours = (if format = RELTIME_DAY then h mod 24 else if format = RELTIME_HOUR then h else 0),
      rp_minutes = (if format = RELTIME_DAY \<or> format = RELTIME_HOUR then mi mod 60
                    else if format = RELTIME_MIN then mi else 0),
      rp_seconds = (if format = RELTIME_SEC then s else s mod 60), rp_millis = m mod 1000\<rparr>"
    unfolding reltime_split_def m0(3) Let_def using e by (cases format) simp_all
  show "parts_ok (reltime_split millis format)"
    unfolding p parts_ok_def reltime_parts.simps
    using r s mi h d sum by (cases format) auto
  have v: "(if millis < 0 then - m else m) = millis" by (simp add: m_def)
  have "rp_days (reltime_split millis format) * 86400000 + rp_hours (reltime_split millis format) * 3600000 +
      rp_minutes (reltime_split millis format) * 60000 + rp_seconds (reltime_split millis format) * 1000 +
      rp_millis (reltime_split millis format) = m"
    unfolding p reltime_parts.simps using sum by (cases format) simp_all
  then show "parts_val (reltime_split millis format) = millis"
    using v by (simp add: parts_val_def p)
qed

text \<open>The size of the buffer.\<close>

lemma long_len_digits:
  assumes "0 < i" "i < 10000000000"
  shows "long_len i = int (length (fmt_d i)) + 1"
proof -
  obtain n where n: "i = int n" "0 < n" "n < 10000000000" using assms by (cases i) auto
  have f: "fmt_d i = dec_nat n" using n by (simp add: fmt_d_def)
  have L: "length (dec_nat n) = Suc k" if "10 ^ k \<le> n" "n < 10 ^ Suc k" for k
    using dec_nat_length_ge [OF that(1)] dec_nat_length_le [OF that(2)] by simp
  have mx: "\<not> LONG_MAX < i" using assms by (simp add: LONG_MAX_def)
  consider "n < 10" | "10 \<le> n" "n < 100" | "100 \<le> n" "n < 1000" | "1000 \<le> n" "n < 10000" | "10000 \<le> n" "n < 100000"
    | "100000 \<le> n" "n < 1000000" | "1000000 \<le> n" "n < 10000000" | "10000000 \<le> n" "n < 100000000"
    | "100000000 \<le> n" "n < 1000000000" | "1000000000 \<le> n" by linarith
  then show ?thesis
    unfolding f long_len_def Let_def
    using L [of 0] L [of 1] L [of 2] L [of 3] L [of 4] L [of 5] L [of 6] L [of 7] L [of 8] L [of 9] n mx
    by cases simp_all
qed

lemma fmt_width_3: "0 \<le> i \<Longrightarrow> i < 1000 \<Longrightarrow> length (fmt_width 3 i) = 3"
  using fmt_d_3 [of i] by (simp add: fmt_width_def)

lemma reltime_size_excess:
  assumes "parts_ok p"
  shows "int (length (reltime_text p)) - reltime_size p =
    (if rp_millis p > 0 then (if rp_seconds p > 0 then 2 else 4) - int (length (fmt_d (rp_millis p))) else 0)
    - (if rp_seconds p > 0 then 1 else 0) - (if rp_minutes p > 0 then 1 else 0)
    - (if rp_hours p > 0 then 1 else 0) - (if rp_days p > 0 then 1 else 0)"
proof -
  have z: "length (fmt_d 0) = 1" by (simp add: fmt_d_def dec_nat.simps)
  have L: "long_len (rp_millis p) = int (length (fmt_d (rp_millis p))) + 1" if "0 < rp_millis p"
    by (rule long_len_digits) (use that assms in \<open>auto simp: parts_ok_def\<close>)
  moreover have "long_len (rp_seconds p) = int (length (fmt_d (rp_seconds p))) + 1" if "0 < rp_seconds p"
    by (rule long_len_digits) (use that assms in \<open>auto simp: parts_ok_def\<close>)
  moreover have "long_len (rp_minutes p) = int (length (fmt_d (rp_minutes p))) + 1" if "0 < rp_minutes p"
    by (rule long_len_digits) (use that assms in \<open>auto simp: parts_ok_def\<close>)
  moreover have "long_len (rp_hours p) = int (length (fmt_d (rp_hours p))) + 1" if "0 < rp_hours p"
    by (rule long_len_digits) (use that assms in \<open>auto simp: parts_ok_def\<close>)
  moreover have "long_len (rp_days p) = int (length (fmt_d (rp_days p))) + 1" if "0 < rp_days p"
    by (rule long_len_digits) (use that assms in \<open>auto simp: parts_ok_def\<close>)
  moreover have "length (fmt_width 3 (rp_millis p)) = 3" by (rule fmt_width_3) (use assms in \<open>auto simp: parts_ok_def\<close>)
  moreover have "rp_seconds p > 0 \<or> rp_seconds p = 0" using assms by (auto simp: parts_ok_def)
  ultimately show ?thesis using z by (auto simp: reltime_text_def reltime_size_def)
qed

section \<open>Properties\<close>

text \<open>
  C31: printing a duration and parsing it again gives the number of milliseconds back, in all
  four formats and for both signs, below 24 days (the range the parser accepts).
\<close>

theorem reltime_roundtrip:
  assumes "\<bar>millis\<bar> < 2073600000"
  shows "\<exists>str n. obix_reltime_from_long True millis format = Some (str, n) \<and>
    obix_reltime_to_long str = (0, Some millis)"
proof (cases "millis = 0")
  case True
  have "obix_reltime_to_long OBIX_RELTIME_ZERO = (0, Some 0)" by code_simp
  then show ?thesis using True by (simp add: obix_reltime_from_long_def)
next
  case False
  note r = reltime_split_ok [OF assms, of format]
  have "obix_reltime_to_long (reltime_text (reltime_split millis format)) = (0, Some millis)"
    using reltime_parse [OF r(1)] r(2) False by simp
  then show ?thesis using False by (simp add: obix_reltime_from_long_def Let_def)
qed

theorem reltime_roundtrip_witness:
  "\<exists>str n. obix_reltime_from_long True (- 90061005) RELTIME_DAY = Some (str, n) \<and>
    obix_reltime_to_long str = (0, Some (- 90061005))"
  by (rule reltime_roundtrip) simp

text \<open>
  C34: when the buffer of \<open>obix_reltime_from_long\<close> is large enough.  It is, except for a
  duration with milliseconds but no whole seconds: then the "0" before the point and the
  padding to three places are not counted, and the text with its terminator overruns the
  buffer unless enough of days, hours and minutes are printed to make up for it.
\<close>

theorem reltime_buffer_fits:
  assumes "\<bar>millis\<bar> < 2073600000" "millis \<noteq> 0" "p = reltime_split millis format"
    and "obix_reltime_from_long True millis format = Some (str, bytes)"
  shows "int (length str) + 1 \<le> bytes \<longleftrightarrow> rp_millis p = 0 \<or> rp_seconds p > 0 \<or>
    4 - int (length (fmt_d (rp_millis p))) \<le>
      (if rp_minutes p > 0 then 1 else 0) + (if rp_hours p > 0 then 1 else 0) + (if rp_days p > 0 then 1 else 0)"
proof -
  have ok: "parts_ok p" using reltime_split_ok(1) [OF assms(1)] assms(3) by simp
  have e: "str = reltime_text p" "bytes = reltime_size p + 1"
    using assms(2-4) by (auto simp: obix_reltime_from_long_def Let_def)
  have "1 \<le> length (fmt_d (rp_millis p))"
    using ok dec_nat_ne [of "nat (rp_millis p)"] by (simp add: fmt_d_def parts_ok_def Suc_le_eq)
  moreover have "(int (length str) + 1 \<le> bytes) = (int (length (reltime_text p)) - reltime_size p \<le> 0)"
    by (simp add: e)
  moreover have "rp_millis p = 0 \<or> 0 < rp_millis p" using ok by (auto simp: parts_ok_def)
  ultimately show ?thesis
    unfolding reltime_size_excess [OF ok]
    by (cases "rp_seconds p > 0"; cases "rp_minutes p > 0"; cases "rp_hours p > 0"; cases "rp_days p > 0") auto
qed

theorem reltime_buffer_fits_witness:
  "\<exists>str bytes. obix_reltime_from_long True 5 RELTIME_DAY = Some (str, bytes) \<and> \<not> int (length str) + 1 \<le> bytes"
proof -
  obtain str bytes where s: "obix_reltime_from_long True 5 RELTIME_DAY = Some (str, bytes)"
    by (simp add: obix_reltime_from_long_def Let_def)
  have p: "reltime_split 5 RELTIME_DAY = \<lparr>rp_neg = False, rp_days = 0, rp_hours = 0, rp_minutes = 0, rp_seconds = 0, rp_millis = 5\<rparr>"
    by code_simp
  have "length (fmt_d 5) = 1" by code_simp
  then show ?thesis using reltime_buffer_fits [OF _ _ refl s] p s by simp
qed

end
