(* ===== verification/Obix_Timestamp.thy ===== *)
theory Obix_Timestamp
  imports Obix_Time
begin

text \<open>
  Timestamps in \<open>src/src/libs/obix_utils.c\<close>: from \<open>get_utc_timestamp\<close> to
  \<open>timestamp_get_utc_date\<close>.

  What the code uses of the C library is modelled first: \<open>gmtime_r\<close> and \<open>timegm\<close> on the
  Gregorian calendar (in years, months and days counted from the epoch), and \<open>strptime\<close>
  for \<open>%FT%T%z\<close>.  The latter fills the fields of the structure one after the other and
  stops at the first that does not match; the caller ignores its result, so the fields
  read so far are used.  Allocations in these functions succeed.
\<close>

section \<open>The calendar\<close>

record tm =
  tm_year :: int
  tm_mon :: int
  tm_mday :: int
  tm_hour :: int
  tm_min :: int
  tm_sec :: int
  tm_gmtoff :: int

definition leap :: "int \<Rightarrow> bool" where
  "leap y \<longleftrightarrow> y mod 4 = 0 \<and> (y mod 100 \<noteq> 0 \<or> y mod 400 = 0)"

definition year_days :: "int \<Rightarrow> int" where
  "year_days y = (if leap y then 366 else 365)"

definition month_days :: "int \<Rightarrow> int \<Rightarrow> int" where
  "month_days y m =
     (if m = 1 then (if leap y then 29 else 28)
      else if m = 3 \<or> m = 5 \<or> m = 8 \<or> m = 10 then 30 else 31)"

text \<open>Days from 1 January 1970 to 1 January of a year, and from there to the first of a month.\<close>

definition days_before_year :: "int \<Rightarrow> int" where
  "days_before_year y = 365 * (y - 1970) + (y - 1969) div 4 - (y - 1901) div 100 + (y - 1601) div 400"

definition days_before_month :: "int \<Rightarrow> int \<Rightarrow> int" where
  "days_before_month y m = sum_list (map (\<lambda>i. month_days y (int i)) [0..<nat m])"

definition timegm :: "tm \<Rightarrow> int" where
  "timegm t =
     (days_before_year (tm_year t + 1900) + days_before_month (tm_year t + 1900) (tm_mon t) + (tm_mday t - 1)) * 86400
     + tm_hour t * 3600 + tm_min t * 60 + tm_sec t"

text \<open>Which year and month a day falls into; the fuel bounds the number of years and months.\<close>

fun find_year :: "nat \<Rightarrow> int \<Rightarrow> int \<Rightarrow> int \<times> int" where
  "find_year 0 y d = (y, d)"
| "find_year (Suc f) y d = (if d < year_days y then (y, d) else find_year f (y + 1) (d - year_days y))"

fun find_month :: "nat \<Rightarrow> int \<Rightarrow> int \<Rightarrow> int \<Rightarrow> int \<times> int" where
  "find_month 0 y m d = (m, d)"
| "find_month (Suc f) y m d = (if d < month_days y m then (m, d) else find_month f y (m + 1) (d - month_days y m))"

definition gmtime :: "int \<Rightarrow> tm" where
  "gmtime t =
     (let (y, yd) = find_year (nat (t div 86400)) 1970 (t div 86400);
          (m, md) = find_month 11 y 0 yd;
          r = t mod 86400
      in \<lparr>tm_year = y - 1900, tm_mon = m, tm_mday = md + 1, tm_hour = r div 3600,
          tm_min = r mod 3600 div 60, tm_sec = r mod 60, tm_gmtoff = 0\<rparr>)"

section \<open>strptime\<close>

text \<open>
  A number field: blanks are skipped, then up to \<open>n\<close> digits are read as long as one more
  could still be in range; the value must lie between the bounds.
\<close>

fun num_digits :: "nat \<Rightarrow> int \<Rightarrow> int \<Rightarrow> cstr \<Rightarrow> int \<times> cstr" where
  "num_digits 0 hi v s = (v, s)"
| "num_digits (Suc n) hi v [] = (v, [])"
| "num_digits (Suc n) hi v (c # s) =
     (if isdigit c \<and> v * 10 \<le> hi then num_digits n hi (10 * v + digit_val c) s else (v, c # s))"

definition get_number :: "int \<Rightarrow> int \<Rightarrow> nat \<Rightarrow> cstr \<Rightarrow> (int \<times> cstr) option" where
  "get_number lo hi n s0 =
     (let s = dropWhile isspace s0 in
      if \<not> isdigit (cget s 0) then None
      else let (v, r) = num_digits (n - 1) hi (digit_val (hd s)) (tl s)
           in if v < lo \<or> v > hi then None else Some (v, r))"

definition expect :: "char \<Rightarrow> cstr \<Rightarrow> cstr option" where
  "expect c s = (if cget s 0 = c then Some (tl s) else None)"

text \<open>The offset: up to four digits, a colon allowed after the second.\<close>

fun off_digits :: "nat \<Rightarrow> int \<Rightarrow> nat \<Rightarrow> cstr \<Rightarrow> int \<times> nat \<times> cstr" where
  "off_digits 0 v n s = (v, n, s)"
| "off_digits (Suc f) v n s =
     (if n < 4 \<and> isdigit (cget s 0) then
        let r = tl s; n' = n + 1;
            r' = (if cget r 0 = CHR '':'' \<and> n' = 2 \<and> isdigit (cget r 1) then tl r else r)
        in off_digits f (v * 10 + digit_val (hd s)) n' r'
      else (v, n, s))"

definition get_offset :: "cstr \<Rightarrow> int option" where
  "get_offset s0 =
     (let s = dropWhile isspace s0 in
      if cget s 0 = CHR ''Z'' then Some 0
      else if cget s 0 \<noteq> CHR ''+'' \<and> cget s 0 \<noteq> CHR ''-'' then None
      else
        let (v, n, _) = off_digits 4 0 0 (tl s);
            v' = (if n = 2 then v * 100 else v)
        in if n \<noteq> 2 \<and> n \<noteq> 4 then None
           else if n = 4 \<and> v' mod 100 \<ge> 60 then None
           else Some ((if cget s 0 = CHR ''-'' then - 1 else 1) * (v' div 100 * 3600 + v' mod 100 * 60)))"

text \<open>One field after the other, each followed by what the format has next.\<close>

definition strp_z :: "tm \<Rightarrow> cstr \<Rightarrow> tm" where
  "strp_z t s = (case get_offset s of None \<Rightarrow> t | Some off \<Rightarrow> t\<lparr>tm_gmtoff := off\<rparr>)"

definition strp_S :: "tm \<Rightarrow> cstr \<Rightarrow> tm" where
  "strp_S t s = (case get_number 0 61 2 s of None \<Rightarrow> t | Some (v, r) \<Rightarrow> strp_z (t\<lparr>tm_sec := v\<rparr>) r)"

definition strp_M :: "tm \<Rightarrow> cstr \<Rightarrow> tm" where
  "strp_M t s = (case get_number 0 59 2 s of None \<Rightarrow> t
     | Some (v, r) \<Rightarrow> (let t = t\<lparr>tm_min := v\<rparr> in case expect (CHR '':'') r of None \<Rightarrow> t | Some r' \<Rightarrow> strp_S t r'))"

definition strp_H :: "tm \<Rightarrow> cstr \<Rightarrow> tm" where
  "strp_H t s = (case get_number 0 23 2 s of None \<Rightarrow> t
     | Some (v, r) \<Rightarrow> (let t = t\<lparr>tm_hour := v\<rparr> in case expect (CHR '':'') r of None \<Rightarrow> t | Some r' \<Rightarrow> strp_M t r'))"

definition strp_d :: "tm \<Rightarrow> cstr \<Rightarrow> tm" where
  "strp_d t s = (case get_number 1 31 2 s of None \<Rightarrow> t
     | Some (v, r) \<Rightarrow> (let t = t\<lparr>tm_mday := v\<rparr> in case expect (CHR ''T'') r of None \<Rightarrow> t | Some r' \<Rightarrow> strp_H t r'))"

definition strp_m :: "tm \<Rightarrow> cstr \<Rightarrow> tm" where
  "strp_m t s = (case get_number 1 12 2 s of None \<Rightarrow> t
     | Some (v, r) \<Rightarrow> (let t = t\<lparr>tm_mon := v - 1\<rparr> in case expect (CHR ''-'') r of None \<Rightarrow> t | Some r' \<Rightarrow> strp_d t r'))"

definition strptime :: "tm \<Rightarrow> cstr \<Rightarrow> tm" where
  "strptime t s = (case get_number 0 9999 4 s of None \<Rightarrow> t
     | Some (v, r) \<Rightarrow> (let t = t\<lparr>tm_year := v - 1900\<rparr> in case expect (CHR ''-'') r of None \<Rightarrow> t | Some r' \<Rightarrow> strp_m t r'))"

section \<open>Timestamps\<close>

definition HIST_TS_INIT :: cstr where "HIST_TS_INIT = ''1970-01-01T00:00:00Z''"
definition HIST_DATE_INIT :: cstr where "HIST_DATE_INIT = ''1970-01-01''"

definition date_text :: "tm \<Rightarrow> cstr" where
  "date_text t = fmt_width 4 (tm_year t + 1900) @ ''-'' @ fmt_prec 2 (tm_mon t + 1) @ ''-'' @ fmt_prec 2 (tm_mday t)"

definition get_utc_timestamp :: "int \<Rightarrow> cstr option" where
  "get_utc_timestamp t =
     (if t < 0 then None
      else if t = 0 then Some HIST_TS_INIT
      else let tm = gmtime t in
           Some (date_text tm @ ''T'' @ fmt_prec 2 (tm_hour tm) @ '':'' @ fmt_prec 2 (tm_min tm) @ '':''
                 @ fmt_prec 2 (tm_sec tm) @ ''Z''))"

definition get_utc_date :: "int \<Rightarrow> cstr option" where
  "get_utc_date t =
     (if t < 0 then None else if t = 0 then Some HIST_DATE_INIT else Some (date_text (gmtime t)))"

text \<open>The part of a string before the first occurrence of a character, and from there on.\<close>

definition before_char :: "char \<Rightarrow> cstr \<Rightarrow> cstr" where
  "before_char c s = takeWhile (\<lambda>x. x \<noteq> c) s"

definition from_char :: "char \<Rightarrow> cstr \<Rightarrow> cstr" where
  "from_char c s = dropWhile (\<lambda>x. x \<noteq> c) s"

definition timestamp_split :: "cstr \<Rightarrow> (cstr \<times> cstr \<times> cstr option) option" where
  "timestamp_split ts =
     (if CHR ''T'' \<notin> set ts then None
      else
        let date = before_char (CHR ''T'') ts; rest = tl (from_char (CHR ''T'') ts) in
        if rest = [] then None
        else
          let sep = (if CHR ''Z'' \<in> set rest then Some (CHR ''Z'')
                     else if CHR ''-'' \<in> set rest then Some (CHR ''-'')
                     else if CHR ''+'' \<in> set rest then Some (CHR ''+'') else None)
          in case sep of
               None \<Rightarrow> Some (date, rest, None)
             | Some c \<Rightarrow>
                 if c = CHR ''Z'' then Some (date, before_char c rest, Some ''Z'')
                 else let tz = tl (from_char c rest) in
                      if tz = [] then None else Some (date, before_char c rest, Some tz))"

text \<open>One number of \<open>time_to_long\<close>: the value and the string at \<open>endptr\<close>.\<close>

definition time_field :: "cstr \<Rightarrow> (int \<times> cstr) option" where
  "time_field s =
     (let (v, n, erange) = strtol s in
      if (erange \<and> (v = LONG_MAX \<or> v = LONG_MIN)) \<or> (erange \<and> v = 0) then None
      else if n = 0 then None
      else Some (v, drop n s))"

definition time_to_long :: "cstr option \<Rightarrow> char \<Rightarrow> (int \<times> int \<times> int) option" where
  "time_to_long str delimiter =
     (case str of None \<Rightarrow> None
      | Some s \<Rightarrow>
        (case time_field s of None \<Rightarrow> None
         | Some (x, e) \<Rightarrow>
           if cget e 0 \<noteq> delimiter then None
           else case time_field (tl e) of None \<Rightarrow> None
             | Some (y, e) \<Rightarrow>
               if cget e 0 \<noteq> delimiter then None
               else case time_field (tl e) of None \<Rightarrow> None
                 | Some (z, e) \<Rightarrow> if cget e 0 \<noteq> NUL then None else Some (x, y, z)))"

definition atoi :: "cstr \<Rightarrow> int" where
  "atoi s = fst (strtol s)"

definition timezone_is_valid :: "cstr option \<Rightarrow> int" where
  "timezone_is_valid tz =
     (case tz of None \<Rightarrow> 1
      | Some z \<Rightarrow>
          if z = ''Z'' then 1
          else if \<exists>c \<in> set z. \<not> isdigit c then 0
          else if length z = 2 then (if atoi z \<le> 12 then 1 else 0)
          else if length z = 4 then
            let hour = atoi (take 2 z) in
            if hour < 12 then (if c_mod (atoi (drop 2 z)) 15 = 0 then 1 else 0)
            else if hour = 12 then (if atoi (drop 2 z) = 0 then 1 else 0)
            else 0
          else 0)"

definition timestamp_is_valid :: "cstr option \<Rightarrow> int" where
  "timestamp_is_valid ts =
     (case ts of None \<Rightarrow> 0
      | Some s \<Rightarrow>
        (case timestamp_split s of None \<Rightarrow> 0
         | Some (date, time, tz) \<Rightarrow>
             if time_to_long (Some date) (CHR ''-'') = None \<or> time_to_long (Some time) (CHR '':'') = None then 0
             else timezone_is_valid tz))"

definition zero_tm :: tm where
  "zero_tm = \<lparr>tm_year = 0, tm_mon = 0, tm_mday = 0, tm_hour = 0, tm_min = 0, tm_sec = 0, tm_gmtoff = 0\<rparr>"

definition timestamp_to_utc_time :: "cstr option \<Rightarrow> int" where
  "timestamp_to_utc_time ts =
     (case ts of None \<Rightarrow> 0
      | Some s \<Rightarrow>
          if timestamp_is_valid ts = 0 then - 1
          else let t = strptime zero_tm s
               in timegm (t\<lparr>tm_sec := tm_sec t - tm_gmtoff t, tm_gmtoff := 0\<rparr>))"

text \<open>\<open>timestamp_compare\<close>: \<open>None\<close> for a negative return value, else \<open>*res\<close> and \<open>*new_day\<close>.\<close>

definition timestamp_compare :: "cstr option \<Rightarrow> cstr option \<Rightarrow> (int \<times> int) option" where
  "timestamp_compare ts1 ts2 =
     (if ts1 = None \<or> ts2 = None then None
      else
        let time1 = timestamp_to_utc_time ts1; time2 = timestamp_to_utc_time ts2 in
        if time1 < 0 \<or> time2 < 0 then None
        else if time1 < time2 then Some (- 1, 0)
        else if time1 = time2 then Some (0, 0)
        else if time2 = 0 then Some (1, 1)
        else case (get_utc_date time1, get_utc_date time2) of
               (Some d1, Some d2) \<Rightarrow> Some (1, if d1 \<noteq> d2 then 1 else 0)
             | _ \<Rightarrow> None)"

definition timestamp_compare_date :: "cstr option \<Rightarrow> cstr option \<Rightarrow> int option" where
  "timestamp_compare_date date1 date2 =
     (if date1 = None \<or> date2 = None then None
      else case (time_to_long date1 (CHR ''-''), time_to_long date2 (CHR ''-'')) of
        (Some (y1, m1, d1), Some (y2, m2, d2)) \<Rightarrow>
          Some (if y1 < y2 \<or> (y1 = y2 \<and> m1 < m2) \<or> (y1 = y2 \<and> m1 = m2 \<and> d1 < d2) then - 1
                else if y1 = y2 \<and> m1 = m2 \<and> d1 = d2 then 0 else 1)
      | _ \<Rightarrow> None)"

definition timestamp_has_common :: "cstr option \<Rightarrow> cstr option \<Rightarrow> cstr option \<Rightarrow> cstr option \<Rightarrow> int" where
  "timestamp_has_common start end oldest latest =
     (case timestamp_compare start latest of None \<Rightarrow> - 2
      | Some (res, _) \<Rightarrow>
          if res = 1 then - 3
          else case timestamp_compare end oldest of None \<Rightarrow> - 2
               | Some (res, _) \<Rightarrow> if res = - 1 then - 4 else 1)"

text \<open>The return value and the new \<open>*start\<close> and \<open>*end\<close>.\<close>

definition timestamp_find_common ::
  "cstr option \<Rightarrow> cstr option \<Rightarrow> cstr option \<Rightarrow> cstr option \<Rightarrow> int \<times> cstr option \<times> cstr option" where
  "timestamp_find_common start end oldest latest =
     (case timestamp_compare start oldest of None \<Rightarrow> (- 1, start, end)
      | Some (res, _) \<Rightarrow>
          let start' = (if res = - 1 then oldest else start) in
          case timestamp_compare end latest of None \<Rightarrow> (- 1, start', end)
          | Some (res, _) \<Rightarrow> (0, start', if res = 1 then latest else end))"

definition timestamp_get_utc_date :: "cstr option \<Rightarrow> cstr option" where
  "timestamp_get_utc_date ts =
     (let time = timestamp_to_utc_time ts in if time < 0 then None else get_utc_date time)"

section \<open>The timestamp round trip\<close>

definition tm_ok :: "tm \<Rightarrow> bool" where
  "tm_ok t \<longleftrightarrow> 1000 \<le> tm_year t + 1900 \<and> tm_year t + 1900 < 10000 \<and> 0 \<le> tm_mon t \<and> tm_mon t \<le> 11 \<and>
     1 \<le> tm_mday t \<and> tm_mday t \<le> 31 \<and> 0 \<le> tm_hour t \<and> tm_hour t \<le> 23 \<and> 0 \<le> tm_min t \<and> tm_min t \<le> 59 \<and>
     0 \<le> tm_sec t \<and> tm_sec t \<le> 59 \<and> tm_gmtoff t = 0"

definition clock_text :: "tm \<Rightarrow> cstr" where
  "clock_text t = fmt_prec 2 (tm_hour t) @ '':'' @ fmt_prec 2 (tm_min t) @ '':'' @ fmt_prec 2 (tm_sec t)"

section \<open>The calendar\<close>

lemma year_days_bounds: "365 \<le> year_days y" "year_days y \<le> 366"
  by (simp_all add: year_days_def)

lemma div_step: "0 < b \<Longrightarrow> (a + 1) div b = a div b + (if (a + 1) mod b = 0 then 1 else 0)" for a b :: int
proof -
  assume b: "0 < b"
  have r: "0 \<le> a mod b" "a mod b < b" using b by simp_all
  have a: "b * (a div b) + a mod b = a" by simp
  show ?thesis
  proof (cases "a mod b + 1 = b")
    case True
    have "b * (a div b + 1) = b * (a div b) + b" by (simp only: distrib_left mult_1_right)
    then have "a + 1 = b * (a div b + 1) + 0" using a True by linarith
    then have "(a + 1) div b = a div b + 1" "(a + 1) mod b = 0"
      using b int_div_pos_eq [of "a + 1" b "a div b + 1" 0] int_mod_pos_eq [of "a + 1" b "a div b + 1" 0] by simp_all
    then show ?thesis by simp
  next
    case False
    then have "a + 1 = b * (a div b) + (a mod b + 1)" "a mod b + 1 < b" using a r by linarith+
    then have "(a + 1) div b = a div b" "(a + 1) mod b = a mod b + 1"
      using r int_div_pos_eq [of "a + 1" b "a div b" "a mod b + 1"] int_mod_pos_eq [of "a + 1" b "a div b" "a mod b + 1"]
      by simp_all
    then show ?thesis using r by simp
  qed
qed

lemma mod_shift: "(y - k * b) mod b = y mod b" for y k b :: int
  by (metis mod_diff_eq mod_mult_self2_is_0 diff_zero mod_mod_trivial)

lemma days_before_year_Suc: "days_before_year (y + 1) = days_before_year y + year_days y"
proof -
  have a: "(y + 1 - 1969) div 4 = (y - 1969) div 4 + (if y mod 4 = 0 then 1 else 0)"
    using div_step [of 4 "y - 1969"] mod_shift [of y 492 4] by (simp add: algebra_simps)
  have b: "(y + 1 - 1901) div 100 = (y - 1901) div 100 + (if y mod 100 = 0 then 1 else 0)"
    using div_step [of 100 "y - 1901"] mod_shift [of y 19 100] by (simp add: algebra_simps)
  have c: "(y + 1 - 1601) div 400 = (y - 1601) div 400 + (if y mod 400 = 0 then 1 else 0)"
    using div_step [of 400 "y - 1601"] mod_shift [of y 4 400] by (simp add: algebra_simps)
  have d: "y mod 400 = 0 \<Longrightarrow> y mod 100 = 0" "y mod 100 = 0 \<Longrightarrow> y mod 4 = 0"
    by (auto simp: mod_eq_0_iff_dvd intro: dvd_trans [rotated])
  show ?thesis
    unfolding days_before_year_def a b c year_days_def leap_def using d
    by (cases "y mod 400 = 0"; cases "y mod 100 = 0"; cases "y mod 4 = 0") simp_all
qed

lemma days_before_year_mono: "y \<le> z \<Longrightarrow> days_before_year y \<le> days_before_year z"
proof (induction z rule: int_ge_induct)
  case (step z)
  then show ?case using days_before_year_Suc [of z] year_days_bounds [of z] by linarith
qed simp

lemma days_before_year_1970: "days_before_year 1970 = 0"
  by (simp add: days_before_year_def)

lemma find_year_spec:
  assumes "0 \<le> d" "d < 365 * (int f + 1)" "find_year f y d = (y', d')"
  shows "y \<le> y' \<and> 0 \<le> d' \<and> d' < year_days y' \<and> days_before_year y' + d' = days_before_year y + d"
  using assms
proof (induction f arbitrary: y d)
  case 0
  then show ?case using year_days_bounds [of y] by simp
next
  case (Suc f)
  show ?case
  proof (cases "d < year_days y")
    case False
    then have "find_year f (y + 1) (d - year_days y) = (y', d')" "0 \<le> d - year_days y"
      "d - year_days y < 365 * (int f + 1)"
      using Suc.prems year_days_bounds [of y] by auto
    from Suc.IH [OF this(2,3,1)] show ?thesis using days_before_year_Suc [of y] by auto
  qed (use Suc.prems in auto)
qed

lemma days_before_month_Suc: "0 \<le> m \<Longrightarrow> days_before_month y (m + 1) = days_before_month y m + month_days y m"
  by (simp add: days_before_month_def nat_add_distrib)

lemma days_before_month_12: "days_before_month y 12 = year_days y"
proof -
  have "[0..<12] = [0, 1, 2, 3, 4, 5, 6, 7, 8, 9, 10, 11]" by code_simp
  then show ?thesis by (simp add: days_before_month_def month_days_def year_days_def)
qed

lemma find_month_spec:
  assumes "0 \<le> m" "m + int f = 11" "0 \<le> d" "days_before_month y m + d < year_days y" "find_month f y m d = (m', d')"
  shows "0 \<le> m' \<and> m' \<le> 11 \<and> 0 \<le> d' \<and> d' < month_days y m' \<and> days_before_month y m' + d' = days_before_month y m + d"
  using assms
proof (induction f arbitrary: m d)
  case 0
  then have "m = 11" by simp
  then show ?case using 0 days_before_month_Suc [of 11 y] days_before_month_12 [of y] by auto
next
  case (Suc f)
  show ?case
  proof (cases "d < month_days y m")
    case False
    then have "find_month f y (m + 1) (d - month_days y m) = (m', d')" using Suc.prems by simp
    then show ?thesis
      using Suc.IH [of "m + 1" "d - month_days y m"] Suc.prems False days_before_month_Suc [of m y] by auto
  qed (use Suc.prems in auto)
qed

lemma gmtime_spec:
  assumes "0 \<le> t"
  shows "timegm (gmtime t) = t" "1970 \<le> tm_year (gmtime t) + 1900" "0 \<le> tm_mon (gmtime t)" "tm_mon (gmtime t) \<le> 11"
    "1 \<le> tm_mday (gmtime t)" "tm_mday (gmtime t) \<le> 31" "0 \<le> tm_hour (gmtime t)" "tm_hour (gmtime t) \<le> 23"
    "0 \<le> tm_min (gmtime t)" "tm_min (gmtime t) \<le> 59" "0 \<le> tm_sec (gmtime t)" "tm_sec (gmtime t) \<le> 59"
    "tm_gmtoff (gmtime t) = 0" "t < 253402300800 \<Longrightarrow> tm_year (gmtime t) + 1900 \<le> 9999"
proof -
  let ?D = "t div 86400" and ?r = "t mod 86400"
  have D: "0 \<le> ?D" using assms by (simp add: pos_imp_zdiv_nonneg_iff)
  obtain y yd where y: "find_year (nat ?D) 1970 ?D = (y, yd)" by fastforce
  have ys: "1970 \<le> y" "0 \<le> yd" "yd < year_days y" "days_before_year y + yd = ?D"
    using find_year_spec [OF D _ y] D days_before_year_1970 by auto
  obtain m md where m: "find_month 11 y 0 yd = (m, md)" by fastforce
  have "days_before_month y 0 = 0" by (simp add: days_before_month_def)
  then have ms: "0 \<le> m" "m \<le> 11" "0 \<le> md" "md < month_days y m" "days_before_month y m + md = yd"
    using find_month_spec [OF _ _ ys(2) _ m] ys(3) by auto
  have g: "gmtime t = \<lparr>tm_year = y - 1900, tm_mon = m, tm_mday = md + 1, tm_hour = ?r div 3600,
      tm_min = ?r mod 3600 div 60, tm_sec = ?r mod 60, tm_gmtoff = 0\<rparr>"
    by (simp add: gmtime_def y m Let_def)
  have r: "0 \<le> ?r" "?r < 86400" by simp_all
  have hms: "?r = ?r div 3600 * 3600 + ?r mod 3600 div 60 * 60 + ?r mod 60"
  proof -
    have "?r mod 3600 mod 60 = ?r mod 60" by (simp add: mod_mod_cancel)
    then show ?thesis using div_mult_mod_eq [of ?r 3600] div_mult_mod_eq [of "?r mod 3600" 60] by linarith
  qed
  have "(days_before_year y + days_before_month y m + md) * 86400 + ?r = t"
    using ys(4) ms(5) by (simp add: add.assoc)
  moreover have "timegm (gmtime t) = (days_before_year y + days_before_month y m + md) * 86400 +
      (?r div 3600 * 3600 + ?r mod 3600 div 60 * 60 + ?r mod 60)"
    by (simp only: timegm_def g tm.simps diff_add_cancel add_diff_cancel_right' add.assoc)
  ultimately show "timegm (gmtime t) = t" unfolding hms [symmetric] by (rule trans [rotated])
  show "1970 \<le> tm_year (gmtime t) + 1900" "0 \<le> tm_mon (gmtime t)" "tm_mon (gmtime t) \<le> 11"
    "1 \<le> tm_mday (gmtime t)" "tm_gmtoff (gmtime t) = 0"
    using ys ms by (simp_all add: g)
  have "month_days y m \<le> 31" by (simp add: month_days_def)
  then show "tm_mday (gmtime t) \<le> 31" using ms by (simp add: g)
  show "0 \<le> tm_hour (gmtime t)" "0 \<le> tm_min (gmtime t)" "0 \<le> tm_sec (gmtime t)"
    using r by (simp_all add: g pos_imp_zdiv_nonneg_iff)
  have "?r div 3600 < 24" "?r mod 3600 div 60 < 60" "?r mod 60 < 60" using r by (auto simp: div_less_iff_less_mult)
  then show "tm_hour (gmtime t) \<le> 23" "tm_min (gmtime t) \<le> 59" "tm_sec (gmtime t) \<le> 59" by (simp_all add: g)
  show "tm_year (gmtime t) + 1900 \<le> 9999" if "t < 253402300800"
  proof (rule ccontr)
    assume "\<not> ?thesis"
    then have "10000 \<le> y" by (simp add: g)
    then have "days_before_year 10000 \<le> ?D" using days_before_year_mono [of 10000 y] ys by linarith
    moreover have "days_before_year 10000 = 2932897" by (simp add: days_before_year_def)
    moreover have "?D < 2932897" using that by (simp add: div_less_iff_less_mult)
    ultimately show False by simp
  qed
qed

section \<open>Fixed-width numbers\<close>

text \<open>The digits of a number of two and of four places.\<close>

lemma fmt_prec_2:
  assumes "0 \<le> v" "v < 100"
  obtains a b where "a < 10" "b < 10" "v = 10 * int a + int b" "fmt_prec 2 v = [digit_char a, digit_char b]"
proof -
  obtain n where n: "v = int n" "n < 100" using assms by (cases v) auto
  have s: "n = 10 * (n div 10) + n mod 10" "n div 10 < 10" "n mod 10 < 10" using n by auto
  have "fmt_prec 2 v = [digit_char (n div 10), digit_char (n mod 10)]"
  proof (cases "n < 10")
    case True
    then have "fmt_d v = [digit_char n]" by (simp add: n fmt_d_def dec_nat.simps)
    moreover have "digit_char 0 = CHR ''0''" by code_simp
    ultimately show ?thesis using True by (simp add: fmt_prec_def)
  next
    case False
    then have "fmt_d v = [digit_char (n div 10), digit_char (n mod 10)]"
      using s(2) by (simp add: n fmt_d_def dec_nat.simps [of n] dec_nat.simps [of "n div 10"])
    then show ?thesis by (simp add: fmt_prec_def)
  qed
  moreover have "v = 10 * int (n div 10) + int (n mod 10)" using s(1) n(1) by linarith
  ultimately show ?thesis using that s(2,3) by blast
qed

lemma fmt_width_4:
  assumes "1000 \<le> v" "v < 10000"
  obtains a b c d where "a < 10" "b < 10" "c < 10" "d < 10" "v = 10 * (10 * (10 * int a + int b) + int c) + int d"
    "fmt_width 4 v = [digit_char a, digit_char b, digit_char c, digit_char d]"
proof -
  obtain n where n: "v = int n" "1000 \<le> n" "n < 10000" using assms by (cases v) auto
  define x where "x = n div 10"
  define y where "y = x div 10"
  define z where "z = y div 10"
  have x: "n = 10 * x + n mod 10" "100 \<le> x" "x < 1000" using n by (auto simp: x_def)
  have y: "x = 10 * y + x mod 10" "10 \<le> y" "y < 100" using x by (auto simp: y_def)
  have z: "y = 10 * z + y mod 10" "z < 10" using y by (auto simp: z_def)
  have ints: "int n = 10 * int x + int (n mod 10)" "int x = 10 * int y + int (x mod 10)" "int y = 10 * int z + int (y mod 10)"
    using arg_cong [OF x(1), of int] arg_cong [OF y(1), of int] arg_cong [OF z(1), of int]
    by (simp_all only: of_nat_add of_nat_mult of_nat_numeral)
  have "dec_nat n = [digit_char z, digit_char (y mod 10), digit_char (x mod 10), digit_char (n mod 10)]"
    using n x y z by (simp add: dec_nat.simps [of n] dec_nat.simps [of x] dec_nat.simps [of y] dec_nat.simps [of z]
        x_def [symmetric] y_def [symmetric] z_def [symmetric])
  then have "fmt_width 4 v = [digit_char z, digit_char (y mod 10), digit_char (x mod 10), digit_char (n mod 10)]"
    by (simp add: n(1) fmt_width_def fmt_d_def)
  moreover have "v = 10 * (10 * (10 * int z + int (y mod 10)) + int (x mod 10)) + int (n mod 10)"
    unfolding n(1) ints by (rule refl)
  moreover have "y mod 10 < 10" "x mod 10 < 10" "n mod 10 < 10" by simp_all
  ultimately show ?thesis using that z(2) by blast
qed

text \<open>Reading such numbers back, with \<open>strptime\<close> and with \<open>strtol\<close>.\<close>

lemma get_number_2:
  assumes "lo \<le> v" "v \<le> hi" "0 \<le> v" "v < 100"
  shows "get_number lo hi 2 (fmt_prec 2 v @ r) = Some (v, r)"
proof -
  obtain a b where d: "a < 10" "b < 10" "v = 10 * int a + int b" "fmt_prec 2 v = [digit_char a, digit_char b]"
    using fmt_prec_2 [OF assms(3,4)] by blast
  have "int a * 10 \<le> hi" using d(3) assms(2) by simp
  then show ?thesis
    unfolding d(4) using assms(1,2) d(3) digit_char_props [OF d(1)] digit_char_props [OF d(2)]
    by (simp add: get_number_def)
qed

lemma get_number_4:
  assumes "1000 \<le> v" "v < 10000"
  shows "get_number 0 9999 4 (fmt_width 4 v @ r) = Some (v, r)"
proof -
  obtain a b c e where d: "a < 10" "b < 10" "c < 10" "e < 10" "v = 10 * (10 * (10 * int a + int b) + int c) + int e"
    "fmt_width 4 v = [digit_char a, digit_char b, digit_char c, digit_char e]"
    using fmt_width_4 [OF assms] by blast
  have le: "int a * 10 \<le> 9999" "(10 * int a + int b) * 10 \<le> 9999" "(10 * (10 * int a + int b) + int c) * 10 \<le> 9999"
    using d(1-5) assms(2) by auto
  note dp = digit_char_props [OF d(1)] digit_char_props [OF d(2)] digit_char_props [OF d(3)] digit_char_props [OF d(4)]
  have "num_digits 3 9999 (int a) (digit_char b # digit_char c # digit_char e # r) = (v, r)"
    using dp le d(5) by (simp add: numeral_3_eq_3 algebra_simps)
  then show ?thesis using assms dp unfolding d(6) get_number_def by simp
qed

lemma strtol_digits:
  assumes "ds \<noteq> []" "\<forall>c \<in> set ds. isdigit c \<and> \<not> isspace c \<and> c \<noteq> CHR ''-'' \<and> c \<noteq> CHR ''+''"
    "r = [] \<or> \<not> isdigit (hd r)" "0 \<le> digits_val ds" "digits_val ds \<le> LONG_MAX"
  shows "strtol (ds @ r) = (digits_val ds, length ds, False)"
proof -
  obtain d e where d: "ds = d # e" using assms(1) by (cases ds) auto
  have "takeWhile isdigit (ds @ r) = ds"
    using assms(2,3) by (cases r) (auto simp: takeWhile_append2 takeWhile_eq_all_conv)
  then show ?thesis using assms d by (simp add: strtol_def Let_def LONG_MIN_def)
qed

lemma time_field_digits:
  assumes "ds \<noteq> []" "\<forall>c \<in> set ds. isdigit c \<and> \<not> isspace c \<and> c \<noteq> CHR ''-'' \<and> c \<noteq> CHR ''+''"
    "r = [] \<or> \<not> isdigit (hd r)" "0 \<le> digits_val ds" "digits_val ds \<le> LONG_MAX"
  shows "time_field (ds @ r) = Some (digits_val ds, r)"
  using strtol_digits [OF assms] assms(1) by (simp add: time_field_def)

lemma fmt_2_digits:
  assumes "0 \<le> v" "v < 100"
  shows "fmt_prec 2 v \<noteq> []" "\<forall>c \<in> set (fmt_prec 2 v). isdigit c \<and> \<not> isspace c \<and> c \<noteq> CHR ''-'' \<and> c \<noteq> CHR ''+''"
    "digits_val (fmt_prec 2 v) = v"
proof -
  obtain a b where d: "a < 10" "b < 10" "v = 10 * int a + int b" "fmt_prec 2 v = [digit_char a, digit_char b]"
    using fmt_prec_2 [OF assms] by blast
  note dp = digit_char_props [OF d(1)] digit_char_props [OF d(2)]
  show "fmt_prec 2 v \<noteq> []" "\<forall>c \<in> set (fmt_prec 2 v). isdigit c \<and> \<not> isspace c \<and> c \<noteq> CHR ''-'' \<and> c \<noteq> CHR ''+''"
    "digits_val (fmt_prec 2 v) = v"
    unfolding d(4) using dp d(3) by (simp_all add: digits_val_def)
qed

lemma fmt_4_digits:
  assumes "1000 \<le> v" "v < 10000"
  shows "fmt_width 4 v \<noteq> []" "\<forall>c \<in> set (fmt_width 4 v). isdigit c \<and> \<not> isspace c \<and> c \<noteq> CHR ''-'' \<and> c \<noteq> CHR ''+''"
    "digits_val (fmt_width 4 v) = v"
proof -
  obtain a b c e where d: "a < 10" "b < 10" "c < 10" "e < 10" "v = 10 * (10 * (10 * int a + int b) + int c) + int e"
    "fmt_width 4 v = [digit_char a, digit_char b, digit_char c, digit_char e]"
    using fmt_width_4 [OF assms] by blast
  note dp = digit_char_props [OF d(1)] digit_char_props [OF d(2)] digit_char_props [OF d(3)] digit_char_props [OF d(4)]
  show "fmt_width 4 v \<noteq> []" "\<forall>c \<in> set (fmt_width 4 v). isdigit c \<and> \<not> isspace c \<and> c \<noteq> CHR ''-'' \<and> c \<noteq> CHR ''+''"
    "digits_val (fmt_width 4 v) = v"
    unfolding d(6) using dp d(5) by (simp_all add: digits_val_def)
qed

lemma time_field_2: "0 \<le> v \<Longrightarrow> v < 100 \<Longrightarrow> r = [] \<or> \<not> isdigit (hd r) \<Longrightarrow> time_field (fmt_prec 2 v @ r) = Some (v, r)"
  using time_field_digits [of "fmt_prec 2 v" r] fmt_2_digits [of v] by (simp add: LONG_MAX_def)

lemma time_field_4: "1000 \<le> v \<Longrightarrow> v < 10000 \<Longrightarrow> r = [] \<or> \<not> isdigit (hd r) \<Longrightarrow> time_field (fmt_width 4 v @ r) = Some (v, r)"
  using time_field_digits [of "fmt_width 4 v" r] fmt_4_digits [of v] by (simp add: LONG_MAX_def)

lemma punctuation:
  "\<not> isdigit (CHR ''-'')" "\<not> isdigit (CHR '':'')" "\<not> isdigit (CHR ''T'')" "\<not> isdigit (CHR ''Z'')"
  "\<not> isspace (CHR ''Z'')" "(CHR ''-'') \<noteq> NUL" "(CHR '':'') \<noteq> NUL"
  by code_simp+

lemma strptime_text:
  assumes "tm_ok t"
  shows "strptime zero_tm (date_text t @ ''T'' @ clock_text t @ ''Z'') = t"
proof -
  have "get_offset ''Z'' = Some 0" by code_simp
  then show ?thesis
    using assms
    by (cases t) (simp add: tm_ok_def date_text_def clock_text_def strptime_def strp_m_def strp_d_def strp_H_def strp_M_def
        strp_S_def strp_z_def get_number_4 get_number_2 expect_def zero_tm_def Let_def)
qed

lemma date_chars:
  assumes "tm_ok t"
  shows "CHR ''T'' \<notin> set (date_text t)" "CHR ''Z'' \<notin> set (clock_text t)"
proof -
  have m: "0 \<le> tm_mon t + 1" "tm_mon t + 1 < 100" "0 \<le> tm_mday t" "tm_mday t < 100" "0 \<le> tm_hour t" "tm_hour t < 100"
      "0 \<le> tm_min t" "tm_min t < 100" "0 \<le> tm_sec t" "tm_sec t < 100" "1000 \<le> tm_year t + 1900" "tm_year t + 1900 < 10000"
    using assms by (auto simp: tm_ok_def)
  show "CHR ''T'' \<notin> set (date_text t)"
    using fmt_4_digits(2) [OF m(11,12)] fmt_2_digits(2) [OF m(1,2)] fmt_2_digits(2) [OF m(3,4)] punctuation
    by (auto simp: date_text_def)
  show "CHR ''Z'' \<notin> set (clock_text t)"
    using fmt_2_digits(2) [OF m(5,6)] fmt_2_digits(2) [OF m(7,8)] fmt_2_digits(2) [OF m(9,10)] punctuation
    by (auto simp: clock_text_def)
qed

lemma split_text:
  assumes "tm_ok t"
  shows "timestamp_split (date_text t @ ''T'' @ clock_text t @ ''Z'') = Some (date_text t, clock_text t, Some ''Z'')"
  using date_chars [OF assms]
  by (simp add: timestamp_split_def before_char_def from_char_def takeWhile_tail dropWhile_append3
      takeWhile_append dropWhile_append Let_def)

lemma valid_text:
  assumes "tm_ok t"
  shows "timestamp_is_valid (Some (date_text t @ ''T'' @ clock_text t @ ''Z'')) = 1"
proof -
  have "time_to_long (Some (date_text t)) (CHR ''-'') \<noteq> None"
    using assms time_field_2 [of "tm_mday t" "[]"] punctuation
    by (simp add: tm_ok_def time_to_long_def date_text_def time_field_4 time_field_2)
  moreover have "time_to_long (Some (clock_text t)) (CHR '':'') \<noteq> None"
    using assms time_field_2 [of "tm_sec t" "[]"] punctuation
    by (simp add: tm_ok_def time_to_long_def clock_text_def time_field_2)
  ultimately show ?thesis using split_text [OF assms]
    by (simp add: timestamp_is_valid_def timezone_is_valid_def)
qed

lemma to_utc_text:
  assumes "tm_ok t"
  shows "timestamp_to_utc_time (Some (date_text t @ ''T'' @ clock_text t @ ''Z'')) = timegm t"
proof -
  have "timegm (t\<lparr>tm_sec := tm_sec t - tm_gmtoff t, tm_gmtoff := 0\<rparr>) = timegm t"
    using assms by (simp add: tm_ok_def timegm_def)
  then show ?thesis
    using valid_text [OF assms] strptime_text [OF assms] by (simp add: timestamp_to_utc_time_def Let_def)
qed

lemma gmtime_ok: "0 \<le> t \<Longrightarrow> t < 253402300800 \<Longrightarrow> tm_ok (gmtime t)"
  using gmtime_spec [of t] by (simp add: tm_ok_def)

lemma utc_timestamp_text: "0 < t \<Longrightarrow> get_utc_timestamp t = Some (date_text (gmtime t) @ ''T'' @ clock_text (gmtime t) @ ''Z'')"
  by (simp add: get_utc_timestamp_def clock_text_def Let_def)

lemma init_timestamp: "timestamp_to_utc_time (Some HIST_TS_INIT) = 0"
  by code_simp

section \<open>Comparison\<close>

lemma get_utc_date_Some: "0 \<le> t \<Longrightarrow> \<exists>d. get_utc_date t = Some d"
  by (simp add: get_utc_date_def)

lemma compare_cases:
  assumes "timestamp_compare a b = Some (r, n)"
  shows "0 \<le> timestamp_to_utc_time a" "0 \<le> timestamp_to_utc_time b"
    "r = (if timestamp_to_utc_time a < timestamp_to_utc_time b then - 1
          else if timestamp_to_utc_time a = timestamp_to_utc_time b then 0 else 1)"
  using assms by (auto simp: timestamp_compare_def Let_def split: if_splits option.splits)

lemma compare_total:
  assumes "0 \<le> timestamp_to_utc_time a" "0 \<le> timestamp_to_utc_time b" "a \<noteq> None" "b \<noteq> None"
  shows "\<exists>r n. timestamp_compare a b = Some (r, n)"
  using assms get_utc_date_Some [OF assms(1)] get_utc_date_Some [OF assms(2)]
  by (auto simp: timestamp_compare_def Let_def)

section \<open>Properties\<close>

text \<open>
  C32: a timestamp printed by \<open>get_utc_timestamp\<close> is valid and \<open>timestamp_to_utc_time\<close> gives
  the calendar time back, for every time from the epoch to the end of the year 9999.
\<close>

theorem timestamp_roundtrip:
  assumes "0 \<le> t" "t < 253402300800"
  shows "\<exists>ts. get_utc_timestamp t = Some ts \<and> timestamp_is_valid (Some ts) = 1 \<and>
    timestamp_to_utc_time (Some ts) = t \<and> length ts \<le> 20"
proof (cases "t = 0")
  case True
  have "timestamp_is_valid (Some HIST_TS_INIT) = 1" "length HIST_TS_INIT \<le> 20" by code_simp+
  then show ?thesis using True init_timestamp by (simp add: get_utc_timestamp_def)
next
  case False
  note ok = gmtime_ok [OF assms]
  let ?ts = "date_text (gmtime t) @ ''T'' @ clock_text (gmtime t) @ ''Z''"
  have l2: "length (fmt_prec 2 v) = 2" if "0 \<le> v" "v < 100" for v
    using fmt_prec_2 [OF that] by (metis length_Cons list.size(3) numeral_2_eq_2)
  have "length (fmt_width 4 (tm_year (gmtime t) + 1900)) = 4"
    by (rule fmt_width_4 [of "tm_year (gmtime t) + 1900"]) (use ok in \<open>auto simp: tm_ok_def\<close>)
  then have "length ?ts = 20" using ok by (simp add: tm_ok_def date_text_def clock_text_def l2)
  then show ?thesis
    using False assms valid_text [OF ok] to_utc_text [OF ok] gmtime_spec(1) [OF assms(1)]
      utc_timestamp_text [of t] by simp
qed

theorem timestamp_roundtrip_witness:
  "\<exists>ts. get_utc_timestamp 951782400 = Some ts \<and> timestamp_is_valid (Some ts) = 1 \<and>
    timestamp_to_utc_time (Some ts) = 951782400 \<and> length ts \<le> 20"
  by (rule timestamp_roundtrip) simp_all

text \<open>
  C33: the interval functions of the history facility.  For timestamps that convert to a time
  that is not negative, \<open>timestamp_has_common\<close> accepts exactly the intervals that meet,
  and then \<open>timestamp_find_common\<close> returns the later of the two starts and the earlier of
  the two ends, which form a non-empty interval.
\<close>

theorem timestamp_common_interval:
  assumes "0 \<le> timestamp_to_utc_time start" "0 \<le> timestamp_to_utc_time end"
    "0 \<le> timestamp_to_utc_time oldest" "0 \<le> timestamp_to_utc_time latest"
    and "start \<noteq> None" "end \<noteq> None" "oldest \<noteq> None" "latest \<noteq> None"
    and "timestamp_to_utc_time start \<le> timestamp_to_utc_time end"
    "timestamp_to_utc_time oldest \<le> timestamp_to_utc_time latest"
  shows "(timestamp_has_common start end oldest latest = 1 \<longleftrightarrow>
      timestamp_to_utc_time start \<le> timestamp_to_utc_time latest \<and>
      timestamp_to_utc_time oldest \<le> timestamp_to_utc_time end) \<and>
    (\<exists>s e. timestamp_find_common start end oldest latest = (0, s, e) \<and>
      timestamp_to_utc_time s = max (timestamp_to_utc_time start) (timestamp_to_utc_time oldest) \<and>
      timestamp_to_utc_time e = min (timestamp_to_utc_time end) (timestamp_to_utc_time latest) \<and>
      (timestamp_has_common start end oldest latest = 1 \<longrightarrow> timestamp_to_utc_time s \<le> timestamp_to_utc_time e))"
proof -
  obtain r1 n1 where c1: "timestamp_compare start latest = Some (r1, n1)" using compare_total [OF assms(1,4,5,8)] by blast
  obtain r2 n2 where c2: "timestamp_compare end oldest = Some (r2, n2)" using compare_total [OF assms(2,3,6,7)] by blast
  obtain r3 n3 where c3: "timestamp_compare start oldest = Some (r3, n3)" using compare_total [OF assms(1,3,5,7)] by blast
  obtain r4 n4 where c4: "timestamp_compare end latest = Some (r4, n4)" using compare_total [OF assms(2,4,6,8)] by blast
  have h: "timestamp_has_common start end oldest latest = 1 \<longleftrightarrow>
      timestamp_to_utc_time start \<le> timestamp_to_utc_time latest \<and>
      timestamp_to_utc_time oldest \<le> timestamp_to_utc_time end"
    using compare_cases(3) [OF c1] compare_cases(3) [OF c2] by (simp add: timestamp_has_common_def c1 c2)
  let ?s = "if r3 = - 1 then oldest else start" and ?e = "if r4 = 1 then latest else end"
  have f: "timestamp_find_common start end oldest latest = (0, ?s, ?e)"
    by (simp add: timestamp_find_common_def c3 c4 Let_def)
  have s: "timestamp_to_utc_time ?s = max (timestamp_to_utc_time start) (timestamp_to_utc_time oldest)"
    using compare_cases(3) [OF c3] by (simp add: max_def)
  have e: "timestamp_to_utc_time ?e = min (timestamp_to_utc_time end) (timestamp_to_utc_time latest)"
    using compare_cases(3) [OF c4] by (simp add: min_def)
  have "timestamp_has_common start end oldest latest = 1 \<longrightarrow> timestamp_to_utc_time ?s \<le> timestamp_to_utc_time ?e"
    unfolding h s e using assms(9,10) by simp
  then show ?thesis using h f s e by blast
qed

theorem timestamp_common_interval_witness:
  "timestamp_has_common (Some ''2014-01-01T00:00:00Z'') (Some ''2014-01-03T00:00:00Z'')
     (Some ''2014-01-02T10:00:00+10'') (Some ''2014-02-01T00:00:00Z'') = 1"
proof -
  have t: "timestamp_to_utc_time (Some ''2014-01-01T00:00:00Z'') = 1388534400"
    "timestamp_to_utc_time (Some ''2014-01-03T00:00:00Z'') = 1388707200"
    "timestamp_to_utc_time (Some ''2014-01-02T10:00:00+10'') = 1388620800"
    "timestamp_to_utc_time (Some ''2014-02-01T00:00:00Z'') = 1391212800"
    by code_simp+
  then show ?thesis
    using timestamp_common_interval [of "Some ''2014-01-01T00:00:00Z''" "Some ''2014-01-03T00:00:00Z''"
      "Some ''2014-01-02T10:00:00+10''" "Some ''2014-02-01T00:00:00Z''"] by simp
qed

end
