(* ===== verification/Obix_Watch.thy ===== *)
theory Obix_Watch
  imports Obix_Bitmap Obix_Ptask Obix_Time Obix_Errmsg "HOL-Library.Multiset"
begin

text \<open>
  The watch subsystem of \<open>src/src/server/watch.c\<close>: watch objects, the items they monitor,
  and the long polls that wait for changes.

  A watch holds its ID, its items, its pending poll tasks with their counter and its
  reference count; the poll backlog holds all poll tasks in \<open>list_all\<close>, and in
  \<open>list_active\<close> those to be attended at once.  A poll task that a polling thread has
  dequeued is in \<open>bl_busy\<close>, then with what it harvested in \<open>bl_done\<close>; replies are recorded in the order they are
  sent.  A watch that is taken out of the queue but still waits for its last references is in
  \<open>ws_dying\<close>.  Every operation is one critical section of the code, so that the runs at the
  end are all interleavings of the request handlers, the polling threads and the lease
  thread: a long poll goes through \<open>watch_poll_helper\<close>, \<open>poll_attach\<close> and \<open>poll_enqueue\<close> (the
  two parts of \<open>watch_create_poll_task\<close>), \<open>poll_dequeue\<close>, \<open>poll_harvest\<close> and \<open>poll_leave\<close>
  (the two parts of \<open>poll_thread_task_helper\<close>).

  What the subsystem asks of the DOM and of \<open>device.c\<close> is decided by the environment: the
  argument \<open>copy_ok\<close> says whether a device contract can be copied, the result of linking a
  meta node is an argument of \<open>watch_create_item\<close>.  Monitored DOM nodes are numbers.
\<close>

section \<open>URIs of watch objects\<close>

definition MAX_WATCHES_PER_FOLDER :: int where "MAX_WATCHES_PER_FOLDER = 64"
definition WATCH_ID_MAX_BITS :: int where "WATCH_ID_MAX_BITS = 10"
definition WATCH_URI_TEMPLATE :: cstr where "WATCH_URI_TEMPLATE = ''/obix/watchService/%d/watch%d/''"
definition WATCH_ID_PREFIX :: cstr where "WATCH_ID_PREFIX = ''watch''"
definition WATCH_SERVICE_MAKE :: cstr where "WATCH_SERVICE_MAKE = ''/obix/watchService/make/''"
definition WATCH_LEASE_DEF :: int where "WATCH_LEASE_DEF = 24 * 60 * 60 * 1000"
definition WATCH_POLL_INTERVAL_MIN :: int where "WATCH_POLL_INTERVAL_MIN = 100"
definition DEF_THREAD_COUNT :: int where "DEF_THREAD_COUNT = 10"

definition is_watch_service_make_href :: "cstr option \<Rightarrow> int" where
  "is_watch_service_make_href href = is_str_identical href (Some WATCH_SERVICE_MAKE) 1"

text \<open>What \<open>sprintf\<close> prints for the template.\<close>

definition watch_uri :: "int \<Rightarrow> cstr" where
  "watch_uri wid = ''/obix/watchService/'' @ fmt_d (c_div wid MAX_WATCHES_PER_FOLDER) @ ''/watch'' @ fmt_d wid @ ''/''"

definition watch_get_id :: "cstr option \<Rightarrow> int" where
  "watch_get_id href =
     (case href of None \<Rightarrow> - 1
      | Some h \<Rightarrow>
          if is_given_type h OBIX_WATCH = 0 then - 1
          else if length h \<le> obix_roots_len OBIX_WATCH then - 1
          else case strstr WATCH_ID_PREFIX (drop (obix_roots_len OBIX_WATCH) h) of
                 None \<Rightarrow> - 1
               | Some start \<Rightarrow>
                   let (ret, val) = str_to_long (drop (length WATCH_ID_PREFIX) start)
                   in if ret = 0 then c_int val else ret)"

section \<open>State\<close>

record watch_item =
  wi_href :: cstr
  wi_node :: "nat option"
  wi_meta :: "nat option"
  wi_count :: nat

text \<open>
  Who has marked a watch as shut down: a \<open>Watch.delete\<close> request, one that sleeps in
  \<open>ptask_cancel\<close>, or the lease task; and whether the watch has left the queue since.
\<close>

datatype deleter = Nobody | By_Request | By_Stuck_Request | By_Lease | Unlinked

record watch =
  w_id :: int
  w_href :: cstr
  w_changed :: int
  w_tasks :: "nat list"
  w_tasks_count :: int
  w_lease_tid :: int
  w_items :: "watch_item list"
  w_refcnt :: int
  w_deleter :: deleter

definition w_shut :: "watch \<Rightarrow> bool" where
  "w_shut w \<longleftrightarrow> w_deleter w \<noteq> Nobody"

text \<open>What a reply says about one URI.\<close>

datatype out = Out_Object cstr | Out_Null cstr | Out_Error cstr errcode

record poll_task =
  pk_id :: nat
  pk_watch :: int
  pk_expiry :: timespec

text \<open>A request that has found no change and is about to create its poll task.\<close>

record poll_call =
  pc_id :: nat
  pc_watch :: int
  pc_delay :: int

record wsys =
  ws_map :: bitmap
  ws_lease :: task_thread
  ws_watches :: "watch list"
  ws_dying :: "watch list"
  bl_all :: "poll_task list"
  bl_active :: "nat list"
  bl_busy :: "poll_task list"
  bl_new :: "poll_task list"
  bl_done :: "(poll_task \<times> out list) list"
  bl_calls :: "poll_call list"
  bl_replies :: "(nat \<times> out list) list"
  bl_dropped :: "nat list"

definition wsys_init :: "bool \<Rightarrow> wsys option" where
  "wsys_init ok =
     (case ptask_init ok of None \<Rightarrow> None
      | Some th \<Rightarrow> Some \<lparr>ws_map = bitmap_init, ws_lease = th, ws_watches = [], ws_dying = [], bl_all = [],
          bl_active = [], bl_busy = [], bl_new = [], bl_done = [], bl_calls = [], bl_replies = [], bl_dropped = []\<rparr>)"

definition poll_backlog_threads :: "int \<Rightarrow> int" where
  "poll_backlog_threads num = (if num \<le> 0 then DEF_THREAD_COUNT else num)"

text \<open>Replacing a watch descriptor, in the queue or among those being disposed of.\<close>

definition set_watch :: "wsys \<Rightarrow> watch \<Rightarrow> wsys" where
  "set_watch s w = s\<lparr>ws_watches := map (\<lambda>v. if w_id v = w_id w then w else v) (ws_watches s),
     ws_dying := map (\<lambda>v. if w_id v = w_id w then w else v) (ws_dying s)\<rparr>"

definition watch_search_helper :: "wsys \<Rightarrow> int \<Rightarrow> watch option" where
  "watch_search_helper s wid = find (\<lambda>w. w_id w = wid) (ws_watches s)"

definition watch_search :: "wsys \<Rightarrow> cstr option \<Rightarrow> watch option" where
  "watch_search s href =
     (let wid = watch_get_id href in if wid \<ge> 0 then watch_search_helper s wid else None)"

definition find_any :: "wsys \<Rightarrow> int \<Rightarrow> watch option" where
  "find_any s wid = find (\<lambda>w. w_id w = wid) (ws_watches s @ ws_dying s)"

section \<open>Notifications\<close>

text \<open>
  \<open>__watch_notify_tasks\<close>: every poll task of the watch that is not linked into
  \<open>list_active\<close> is appended to it; the links of a dequeued task are poisoned, so it is
  left alone.
\<close>

definition watch_notify_tasks :: "wsys \<Rightarrow> watch \<Rightarrow> wsys" where
  "watch_notify_tasks s w =
     s\<lparr>bl_active := foldl (\<lambda>act t. if t \<in> set act \<or> t \<in> pk_id ` set (bl_busy s @ map fst (bl_done s)) then act else act @ [t])
         (bl_active s) (w_tasks w)\<rparr>"

datatype watch_evt = WATCH_EVT_NODE_CHANGED | WATCH_EVT_NODE_DELETED

definition notify_item :: "nat \<Rightarrow> watch_evt \<Rightarrow> watch_item \<Rightarrow> watch_item" where
  "notify_item monitored event item =
     (if wi_node item = Some monitored then
        (if event = WATCH_EVT_NODE_DELETED then item\<lparr>wi_node := None, wi_meta := None\<rparr> else item)
          \<lparr>wi_count := wi_count item + 1\<rparr>
      else item)"

definition watch_notify_watches :: "wsys \<Rightarrow> int \<Rightarrow> nat \<Rightarrow> watch_evt \<Rightarrow> wsys" where
  "watch_notify_watches s wid monitored event =
     (case watch_search_helper s wid of
        None \<Rightarrow> s
      | Some w \<Rightarrow>
          if w_shut w then set_watch s (w\<lparr>w_refcnt := w_refcnt w + 1\<rparr>)
          else if \<exists>item \<in> set (w_items w). wi_node item = Some monitored then
            let w' = w\<lparr>w_items := map (notify_item monitored event) (w_items w), w_changed := 1\<rparr>
            in watch_notify_tasks (set_watch s w') w'
          else s)"

section \<open>Items\<close>

definition watch_item_init :: "cstr \<Rightarrow> nat \<Rightarrow> watch_item" where
  "watch_item_init href meta = \<lparr>wi_href = href, wi_node = None, wi_meta = Some meta, wi_count = 0\<rparr>"

fun drop_item :: "cstr \<Rightarrow> watch_item list \<Rightarrow> watch_item list option" where
  "drop_item href [] = None"
| "drop_item href (item # items) =
     (if is_str_identical (Some (wi_href item)) (Some href) 1 = 1 then Some items
      else map_option (Cons item) (drop_item href items))"

definition watch_delete_item :: "wsys \<Rightarrow> watch \<Rightarrow> cstr \<Rightarrow> wsys \<times> out" where
  "watch_delete_item s w href =
     (if w_shut w then (s, Out_Error href ERR_INVALID_STATE)
      else case drop_item href (w_items w) of
             None \<Rightarrow> (s, Out_Error href ERR_WATCH_NO_MONITORED_URI)
           | Some items \<Rightarrow> (set_watch s (w\<lparr>w_items := items\<rparr>), Out_Null href))"

text \<open>
  \<open>__get_watch_item_or_parent\<close>: the item found and the items left; a nullified item for
  the same href is removed and counts as not found.
\<close>

fun get_watch_item_or_parent :: "cstr \<Rightarrow> watch_item list \<Rightarrow> watch_item option \<times> watch_item list" where
  "get_watch_item_or_parent href [] = (None, [])"
| "get_watch_item_or_parent href (item # items) =
     (if is_str_identical (Some (wi_href item)) (Some href) 1 = 1 then
        if wi_meta item = None \<and> wi_node item = None then (None, items) else (Some item, item # items)
      else if strncmp_eq (wi_href item) href (length (wi_href item)) then (Some item, item # items)
      else let (r, items') = get_watch_item_or_parent href items in (r, item # items'))"

text \<open>
  \<open>link\<close> is the outcome of \<open>device_link_single_node\<close>: an error code or the monitored node;
  \<open>meta\<close> is the new meta node.
\<close>

definition watch_create_item ::
  "(cstr \<Rightarrow> bool) \<Rightarrow> bool \<Rightarrow> errcode + nat \<Rightarrow> nat \<Rightarrow> wsys \<Rightarrow> watch \<Rightarrow> cstr \<Rightarrow> wsys \<times> out" where
  "watch_create_item copy_ok ok link meta s w href =
     (if \<not> copy_ok href then (s, Out_Error href ERR_DEVICE_NO_SUCH_URI)
      else if \<not> ok then (s, Out_Error href ERR_NO_MEM)
      else if w_shut w then (s, Out_Error href ERR_INVALID_STATE)
      else
        let (existed, items) = get_watch_item_or_parent href (w_items w) in
        case existed of
          Some _ \<Rightarrow> (s, Out_Object href)
        | None \<Rightarrow>
            (case link of
               Inl e \<Rightarrow> (set_watch s (w\<lparr>w_items := items\<rparr>), Out_Error href e)
             | Inr node \<Rightarrow>
                 (set_watch s (w\<lparr>w_items := items @ [(watch_item_init href meta)\<lparr>wi_node := Some node\<rparr>]\<rparr>),
                  Out_Object href)))"

section \<open>Harvesting\<close>

definition harvest_item :: "(cstr \<Rightarrow> bool) \<Rightarrow> bool \<Rightarrow> bool \<Rightarrow> watch_item \<Rightarrow> watch_item \<times> out list" where
  "harvest_item copy_ok include_all reset item =
     (if wi_count item = 0 \<and> \<not> include_all then (item, [])
      else (if include_all \<or> reset then item\<lparr>wi_count := 0\<rparr> else item,
            [if wi_node item \<noteq> None \<and> copy_ok (wi_href item) then Out_Object (wi_href item)
             else Out_Null (wi_href item)]))"

definition watch_harvest_changes :: "(cstr \<Rightarrow> bool) \<Rightarrow> watch \<Rightarrow> bool \<Rightarrow> watch \<times> out list" where
  "watch_harvest_changes copy_ok w include_all =
     (if w_changed w = 0 \<and> \<not> include_all then (w, [])
      else
        let reset = (w_tasks_count w \<le> 1); rs = map (harvest_item copy_ok include_all reset) (w_items w)
        in (w\<lparr>w_items := map fst rs, w_changed := (if include_all \<or> reset then 0 else w_changed w)\<rparr>,
            concat (map snd rs)))"

section \<open>Time settings\<close>

text \<open>
  The time settings of a watch: \<open>node\<close> is the reltime child the DOM lookup finds, if any,
  with its \<open>val\<close> attribute; the lease time has a default.
\<close>

definition get_time_helper :: "cstr option \<Rightarrow> int" where
  "get_time_helper val =
     (case val of None \<Rightarrow> 0
      | Some v \<Rightarrow> (case obix_reltime_to_long v of (ret, res) \<Rightarrow>
          if ret \<noteq> 0 then 0 else case res of None \<Rightarrow> 0 | Some t \<Rightarrow> t))"

datatype time_setting = WATCH_LEASE | WATCH_MAX | WATCH_MIN

definition get_time :: "cstr option option \<Rightarrow> time_setting \<Rightarrow> int" where
  "get_time node name =
     (case node of None \<Rightarrow> 0
      | Some val \<Rightarrow>
          let t = get_time_helper val in if name = WATCH_LEASE \<and> t \<le> 0 then WATCH_LEASE_DEF else t)"

section \<open>Polling\<close>

definition poll_expiry :: "timespec \<Rightarrow> int \<Rightarrow> timespec" where
  "poll_expiry now delay =
     \<lparr>tv_sec = tv_sec now + c_div delay 1000, tv_nsec = tv_nsec now + c_mod delay 1000 * 1000\<rparr>"

definition poll_delay :: "int \<Rightarrow> int \<Rightarrow> int" where
  "poll_delay wait_max wait_min =
     (if wait_max > wait_min then wait_max else if wait_min > 0 then wait_min else WATCH_POLL_INTERVAL_MIN)"

text \<open>
  \<open>watch_poll_helper\<close> of a request with number \<open>tid\<close>: an immediate answer, or the decision
  to wait, which keeps the reference taken by \<open>watch_search\<close>.
\<close>

datatype poll_result = Poll_Error errcode | Poll_Now "out list" | Poll_Wait

definition reset_lease_time :: "timespec \<Rightarrow> wsys \<Rightarrow> watch \<Rightarrow> wsys" where
  "reset_lease_time now s w =
     (if w_lease_tid w > 0 then s\<lparr>ws_lease := snd (ptask_reset now (ws_lease s) (w_lease_tid w))\<rparr> else s)"

definition watch_poll_helper ::
  "(cstr \<Rightarrow> bool) \<Rightarrow> bool \<Rightarrow> timespec \<Rightarrow> cstr option option \<Rightarrow> cstr option option \<Rightarrow> nat \<Rightarrow> wsys \<Rightarrow> cstr option \<Rightarrow> bool \<Rightarrow> poll_result \<times> wsys" where
  "watch_poll_helper copy_ok ok now pwi_max pwi_min tid s href include_all =
     (if \<not> ok then (Poll_Error ERR_NO_MEM, s)
      else case watch_search s href of
        None \<Rightarrow> (Poll_Error ERR_WATCH_NO_SUCH_URI, s)
      | Some w \<Rightarrow>
          let s = reset_lease_time now s w in
          if w_shut w then (Poll_Error ERR_INVALID_STATE, s)
          else if w_changed w = 1 \<or> include_all then
            let (w', outs) = watch_harvest_changes copy_ok w include_all in (Poll_Now outs, set_watch s w')
          else
            (Poll_Wait, (set_watch s (w\<lparr>w_refcnt := w_refcnt w + 1\<rparr>))
               \<lparr>bl_calls := bl_calls s @ [\<lparr>pc_id = tid, pc_watch = w_id w, pc_delay = poll_delay (get_time pwi_max WATCH_MAX) (get_time pwi_min WATCH_MIN)\<rparr>]\<rparr>))"

text \<open>
  The first critical section of \<open>watch_create_poll_task\<close>: the task joins its watch.  An
  error makes \<open>watch_poll_helper\<close> release the watch; by then \<open>no_reply\<close> is set unless the
  memory was short, so the request gets no answer at all.
\<close>

definition poll_attach :: "bool \<Rightarrow> timespec \<Rightarrow> nat \<Rightarrow> wsys \<Rightarrow> errcode \<times> wsys" where
  "poll_attach ok now tid s =
     (case find (\<lambda>c. pc_id c = tid) (bl_calls s) of
        None \<Rightarrow> (ERR_INVALID_ARGUMENT, s)
      | Some c \<Rightarrow>
          (case find_any s (pc_watch c) of
             None \<Rightarrow> (ERR_INVALID_ARGUMENT, s)
           | Some w \<Rightarrow>
               let s1 = s\<lparr>bl_calls := filter (\<lambda>c. pc_id c \<noteq> tid) (bl_calls s)\<rparr>;
                   put = w\<lparr>w_refcnt := w_refcnt w - 1\<rparr>
               in if \<not> ok then
                    (ERR_NO_MEM, (set_watch s1 put)\<lparr>bl_replies := bl_replies s @ [(tid, [Out_Error (w_href w) ERR_NO_MEM])]\<rparr>)
                  else if w_shut w then (ERR_INVALID_STATE, (set_watch s1 put)\<lparr>bl_dropped := bl_dropped s @ [tid]\<rparr>)
                  else (ERR_SUCCESS,
                    (set_watch s1 (w\<lparr>w_tasks := w_tasks w @ [tid], w_tasks_count := w_tasks_count w + 1\<rparr>))
                      \<lparr>bl_new := bl_new s @ [\<lparr>pk_id = tid, pk_watch = pc_watch c, pk_expiry = poll_expiry now (pc_delay c)\<rparr>]\<rparr>)))"

fun insert_poll :: "poll_task \<Rightarrow> poll_task list \<Rightarrow> poll_task list" where
  "insert_poll task [] = [task]"
| "insert_poll task (pos # ts) =
     (if timespec_compare (pk_expiry pos) (pk_expiry task) = 1 then task # pos # ts
      else pos # insert_poll task ts)"

text \<open>
  The second one: the task joins \<open>list_all\<close>.  If a polling thread has taken it since, this
  links a task that is being freed, or has been: \<open>None\<close>.
\<close>

definition poll_enqueue :: "wsys \<Rightarrow> nat \<Rightarrow> wsys option" where
  "poll_enqueue s tid =
     (case find (\<lambda>t. pk_id t = tid) (bl_new s) of
        None \<Rightarrow> None
      | Some task \<Rightarrow> Some (s\<lparr>bl_all := insert_poll task (bl_all s), bl_new := filter (\<lambda>t. pk_id t \<noteq> tid) (bl_new s)\<rparr>))"

section \<open>The polling threads\<close>

definition get_first_task_active :: "wsys \<Rightarrow> poll_task option" where
  "get_first_task_active s =
     (case bl_active s of [] \<Rightarrow> None
      | tid # _ \<Rightarrow> find (\<lambda>t. pk_id t = tid) (bl_all s @ bl_new s))"

definition get_expired_task :: "timespec \<Rightarrow> wsys \<Rightarrow> poll_task option" where
  "get_expired_task now s =
     (case bl_all s of [] \<Rightarrow> None
      | task # _ \<Rightarrow> if timespec_compare (pk_expiry task) now \<le> 0 then Some task else None)"

text \<open>One round of the inner loop of \<open>poll_thread_task\<close> up to the unlock.\<close>

definition poll_dequeue :: "timespec \<Rightarrow> wsys \<Rightarrow> wsys" where
  "poll_dequeue now s =
     (case (case get_first_task_active s of Some t \<Rightarrow> Some t | None \<Rightarrow> get_expired_task now s) of
        None \<Rightarrow> s
      | Some task \<Rightarrow>
          s\<lparr>bl_active := filter (\<lambda>t. t \<noteq> pk_id task) (bl_active s),
            bl_all := filter (\<lambda>t. pk_id t \<noteq> pk_id task) (bl_all s),
            bl_new := filter (\<lambda>t. pk_id t \<noteq> pk_id task) (bl_new s),
            bl_busy := bl_busy s @ [task]\<rparr>)"

text \<open>
  \<open>poll_thread_task_helper\<close>, first its read region, where it harvests, then its write
  region, where it leaves the watch, drops its reference and replies.  Both go on when the
  watch has been marked as shut down in the meantime.
\<close>

definition poll_harvest :: "(cstr \<Rightarrow> bool) \<Rightarrow> nat \<Rightarrow> wsys \<Rightarrow> wsys" where
  "poll_harvest copy_ok tid s =
     (case find (\<lambda>t. pk_id t = tid) (bl_busy s) of
        None \<Rightarrow> s
      | Some task \<Rightarrow>
          (case find_any s (pk_watch task) of
             None \<Rightarrow> s
           | Some w \<Rightarrow>
               let (w', outs) = watch_harvest_changes copy_ok w False
               in (set_watch s w')\<lparr>bl_busy := filter (\<lambda>t. pk_id t \<noteq> tid) (bl_busy s),
                                    bl_done := bl_done s @ [(task, outs)]\<rparr>))"

definition poll_leave :: "nat \<Rightarrow> wsys \<Rightarrow> wsys" where
  "poll_leave tid s =
     (case find (\<lambda>d. pk_id (fst d) = tid) (bl_done s) of
        None \<Rightarrow> s
      | Some (task, outs) \<Rightarrow>
          (case find_any s (pk_watch task) of
             None \<Rightarrow> s
           | Some w \<Rightarrow>
               (set_watch s (w\<lparr>w_tasks := filter (\<lambda>t. t \<noteq> tid) (w_tasks w), w_tasks_count := w_tasks_count w - 1,
                                w_refcnt := w_refcnt w - 1\<rparr>))
                 \<lparr>bl_done := filter (\<lambda>d. pk_id (fst d) \<noteq> tid) (bl_done s), bl_replies := bl_replies s @ [(tid, outs)]\<rparr>))"

section \<open>Creating and deleting watches\<close>

text \<open>
  \<open>watch_create\<close>: \<open>id_ok\<close>, \<open>mem_ok\<close> and \<open>put_ok\<close> are whether the bitmap can grow, whether the
  allocations and the copy of the stub succeed, and whether the node can be put into the
  DOM; \<open>lease\<close> is the lease setting of the copied stub.
\<close>

definition watch_create :: "bool \<Rightarrow> bool \<Rightarrow> bool \<Rightarrow> timespec \<Rightarrow> cstr option option \<Rightarrow> wsys \<Rightarrow> watch option \<times> wsys" where
  "watch_create id_ok mem_ok put_ok now lease s =
     (let (wid, map') = pool_get id_ok (ws_map s); s = s\<lparr>ws_map := map'\<rparr> in
      if wid < 0 then (None, s)
      else if \<not> mem_ok then (None, s\<lparr>ws_map := bitmap_put_id (ws_map s) wid\<rparr>)
      else
        let (tid, th) = ptask_schedule True now (ws_lease s) (User_Task (nat wid)) (get_time lease WATCH_LEASE) 1 in
        if tid < 0 then (None, s\<lparr>ws_lease := th, ws_map := bitmap_put_id (ws_map s) wid\<rparr>)
        else if \<not> put_ok then
          (None, s\<lparr>ws_lease := (case ptask_cancel th tid 1 of None \<Rightarrow> th | Some (_, th') \<Rightarrow> th'),
                   ws_map := bitmap_put_id (ws_map s) wid\<rparr>)
        else
          let w = \<lparr>w_id = wid, w_href = watch_uri wid, w_changed = 0, w_tasks = [], w_tasks_count = 0,
                   w_lease_tid = tid, w_items = [], w_refcnt = 1, w_deleter = Nobody\<rparr>
          in (Some w, s\<lparr>ws_lease := th, ws_watches := ws_watches s @ [w]\<rparr>))"

text \<open>
  The \<open>watchService.make\<close> request: the URI of the new watch, whose reference it releases.
\<close>

definition handlerWatchServiceMake ::
  "bool \<Rightarrow> bool \<Rightarrow> bool \<Rightarrow> timespec \<Rightarrow> cstr option option \<Rightarrow> wsys \<Rightarrow> (errcode + cstr) \<times> wsys" where
  "handlerWatchServiceMake id_ok mem_ok put_ok now lease s =
     (case watch_create id_ok mem_ok put_ok now lease s of
        (None, s') \<Rightarrow> (Inl ERR_NO_MEM, s')
      | (Some w, s') \<Rightarrow> (Inr (w_href w), set_watch s' (w\<lparr>w_refcnt := w_refcnt w - 1\<rparr>)))"

text \<open>
  \<open>watch_del\<close>, cut where other threads may come in between: marking the watch, cancelling
  the lease task and waking the polls (\<open>watch_del\<close>), then taking the watch out of the queue
  (\<open>watch_unlink\<close>, also the second step of the lease task), then the wait for the last
  reference (\<open>watch_dispose\<close>).  A caller that sleeps in \<open>ptask_cancel\<close> stays there.
\<close>

datatype del_result = Del_Error errcode | Del_By_Other | Del_Stuck | Del_Marked

definition watch_del :: "wsys \<Rightarrow> cstr option \<Rightarrow> del_result \<times> wsys" where
  "watch_del s href =
     (case watch_search s href of
        None \<Rightarrow> (Del_Error ERR_WATCH_NO_SUCH_URI, s)
      | Some w \<Rightarrow>
          if w_shut w then (Del_By_Other, s)
          else
            let c = (if w_lease_tid w \<noteq> 0 then ptask_cancel (ws_lease s) (w_lease_tid w) 1
                     else Some (Some 0, ws_lease s));
                w1 = w\<lparr>w_refcnt := w_refcnt w + 1\<rparr>
            in case c of
                 Some (Some _, th) \<Rightarrow>
                   let w2 = w1\<lparr>w_deleter := By_Request\<rparr>
                   in (Del_Marked, watch_notify_tasks ((set_watch s w2)\<lparr>ws_lease := th\<rparr>) w2)
               | Some (None, th) \<Rightarrow> (Del_Stuck, (set_watch s (w1\<lparr>w_deleter := By_Stuck_Request\<rparr>))\<lparr>ws_lease := th\<rparr>)
               | None \<Rightarrow> (Del_Stuck, set_watch s (w1\<lparr>w_deleter := By_Stuck_Request\<rparr>)))"

definition delete_watch_task :: "wsys \<Rightarrow> int \<Rightarrow> wsys" where
  "delete_watch_task s wid =
     (case watch_search_helper s wid of
        None \<Rightarrow> s
      | Some w \<Rightarrow> if w_shut w then s else set_watch s (w\<lparr>w_deleter := By_Lease\<rparr>))"

definition watch_unlink :: "wsys \<Rightarrow> int \<Rightarrow> wsys" where
  "watch_unlink s wid =
     (case watch_search_helper s wid of
        None \<Rightarrow> s
      | Some w \<Rightarrow>
          if w_deleter w \<noteq> By_Request \<and> w_deleter w \<noteq> By_Lease then s
          else
            let w' = (if w_deleter w = By_Request then w\<lparr>w_refcnt := w_refcnt w - 1\<rparr> else w)\<lparr>w_deleter := Unlinked\<rparr>
            in s\<lparr>ws_watches := filter (\<lambda>v. w_id v \<noteq> wid) (ws_watches s), ws_dying := ws_dying s @ [w']\<rparr>)"

text \<open>\<open>__watch_dispose\<close> once \<open>refcnt_sync\<close> returns: the ID goes back to the pool.\<close>

definition watch_dispose :: "wsys \<Rightarrow> int \<Rightarrow> wsys" where
  "watch_dispose s wid =
     (case find (\<lambda>w. w_id w = wid) (ws_dying s) of
        None \<Rightarrow> s
      | Some w \<Rightarrow>
          if w_refcnt w > 0 then s
          else s\<lparr>ws_dying := filter (\<lambda>v. w_id v \<noteq> wid) (ws_dying s), ws_map := bitmap_put_id (ws_map s) wid\<rparr>)"

section \<open>Runs\<close>

datatype w_op =
    Op_Create bool bool bool "cstr option option"
  | Op_Del "cstr option"
  | Op_Lease int
  | Op_Unlink int
  | Op_Dispose int
  | Op_Notify int nat watch_evt
  | Op_Add "errcode + nat" nat "cstr option" cstr
  | Op_Remove "cstr option" cstr
  | Op_Poll bool "cstr option option" "cstr option option" "cstr option" bool
  | Op_Attach bool nat
  | Op_Enqueue nat
  | Op_Dequeue
  | Op_Harvest nat
  | Op_Leave nat

text \<open>The items are added and removed by the handlers on a watch they looked up.\<close>

definition watch_item_op ::
  "timespec \<Rightarrow> wsys \<Rightarrow> cstr option \<Rightarrow> (wsys \<Rightarrow> watch \<Rightarrow> wsys \<times> out) \<Rightarrow> errcode \<times> wsys" where
  "watch_item_op now s href f =
     (case watch_search s href of
        None \<Rightarrow> (ERR_WATCH_NO_SUCH_URI, s)
      | Some w \<Rightarrow> (ERR_SUCCESS, fst (f (reset_lease_time now s w) w)))"

fun w_do :: "(cstr \<Rightarrow> bool) \<Rightarrow> timespec \<Rightarrow> nat \<Rightarrow> w_op \<Rightarrow> wsys \<Rightarrow> wsys option" where
  "w_do cp now n (Op_Create a b c lease) s = Some (snd (handlerWatchServiceMake a b c now lease s))"
| "w_do cp now n (Op_Del href) s = Some (snd (watch_del s href))"
| "w_do cp now n (Op_Lease wid) s = Some (delete_watch_task s wid)"
| "w_do cp now n (Op_Unlink wid) s = Some (watch_unlink s wid)"
| "w_do cp now n (Op_Dispose wid) s = Some (watch_dispose s wid)"
| "w_do cp now n (Op_Notify wid node evt) s = Some (watch_notify_watches s wid node evt)"
| "w_do cp now n (Op_Add link meta href target) s =
     Some (snd (watch_item_op now s href (\<lambda>s w. watch_create_item cp True link meta s w target)))"
| "w_do cp now n (Op_Remove href target) s =
     Some (snd (watch_item_op now s href (\<lambda>s w. watch_delete_item s w target)))"
| "w_do cp now n (Op_Poll ok mx mn href all) s = Some (snd (watch_poll_helper cp ok now mx mn n s href all))"
| "w_do cp now n (Op_Attach ok tid) s = Some (snd (poll_attach ok now tid s))"
| "w_do cp now n (Op_Enqueue tid) s = poll_enqueue s tid"
| "w_do cp now n Op_Dequeue s = Some (poll_dequeue now s)"
| "w_do cp now n (Op_Harvest tid) s = Some (poll_harvest cp tid s)"
| "w_do cp now n (Op_Leave tid) s = Some (poll_leave tid s)"

text \<open>A run, \<open>None\<close> if it accesses a freed task: the \<open>n\<close>-th step, if it is a poll request, has number \<open>n\<close>.\<close>

fun w_run :: "(cstr \<Rightarrow> bool) \<Rightarrow> nat \<Rightarrow> wsys \<Rightarrow> (timespec \<times> w_op) list \<Rightarrow> wsys option" where
  "w_run cp n s [] = Some s"
| "w_run cp n s ((now, oper) # ops) =
     (case w_do cp now n oper s of None \<Rightarrow> None | Some s' \<Rightarrow> w_run cp (Suc n) s' ops)"

definition all_watches :: "wsys \<Rightarrow> watch list" where
  "all_watches s = ws_watches s @ ws_dying s"

text \<open>The poll tasks that exist, those of a watch, and the requests about to create one for it.\<close>

definition pending :: "wsys \<Rightarrow> poll_task list" where
  "pending s = bl_all s @ bl_new s @ bl_busy s @ map fst (bl_done s)"

definition tasks_of :: "wsys \<Rightarrow> int \<Rightarrow> nat set" where
  "tasks_of s wid = pk_id ` {t \<in> set (pending s). pk_watch t = wid}"

definition calls_of :: "wsys \<Rightarrow> int \<Rightarrow> int" where
  "calls_of s wid = int (length (filter (\<lambda>c. pc_watch c = wid) (bl_calls s)))"

text \<open>The long polls of a run, each of them once: about to wait, waiting, answered, or dropped.\<close>

definition requests :: "wsys \<Rightarrow> nat list" where
  "requests s = map pc_id (bl_calls s) @ map pk_id (pending s) @ map fst (bl_replies s) @ bl_dropped s"

text \<open>
  The invariant: the IDs of the watches are exactly those in use in the bitmap; requests
  are pending or settled once; \<open>list_all\<close> is in the order of expiry and \<open>list_active\<close> holds
  tasks that wait; each watch knows its pending tasks and has a reference for each of them,
  for each request about to create one and for the request that deletes it.
\<close>

definition ids_ok :: "wsys \<Rightarrow> bool" where
  "ids_ok s \<longleftrightarrow> bitmap_wf (ws_map s) \<and> distinct (map w_id (all_watches s)) \<and>
     w_id ` set (all_watches s) = used (ws_map s)"

definition expiry_le :: "poll_task \<Rightarrow> poll_task \<Rightarrow> bool" where
  "expiry_le a b \<longleftrightarrow> timespec_compare (pk_expiry a) (pk_expiry b) \<noteq> 1"

definition queue_ok :: "nat \<Rightarrow> wsys \<Rightarrow> bool" where
  "queue_ok n s \<longleftrightarrow> distinct (requests s) \<and> (\<forall>i \<in> set (requests s). i < n) \<and> sorted_wrt expiry_le (bl_all s) \<and>
     distinct (bl_active s) \<and> set (bl_active s) \<subseteq> pk_id ` set (bl_all s @ bl_new s)"

definition del_ref :: "watch \<Rightarrow> int" where
  "del_ref w = (if w_deleter w \<in> {By_Request, By_Stuck_Request} then 1 else 0)"

definition watch_ok :: "wsys \<Rightarrow> watch \<Rightarrow> bool" where
  "watch_ok s w \<longleftrightarrow> distinct (w_tasks w) \<and> set (w_tasks w) = tasks_of s (w_id w) \<and>
     w_tasks_count w = int (length (w_tasks w)) \<and> w_tasks_count w + calls_of s (w_id w) + del_ref w \<le> w_refcnt w"

definition owners_ok :: "wsys \<Rightarrow> bool" where
  "owners_ok s \<longleftrightarrow> pk_watch ` set (pending s) \<union> pc_watch ` set (bl_calls s) \<subseteq> w_id ` set (all_watches s)"

definition w_inv :: "nat \<Rightarrow> wsys \<Rightarrow> bool" where
  "w_inv n s \<longleftrightarrow> ids_ok s \<and> queue_ok n s \<and> owners_ok s \<and> (\<forall>w \<in> set (all_watches s). watch_ok s w) \<and>
     (\<forall>w \<in> set (ws_dying s). w_shut w)"

section \<open>URIs\<close>

lemma watch_uri_id:
  assumes "0 \<le> wid" "wid < 2 ^ 31"
  shows "watch_get_id (Some (watch_uri wid)) = wid"
proof -
  let ?q = "c_div wid MAX_WATCHES_PER_FOLDER"
  let ?t = "fmt_d ?q @ ''/watch'' @ fmt_d wid @ ''/''"
  have u: "watch_uri wid = ''/obix/watchService/'' @ ?t" by (simp add: watch_uri_def)
  have q: "0 \<le> ?q" using assms(1) by (simp add: MAX_WATCHES_PER_FOLDER_def c_div_nonneg pos_imp_zdiv_nonneg_iff)
  have r: "obix_roots_root OBIX_WATCH = ''/obix/watchService/''" "obix_roots_len OBIX_WATCH = 19" by simp_all
  have g: "is_given_type (watch_uri wid) OBIX_WATCH = 1"
    unfolding u by (simp add: is_given_type_def strncmp_eq_def cget_def slash_def)
  have len: "19 < length (watch_uri wid)" unfolding u by simp
  have d: "drop 19 (watch_uri wid) = ?t" unfolding u by simp
  have "\<not> isdigit (CHR ''w'')" by code_simp
  then have "\<forall>c \<in> set (fmt_d ?q). c \<noteq> hd WATCH_ID_PREFIX"
    using fmt_d_digits [OF q] by (auto simp: WATCH_ID_PREFIX_def)
  then have s: "strstr WATCH_ID_PREFIX ?t = Some (''watch'' @ fmt_d wid @ ''/'')"
    by (subst strstr_skip) (auto simp: WATCH_ID_PREFIX_def)
  have nd: "\<not> isdigit (CHR ''/'')" by code_simp
  have "strtol (replicate 0 (CHR '' '') @ dec_nat (nat wid) @ ''/'') = (int (nat wid), 0 + length (dec_nat (nat wid)), False)"
    by (rule strtol_dec) (use assms nd in \<open>simp_all add: LONG_MAX_def\<close>)
  then have "str_to_long (fmt_d wid @ ''/'') = (0, wid)" using assms(1) by (simp add: str_to_long_def fmt_d_def)
  then show ?thesis
    using g len d s assms unfolding watch_get_id_def r by (simp add: WATCH_ID_PREFIX_def)
qed

lemma watch_uri_fits:
  assumes "0 \<le> wid" "wid < 2 ^ 31"
  shows "int (length (watch_uri wid)) + 1 \<le> int (length WATCH_URI_TEMPLATE) + (WATCH_ID_MAX_BITS - 2) * 2 + 1"
proof -
  let ?q = "c_div wid MAX_WATCHES_PER_FOLDER"
  have "?q = wid div 64" using assms(1) by (simp add: MAX_WATCHES_PER_FOLDER_def c_div_nonneg)
  then have "0 \<le> ?q" "?q < 10 ^ 8" using assms by (auto simp: pos_imp_zdiv_nonneg_iff div_less_iff_less_mult)
  then have "length (fmt_d ?q) \<le> 8" using fmt_d_length by simp
  moreover have "length (fmt_d wid) \<le> 10" using fmt_d_length [of wid 10] assms by simp
  ultimately show ?thesis by (simp add: watch_uri_def WATCH_URI_TEMPLATE_def WATCH_ID_MAX_BITS_def)
qed

section \<open>Lookups and updates of descriptors\<close>

lemma find_unique:
  assumes "distinct (map f xs)"
  shows "find (\<lambda>x. f x = i) xs = Some x \<longleftrightarrow> x \<in> set xs \<and> f x = i"
  using assms by (induction xs) (auto simp: image_iff)

lemma find_NoneD: "find (\<lambda>x. f x = i) xs = None \<Longrightarrow> i \<notin> f ` set xs"
  by (auto simp: find_None_iff)

lemma inv_ids:
  assumes "w_inv n s"
  shows "distinct (map w_id (all_watches s))" "distinct (map w_id (ws_watches s))" "distinct (map w_id (ws_dying s))"
  using assms by (auto simp: w_inv_def ids_ok_def all_watches_def)

lemma search_helper_Some:
  assumes "w_inv n s" "watch_search_helper s wid = Some w"
  shows "w \<in> set (ws_watches s)" "w_id w = wid" "w \<in> set (all_watches s)" "watch_ok s w"
  using assms find_unique [OF inv_ids(2) [OF assms(1)]] by (auto simp: watch_search_helper_def w_inv_def all_watches_def)

lemma search_Some:
  assumes "w_inv n s" "watch_search s href = Some w"
  shows "w \<in> set (ws_watches s)" "w \<in> set (all_watches s)" "watch_ok s w"
  using assms search_helper_Some [OF assms(1), of "watch_get_id href" w]
  by (auto simp: watch_search_def Let_def split: if_splits)

lemma find_any_Some:
  assumes "w_inv n s" "find_any s wid = Some w"
  shows "w \<in> set (all_watches s)" "w_id w = wid" "watch_ok s w"
  using assms find_unique [OF inv_ids(1) [OF assms(1)]] by (auto simp: find_any_def w_inv_def all_watches_def)

lemma same_id: "w_inv n s \<Longrightarrow> x \<in> set (all_watches s) \<Longrightarrow> w \<in> set (all_watches s) \<Longrightarrow> w_id x = w_id w \<Longrightarrow> x = w"
  using inv_ids(1) [of n s] unfolding distinct_map inj_on_def by blast

lemma set_watch_fields [simp]:
  "bl_all (set_watch s w) = bl_all s" "bl_busy (set_watch s w) = bl_busy s" "bl_new (set_watch s w) = bl_new s"
  "bl_active (set_watch s w) = bl_active s" "bl_replies (set_watch s w) = bl_replies s" "ws_map (set_watch s w) = ws_map s"
  "bl_calls (set_watch s w) = bl_calls s" "bl_done (set_watch s w) = bl_done s" "bl_dropped (set_watch s w) = bl_dropped s"
  by (simp_all add: set_watch_def)

lemma set_watch_all: "all_watches (set_watch s w) = map (\<lambda>v. if w_id v = w_id w then w else v) (all_watches s)"
  by (simp add: set_watch_def all_watches_def)

lemma set_watch_ids [simp]: "map w_id (all_watches (set_watch s w)) = map w_id (all_watches s)"
  by (auto simp: set_watch_all)

lemma set_watch_id_set [simp]: "w_id ` set (all_watches (set_watch s w)) = w_id ` set (all_watches s)"
  using set_watch_ids [of s w] by (metis list.set_map)

text \<open>
  Steps that keep the set of watches: each descriptor is the old one, with the same tasks
  and calls, or one that is well again.
\<close>

lemma w_inv_step:
  assumes i: "w_inv n s" and q: "queue_ok m s'" and o: "owners_ok s'"
    and m: "ws_map s' = ws_map s" "map w_id (all_watches s') = map w_id (all_watches s)"
    and w: "\<And>u. u \<in> set (all_watches s') \<Longrightarrow>
        u \<in> set (all_watches s) \<and> tasks_of s' (w_id u) = tasks_of s (w_id u) \<and> calls_of s' (w_id u) = calls_of s (w_id u) \<or>
        watch_ok s' u"
    and d: "\<And>u. u \<in> set (ws_dying s') \<Longrightarrow> w_shut u"
  shows "w_inv m s'"
proof -
  have "w_id ` set (all_watches s') = w_id ` set (all_watches s)" using m(2) by (metis list.set_map)
  then have "ids_ok s'" using i m by (simp add: w_inv_def ids_ok_def)
  moreover have "watch_ok s' u" if "u \<in> set (all_watches s')" for u
    using w [OF that] i by (auto simp: w_inv_def watch_ok_def)
  ultimately show ?thesis using q o d by (simp add: w_inv_def)
qed

text \<open>An update of one descriptor that keeps its tasks.\<close>

lemma set_watch_dying:
  assumes i: "w_inv n s" and w: "w \<in> set (all_watches s)" and v: "w_id v = w_id w" "w_shut w \<Longrightarrow> w_shut v"
    and u: "u \<in> set (ws_dying (set_watch s v))"
  shows "w_shut u"
proof (cases "w_id u = w_id v")
  case True
  then obtain x where x: "x \<in> set (ws_dying s)" "w_id x = w_id v" "u = v"
    using u by (auto simp: set_watch_def split: if_splits)
  then have "x \<in> set (all_watches s)" by (simp add: all_watches_def)
  then have "x = w" using same_id [OF i _ w] x(2) v(1) by simp
  then show ?thesis using x i v(2) by (auto simp: w_inv_def)
next
  case False
  then show ?thesis using u i by (auto simp: set_watch_def w_inv_def split: if_splits)
qed

lemma set_watch_inv:
  assumes i: "w_inv n s" and w: "w \<in> set (all_watches s)"
    and v: "w_id v = w_id w" "w_tasks v = w_tasks w" "w_tasks_count v = w_tasks_count w"
      "w_refcnt w - del_ref w \<le> w_refcnt v - del_ref v" "w_shut w \<Longrightarrow> w_shut v"
  shows "w_inv n (set_watch s v)"
proof (rule w_inv_step [OF i])
  have ok: "watch_ok s w" using i w by (simp add: w_inv_def)
  show "queue_ok n (set_watch s v)" using i by (simp add: w_inv_def queue_ok_def requests_def pending_def)
  show "owners_ok (set_watch s v)" using i by (simp add: w_inv_def owners_ok_def pending_def)
  fix u
  assume "u \<in> set (all_watches (set_watch s v))"
  then have "u \<in> set (all_watches s) \<or> u = v" by (auto simp: set_watch_all split: if_splits)
  moreover have "watch_ok (set_watch s v) v"
    using ok v by (simp add: watch_ok_def tasks_of_def calls_of_def pending_def)
  ultimately show "u \<in> set (all_watches s) \<and> tasks_of (set_watch s v) (w_id u) = tasks_of s (w_id u) \<and>
      calls_of (set_watch s v) (w_id u) = calls_of s (w_id u) \<or> watch_ok (set_watch s v) u"
    by (auto simp: tasks_of_def calls_of_def pending_def)
next
  fix u
  assume "u \<in> set (ws_dying (set_watch s v))"
  then show "w_shut u" using set_watch_dying [OF i w v(1,5)] by blast
qed simp_all

lemma lease_inv [simp]: "w_inv n (s\<lparr>ws_lease := th\<rparr>) = w_inv n s"
  by (simp add: w_inv_def ids_ok_def queue_ok_def owners_ok_def watch_ok_def tasks_of_def calls_of_def pending_def
      requests_def all_watches_def)

lemma reset_lease_inv [simp]: "w_inv n (reset_lease_time now s w) = w_inv n s"
  by (simp add: reset_lease_time_def)

lemma reset_lease_all [simp]: "all_watches (reset_lease_time now s w) = all_watches s"
  by (simp add: reset_lease_time_def all_watches_def)

lemma inv_mono: "w_inv n s \<Longrightarrow> w_inv (Suc n) s"
  unfolding w_inv_def queue_ok_def using less_SucI by blast

lemma set_watch_step:
  assumes i: "w_inv n s" and w: "w \<in> set (all_watches s)" "w_id v = w_id w" "w_shut w \<Longrightarrow> w_shut v"
    and s': "ws_watches s' = ws_watches (set_watch s v)" "ws_dying s' = ws_dying (set_watch s v)" "ws_map s' = ws_map s"
    and q: "queue_ok m s'" "owners_ok s'" "watch_ok s' v"
    and o: "\<And>wid. wid \<noteq> w_id w \<Longrightarrow> tasks_of s' wid = tasks_of s wid \<and> calls_of s' wid = calls_of s wid"
  shows "w_inv m s'"
proof (rule w_inv_step [OF i q(1,2) s'(3)])
  have a: "all_watches s' = all_watches (set_watch s v)" using s' by (simp add: all_watches_def)
  show "map w_id (all_watches s') = map w_id (all_watches s)" unfolding a by simp
  fix u
  assume "u \<in> set (all_watches s')"
  then have "u \<in> set (all_watches s) \<and> w_id u \<noteq> w_id w \<or> u = v"
    unfolding a set_watch_all w(2) by (auto split: if_splits)
  then show "u \<in> set (all_watches s) \<and> tasks_of s' (w_id u) = tasks_of s (w_id u) \<and> calls_of s' (w_id u) = calls_of s (w_id u) \<or>
      watch_ok s' u" using o q(3) by blast
next
  fix u
  assume "u \<in> set (ws_dying s')"
  then show "w_shut u" unfolding s'(2) using set_watch_dying [OF i w] by blast
qed

lemma remove_mset:
  assumes "distinct (map f xs)" "x \<in> set xs"
  shows "mset xs = add_mset x (mset (filter (\<lambda>y. f y \<noteq> f x) xs))"
  using assms
proof (induction xs)
  case (Cons a xs)
  show ?case
  proof (cases "x = a")
    case True
    then have "filter (\<lambda>y. f y \<noteq> f x) xs = xs" using Cons.prems by (auto simp: filter_id_conv image_iff)
    then show ?thesis using True by simp
  next
    case False
    then have "f a \<noteq> f x" using Cons.prems by (auto simp: image_iff)
    then show ?thesis using False Cons by simp
  qed
qed simp

lemma queue_okI:
  assumes "queue_ok n s" "mset (requests s') = mset (requests s)" "sorted_wrt expiry_le (bl_all s')"
    "distinct (bl_active s')" "set (bl_active s') \<subseteq> pk_id ` set (bl_all s' @ bl_new s')"
  shows "queue_ok n s'"
  using assms mset_eq_imp_distinct_iff [OF assms(2)] mset_eq_setD [OF assms(2)] by (simp add: queue_ok_def)

lemma inv_requests:
  assumes "w_inv n s"
  shows "distinct (map pk_id (pending s))" "distinct (map pc_id (bl_calls s))"
    "distinct (map pk_id (bl_all s @ bl_new s))" "distinct (map pk_id (bl_busy s))" "distinct (map pk_id (map fst (bl_done s)))"
    "distinct (map pk_id (bl_new s))"
    "pc_id ` set (bl_calls s) \<inter> pk_id ` set (pending s) = {}" "\<forall>i \<in> set (requests s). i < n"
  using assms by (auto simp: w_inv_def queue_ok_def requests_def pending_def)

section \<open>Notifications\<close>

lemma notify_active:
  assumes "distinct act"
  shows "distinct (foldl (\<lambda>act t. if t \<in> set act \<or> t \<in> B then act else act @ [t]) act ts) \<and>
    set (foldl (\<lambda>act t. if t \<in> set act \<or> t \<in> B then act else act @ [t]) act ts) = set act \<union> (set ts - B)"
  using assms by (induction ts arbitrary: act) auto

lemma active_inv:
  assumes "w_inv n s" "distinct a" "set a \<subseteq> pk_id ` set (bl_all s @ bl_new s)"
  shows "w_inv n (s\<lparr>bl_active := a\<rparr>)"
proof (rule w_inv_step [OF assms(1)])
  show "queue_ok n (s\<lparr>bl_active := a\<rparr>)"
    using assms by (simp add: w_inv_def queue_ok_def pending_def requests_def)
  show "owners_ok (s\<lparr>bl_active := a\<rparr>)" using assms(1) by (simp add: w_inv_def owners_ok_def pending_def all_watches_def)
  show "u \<in> set (ws_dying (s\<lparr>bl_active := a\<rparr>)) \<Longrightarrow> w_shut u" for u using assms(1) by (simp add: w_inv_def)
qed (simp_all add: tasks_of_def calls_of_def pending_def all_watches_def)

lemma notify_tasks_inv:
  assumes i: "w_inv n s" and w: "w \<in> set (all_watches s)"
  shows "w_inv n (watch_notify_tasks s w)"
    "set (bl_active (watch_notify_tasks s w)) = set (bl_active s) \<union> (set (w_tasks w) - pk_id ` set (bl_busy s @ map fst (bl_done s)))"
proof -
  have "set (w_tasks w) = tasks_of s (w_id w)" using i w by (simp add: w_inv_def watch_ok_def)
  then have t: "set (w_tasks w) \<subseteq> pk_id ` set (pending s)" by (auto simp: tasks_of_def)
  have d: "distinct (bl_active s)" "set (bl_active s) \<subseteq> pk_id ` set (bl_all s @ bl_new s)"
    using i by (auto simp: w_inv_def queue_ok_def)
  note f = notify_active [OF d(1), of "pk_id ` set (bl_busy s @ map fst (bl_done s))" "w_tasks w"]
  show "set (bl_active (watch_notify_tasks s w)) = set (bl_active s) \<union> (set (w_tasks w) - pk_id ` set (bl_busy s @ map fst (bl_done s)))"
    using f by (simp add: watch_notify_tasks_def)
  have "set (w_tasks w) - pk_id ` set (bl_busy s @ map fst (bl_done s)) \<subseteq> pk_id ` set (bl_all s @ bl_new s)"
    using t unfolding pending_def set_append image_Un by blast
  then show "w_inv n (watch_notify_tasks s w)"
    unfolding watch_notify_tasks_def using f d(2) by (intro active_inv [OF i]) simp_all
qed

lemma notify_inv:
  assumes i: "w_inv n s"
  shows "w_inv n (watch_notify_watches s wid node evt)"
proof (cases "watch_search_helper s wid")
  case (Some w)
  note w = search_helper_Some [OF i Some]
  have 1: "w_inv n (set_watch s (w\<lparr>w_refcnt := w_refcnt w + 1\<rparr>))"
    by (rule set_watch_inv [OF i w(3)]) (simp_all add: w_shut_def del_ref_def)
  let ?v = "w\<lparr>w_items := map (notify_item node evt) (w_items w), w_changed := 1\<rparr>"
  have 2: "w_inv n (set_watch s ?v)"
    by (rule set_watch_inv [OF i w(3)]) (simp_all add: w_shut_def del_ref_def)
  have "?v \<in> set (all_watches (set_watch s ?v))" using w(3) by (auto simp: set_watch_all)
  from notify_tasks_inv(1) [OF 2 this] show ?thesis
    using 1 i Some by (simp add: watch_notify_watches_def Let_def)
qed (simp add: watch_notify_watches_def i)

section \<open>Items and harvests\<close>

lemma item_inv:
  assumes "w_inv n s" "w \<in> set (all_watches s)"
  shows "w_inv n (set_watch s (w\<lparr>w_items := items\<rparr>))"
  by (rule set_watch_inv [OF assms]) (simp_all add: w_shut_def del_ref_def)

lemma watch_item_op_inv:
  assumes "w_inv n s" "\<And>s w. w_inv n s \<Longrightarrow> w \<in> set (all_watches s) \<Longrightarrow> w_inv n (fst (f s w))"
  shows "w_inv n (snd (watch_item_op now s href f))"
  using assms search_Some(2) [OF assms(1)] by (auto simp: watch_item_op_def split: option.splits)

lemma create_item_inv:
  "w_inv n s \<Longrightarrow> w \<in> set (all_watches s) \<Longrightarrow> w_inv n (fst (watch_create_item cp ok link meta s w href))"
  by (auto simp: watch_create_item_def item_inv split: option.split sum.split prod.split)

lemma delete_item_inv:
  "w_inv n s \<Longrightarrow> w \<in> set (all_watches s) \<Longrightarrow> w_inv n (fst (watch_delete_item s w href))"
  by (auto simp: watch_delete_item_def item_inv split: option.split)

lemma harvest_fields:
  assumes "watch_harvest_changes cp w all = (v, outs)"
  shows "w_id v = w_id w" "w_tasks v = w_tasks w" "w_tasks_count v = w_tasks_count w" "w_refcnt v = w_refcnt w"
    "w_deleter v = w_deleter w"
  using assms by (auto simp: watch_harvest_changes_def Let_def split: if_splits)

lemma harvest_shut: "watch_harvest_changes cp w all = (v, outs) \<Longrightarrow> w_shut v = w_shut w \<and> del_ref v = del_ref w"
  using harvest_fields(5) by (simp add: w_shut_def del_ref_def)

lemma harvest_inv:
  assumes "w_inv n s" "w \<in> set (all_watches s)" "watch_harvest_changes cp w all = (v, outs)"
  shows "w_inv n (set_watch s v)"
  using harvest_fields [OF assms(3)] harvest_shut [OF assms(3)] by (intro set_watch_inv [OF assms(1,2)]) auto

section \<open>Polls\<close>

lemma calls_of_simps:
  "calls_of (s\<lparr>bl_calls := bl_calls s @ [c]\<rparr>) wid = calls_of s wid + (if pc_watch c = wid then 1 else 0)"
  by (simp add: calls_of_def)

lemma calls_of_remove:
  assumes "distinct (map pc_id (bl_calls s))" "c \<in> set (bl_calls s)" "bl_calls s' = filter (\<lambda>d. pc_id d \<noteq> pc_id c) (bl_calls s)"
  shows "calls_of s' wid = calls_of s wid - (if pc_watch c = wid then 1 else 0)"
proof -
  have "mset (bl_calls s) = mset (c # bl_calls s')" using remove_mset [OF assms(1,2)] assms(3) by simp
  then have "mset (filter (\<lambda>d. pc_watch d = wid) (bl_calls s)) = mset (filter (\<lambda>d. pc_watch d = wid) (c # bl_calls s'))"
    unfolding mset_filter by (rule arg_cong)
  then have "length (filter (\<lambda>d. pc_watch d = wid) (bl_calls s)) = length (filter (\<lambda>d. pc_watch d = wid) (c # bl_calls s'))"
    by (rule mset_eq_length)
  then show ?thesis by (simp add: calls_of_def)
qed

lemma queue_ok_add:
  assumes "queue_ok n s" "mset (requests s') = add_mset n (mset (requests s))" "bl_all s' = bl_all s"
    "bl_active s' = bl_active s" "bl_new s' = bl_new s"
  shows "queue_ok (Suc n) s'"
proof -
  have e: "mset (requests s') = mset (n # requests s)" using assms(2) by simp
  have "distinct (n # requests s)" "\<forall>i \<in> set (n # requests s). i < Suc n"
    using assms(1) by (auto simp: queue_ok_def)
  then show ?thesis using mset_eq_imp_distinct_iff [OF e] mset_eq_setD [OF e] assms(1,3-) unfolding queue_ok_def by simp
qed

lemma queue_ok_same:
  assumes "queue_ok n s" "mset (requests s') = mset (requests s)" "bl_all s' = bl_all s"
    "bl_active s' = bl_active s" "set (bl_new s) \<subseteq> set (bl_new s')"
  shows "queue_ok n s'"
proof (rule queue_okI [OF assms(1,2)])
  have "pk_id ` set (bl_all s @ bl_new s) \<subseteq> pk_id ` set (bl_all s' @ bl_new s')" using assms(3,5) by (intro image_mono) auto
  then show "set (bl_active s') \<subseteq> pk_id ` set (bl_all s' @ bl_new s')" 
    using assms(1,4) unfolding queue_ok_def by (metis order_trans)
qed (use assms in \<open>simp_all add: queue_ok_def\<close>)

lemma poll_inv:
  assumes i: "w_inv n s"
  shows "w_inv (Suc n) (snd (watch_poll_helper cp ok now mx mn n s href all))"
proof (cases "ok \<and> (\<exists>w. watch_search s href = Some w)")
  case True
  then obtain w where ok: ok and w: "watch_search s href = Some w" by blast
  note W = search_Some [OF i w]
  let ?s = "reset_lease_time now s w"
  have i': "w_inv n ?s" using i by simp
  have W': "w \<in> set (all_watches ?s)" using W(2) by simp
  have wok: "watch_ok ?s w" using i' W' by (simp add: w_inv_def)
  show ?thesis
  proof (cases "\<not> w_shut w \<and> w_changed w \<noteq> 1 \<and> \<not> all")
    case True
    let ?v = "w\<lparr>w_refcnt := w_refcnt w + 1\<rparr>"
    let ?c = "\<lparr>pc_id = n, pc_watch = w_id w, pc_delay = poll_delay (get_time mx WATCH_MAX) (get_time mn WATCH_MIN)\<rparr>"
    let ?t = "(set_watch ?s ?v)\<lparr>bl_calls := bl_calls ?s @ [?c]\<rparr>"
    have "w_inv (Suc n) ?t"
    proof (rule set_watch_step [OF i' W'])
      have "queue_ok n ?s" using i' by (simp add: w_inv_def)
      moreover have "mset (requests ?t) = add_mset n (mset (requests ?s))" by (simp add: requests_def pending_def)
      ultimately show "queue_ok (Suc n) ?t" by (rule queue_ok_add) simp_all
      have "w_id w \<in> w_id ` set (all_watches ?s)" using W' by simp
      moreover have "owners_ok ?s" using i' by (simp add: w_inv_def)
      moreover have "all_watches ?t = all_watches (set_watch ?s ?v)" by (simp add: all_watches_def)
      ultimately show "owners_ok ?t" by (simp add: owners_ok_def pending_def del: reset_lease_all)
      show "watch_ok ?t ?v"
        using wok by (simp add: watch_ok_def tasks_of_def calls_of_def pending_def del_ref_def)
    qed (simp_all add: w_shut_def tasks_of_def calls_of_def pending_def)
    then show ?thesis using True ok w by (simp add: watch_poll_helper_def Let_def)
  next
    case False
    then show ?thesis using ok w i' inv_mono [OF i'] inv_mono [OF harvest_inv [OF i' W']]
      by (auto simp: watch_poll_helper_def Let_def split: prod.split)
  qed
next
  case False
  then show ?thesis using inv_mono [OF i] by (auto simp: watch_poll_helper_def split: option.split)
qed

lemma expiry_le_iff: "expiry_le a b \<longleftrightarrow>
    tv_sec (pk_expiry a) < tv_sec (pk_expiry b) \<or>
    tv_sec (pk_expiry a) = tv_sec (pk_expiry b) \<and> tv_nsec (pk_expiry a) \<le> tv_nsec (pk_expiry b)"
  by (auto simp: expiry_le_def timespec_compare_def)

lemma expiry_trans: "expiry_le a b \<Longrightarrow> expiry_le b c \<Longrightarrow> expiry_le a c"
  by (auto simp: expiry_le_iff)

lemma insert_poll_mset [simp]: "mset (insert_poll t ts) = add_mset t (mset ts)"
  by (induction ts) auto

lemma insert_poll_set [simp]: "set (insert_poll t ts) = insert t (set ts)"
  by (induction ts) auto

lemma insert_poll_sorted: "sorted_wrt expiry_le ts \<Longrightarrow> sorted_wrt expiry_le (insert_poll t ts)"
proof (induction ts)
  case (Cons p ts)
  show ?case
  proof (cases "timespec_compare (pk_expiry p) (pk_expiry t) = 1")
    case True
    then have "expiry_le t p" by (auto simp: expiry_le_iff timespec_compare_def split: if_splits)
    then show ?thesis using True Cons.prems expiry_trans by auto
  next
    case False
    then have "expiry_le p t" by (simp add: expiry_le_def)
    then show ?thesis using False Cons by simp
  qed
qed simp

lemma enqueue_inv:
  assumes i: "w_inv n s" and e: "poll_enqueue s tid = Some s'"
  shows "w_inv n s'"
proof -
  obtain t where f: "find (\<lambda>t. pk_id t = tid) (bl_new s) = Some t"
    and s': "s' = s\<lparr>bl_all := insert_poll t (bl_all s), bl_new := filter (\<lambda>t. pk_id t \<noteq> tid) (bl_new s)\<rparr>"
    using e by (auto simp: poll_enqueue_def split: option.splits)
  have t: "t \<in> set (bl_new s)" "pk_id t = tid" using f find_unique [OF inv_requests(6) [OF i]] by auto
  define R where "R = mset (filter (\<lambda>t. pk_id t \<noteq> tid) (bl_new s))"
  have m: "mset (bl_new s) = add_mset t R" "mset (filter (\<lambda>t. pk_id t \<noteq> tid) (bl_new s)) = R"
    using remove_mset [OF inv_requests(6) [OF i] t(1), unfolded t(2)] by (simp_all add: R_def)
  have p: "mset (pending s') = mset (pending s)" by (simp add: s' pending_def m del: mset_filter)
  show ?thesis
  proof (rule w_inv_step [OF i])
    have q: "queue_ok n s" using i by (simp add: w_inv_def)
    show "queue_ok n s'"
    proof (rule queue_okI [OF q])
      show "mset (requests s') = mset (requests s)"
        using arg_cong [OF p, of "image_mset pk_id"] by (simp add: requests_def s')
      have "mset (bl_all s' @ bl_new s') = mset (bl_all s @ bl_new s)" by (simp add: s' m del: mset_filter)
      from mset_eq_setD [OF this] show "set (bl_active s') \<subseteq> pk_id ` set (bl_all s' @ bl_new s')"
        using q by (simp add: s' queue_ok_def)
    qed (use q insert_poll_sorted in \<open>simp_all add: s' queue_ok_def\<close>)
    show "owners_ok s'" using i mset_eq_setD [OF p] by (simp add: w_inv_def owners_ok_def s' all_watches_def)
    show "u \<in> set (ws_dying s') \<Longrightarrow> w_shut u" for u using i by (simp add: w_inv_def s')
  qed (use mset_eq_setD [OF p] in \<open>simp_all add: s' all_watches_def tasks_of_def calls_of_def\<close>)
qed

lemma attach_inv:
  assumes i: "w_inv n s"
  shows "w_inv n (snd (poll_attach ok now tid s))"
proof (cases "\<exists>c w. find (\<lambda>c. pc_id c = tid) (bl_calls s) = Some c \<and> find_any s (pc_watch c) = Some w")
  case True
  then obtain c w where fc: "find (\<lambda>c. pc_id c = tid) (bl_calls s) = Some c" and fw: "find_any s (pc_watch c) = Some w"
    by blast
  have c: "c \<in> set (bl_calls s)" "pc_id c = tid" using fc find_unique [OF inv_requests(2) [OF i]] by auto
  note w = find_any_Some [OF i fw]
  define R where "R = mset (filter (\<lambda>c. pc_id c \<noteq> tid) (bl_calls s))"
  have m: "mset (bl_calls s) = add_mset c R" "mset (filter (\<lambda>c. pc_id c \<noteq> tid) (bl_calls s)) = R"
    using remove_mset [OF inv_requests(2) [OF i] c(1), unfolded c(2)] by (simp_all add: R_def)
  note k = calls_of_remove [OF inv_requests(2) [OF i] c(1), unfolded c(2)]
  have cs: "set (filter (\<lambda>c. pc_id c \<noteq> tid) (bl_calls s)) \<subseteq> set (bl_calls s)" by auto
  have q: "queue_ok n s" using i by (simp add: w_inv_def)
  have o: "owners_ok s" using i by (simp add: w_inv_def)
  let ?s1 = "s\<lparr>bl_calls := filter (\<lambda>c. pc_id c \<noteq> tid) (bl_calls s)\<rparr>"
  let ?put = "w\<lparr>w_refcnt := w_refcnt w - 1\<rparr>"
  have gone: "w_inv n s'"
    if s': "ws_watches s' = ws_watches (set_watch s ?put)" "ws_dying s' = ws_dying (set_watch s ?put)" "ws_map s' = ws_map s"
      "bl_calls s' = bl_calls ?s1" "bl_all s' = bl_all s" "bl_new s' = bl_new s" "bl_busy s' = bl_busy s" "bl_done s' = bl_done s"
      "bl_active s' = bl_active s" "mset (map fst (bl_replies s') @ bl_dropped s') = add_mset tid (mset (map fst (bl_replies s) @ bl_dropped s))"
    for s' :: wsys
  proof (rule set_watch_step [OF i w(1)])
    have p: "pending s' = pending s" by (simp add: pending_def s')
    have "mset (requests s') = mset (requests s)" using s'(10) by (simp add: requests_def p s'(4) m c(2) del: mset_filter)
    then show "queue_ok n s'" by (rule queue_ok_same [OF q]) (simp_all add: s')
    have "all_watches s' = all_watches (set_watch s ?put)" by (simp add: all_watches_def s')
    then show "owners_ok s'" using o cs by (auto simp: owners_ok_def p s')
    show "watch_ok s' ?put" using w k [OF s'(4) [simplified]] by (simp add: watch_ok_def tasks_of_def p del_ref_def)
    show "wid \<noteq> w_id w \<Longrightarrow> tasks_of s' wid = tasks_of s wid \<and> calls_of s' wid = calls_of s wid" for wid
      using w(2) k [OF s'(4) [simplified], of wid] by (simp add: tasks_of_def p)
  qed (simp_all add: s' w_shut_def)
  let ?v = "w\<lparr>w_tasks := w_tasks w @ [tid], w_tasks_count := w_tasks_count w + 1\<rparr>"
  let ?n = "\<lparr>pk_id = tid, pk_watch = pc_watch c, pk_expiry = poll_expiry now (pc_delay c)\<rparr>"
  let ?t = "(set_watch ?s1 ?v)\<lparr>bl_new := bl_new s @ [?n]\<rparr>"
  have "w_inv n ?t"
  proof (rule set_watch_step [OF i w(1)])
    have "mset (requests ?t) = mset (requests s)" by (simp add: requests_def pending_def m c(2) del: mset_filter)
    then show "queue_ok n ?t" by (rule queue_ok_same [OF q]) auto
    have "all_watches ?t = all_watches (set_watch s ?v)" by (simp add: all_watches_def set_watch_def)
    moreover have "pc_watch c \<in> w_id ` set (all_watches s)" using o c(1) by (auto simp: owners_ok_def)
    ultimately show "owners_ok ?t" using o cs by (auto simp: owners_ok_def pending_def)
    have kk: "calls_of ?t wid = calls_of s wid - (if pc_watch c = wid then 1 else 0)" for wid
      by (rule k) simp
    have "tid \<notin> pk_id ` set (pending s)" using inv_requests(7) [OF i] c by auto
    then have "tid \<notin> set (w_tasks w)" using w(3) by (auto simp: watch_ok_def tasks_of_def)
    moreover have tk: "tasks_of ?t wid = tasks_of s wid \<union> (if pc_watch c = wid then {tid} else {})" for wid
    proof -
      have "{t \<in> set (pending ?t). pk_watch t = wid} =
          {t \<in> set (pending s). pk_watch t = wid} \<union> (if pc_watch c = wid then {?n} else {})" by (auto simp: pending_def)
      then show ?thesis by (simp add: tasks_of_def image_Un)
    qed
    ultimately show "watch_ok ?t ?v" using w(2,3) kk [of "w_id w"] by (simp add: watch_ok_def del_ref_def)
    show "wid \<noteq> w_id w \<Longrightarrow> tasks_of ?t wid = tasks_of s wid \<and> calls_of ?t wid = calls_of s wid" for wid
      using w(2) kk [of wid] tk [of wid] by simp
  qed (simp_all add: set_watch_def w_shut_def)
  moreover have "w_inv n ((set_watch ?s1 ?put)\<lparr>bl_replies := bl_replies s @ [(tid, [Out_Error (w_href w) ERR_NO_MEM])]\<rparr>)"
    by (rule gone) (simp_all add: set_watch_def)
  moreover have "w_inv n ((set_watch ?s1 ?put)\<lparr>bl_dropped := bl_dropped s @ [tid]\<rparr>)"
    by (rule gone) (simp_all add: set_watch_def)
  ultimately show ?thesis using fc fw by (simp add: poll_attach_def Let_def)
qed (auto simp: poll_attach_def i split: option.split)

section \<open>The polling threads\<close>

lemma first_task_in:
  assumes i: "w_inv n s" and t: "(case get_first_task_active s of Some t \<Rightarrow> Some t | None \<Rightarrow> get_expired_task now s) = Some t"
  shows "t \<in> set (bl_all s @ bl_new s)"
proof (cases "get_first_task_active s")
  case None
  then show ?thesis using t by (auto simp: get_expired_task_def split: list.splits if_splits)
next
  case (Some u)
  then obtain tid where "find (\<lambda>t. pk_id t = tid) (bl_all s @ bl_new s) = Some u"
    by (auto simp: get_first_task_active_def split: list.splits)
  then have "u \<in> set (bl_all s @ bl_new s)" using find_unique [OF inv_requests(3) [OF i]] by blast
  then show ?thesis using Some t by simp
qed

lemma dequeue_inv:
  assumes i: "w_inv n s"
  shows "w_inv n (poll_dequeue now s)"
proof (cases "case get_first_task_active s of Some t \<Rightarrow> Some t | None \<Rightarrow> get_expired_task now s")
  case (Some t)
  let ?P = "\<lambda>u. pk_id u \<noteq> pk_id t"
  define s' where "s' = poll_dequeue now s"
  have s': "s' = s\<lparr>bl_active := filter (\<lambda>u. u \<noteq> pk_id t) (bl_active s), bl_all := filter ?P (bl_all s),
      bl_new := filter ?P (bl_new s), bl_busy := bl_busy s @ [t]\<rparr>"
    using Some by (simp add: s'_def poll_dequeue_def)
  define A where "A = mset (filter ?P (bl_all s))"
  define N where "N = mset (filter ?P (bl_new s))"
  have m: "mset (bl_all s) + mset (bl_new s) = add_mset t (A + N)"
    using remove_mset [OF inv_requests(3) [OF i] first_task_in [OF i Some]] unfolding filter_append mset_append A_def N_def .
  have p: "mset (pending s') = mset (pending s)"
  proof -
    have "mset (pending s') = add_mset t (A + N) + mset (bl_busy s) + image_mset fst (mset (bl_done s))"
      by (simp add: s' pending_def A_def N_def ac_simps)
    also have "\<dots> = mset (pending s)" unfolding m [symmetric] by (simp add: pending_def ac_simps)
    finally show ?thesis .
  qed
  have q: "queue_ok n s" using i by (simp add: w_inv_def)
  have "w_inv n s'"
  proof (rule w_inv_step [OF i])
    show "queue_ok n s'"
    proof (rule queue_okI [OF q])
      show "mset (requests s') = mset (requests s)"
        using arg_cong [OF p, of "image_mset pk_id"] by (simp add: requests_def s')
      show "sorted_wrt expiry_le (bl_all s')" using q by (simp add: s' queue_ok_def sorted_wrt_filter)
      show "distinct (bl_active s')" using q by (simp add: s' queue_ok_def)
      have "set (bl_active s) \<subseteq> pk_id ` set (bl_all s @ bl_new s)" using q by (simp add: queue_ok_def)
      then show "set (bl_active s') \<subseteq> pk_id ` set (bl_all s' @ bl_new s')" by (auto simp: s')
    qed
    show "owners_ok s'" using i mset_eq_setD [OF p] by (simp add: w_inv_def owners_ok_def s' all_watches_def)
    show "u \<in> set (ws_dying s') \<Longrightarrow> w_shut u" for u using i by (simp add: w_inv_def s')
  qed (use mset_eq_setD [OF p] in \<open>simp_all add: s' all_watches_def tasks_of_def calls_of_def\<close>)
  then show ?thesis by (simp add: s'_def)
qed (simp add: poll_dequeue_def i)

lemma busy_done_inv:
  assumes i: "w_inv n s" and t: "t \<in> set (bl_busy s)"
  shows "w_inv n (s\<lparr>bl_busy := filter (\<lambda>u. pk_id u \<noteq> pk_id t) (bl_busy s), bl_done := bl_done s @ [(t, outs)]\<rparr>)" (is "w_inv n ?s")
proof (rule w_inv_step [OF i])
  define R where "R = mset (filter (\<lambda>u. pk_id u \<noteq> pk_id t) (bl_busy s))"
  have m: "mset (bl_busy s) = add_mset t R" "mset (filter (\<lambda>u. pk_id u \<noteq> pk_id t) (bl_busy s)) = R"
    using remove_mset [OF inv_requests(4) [OF i] t] by (simp_all add: R_def)
  have p: "mset (pending ?s) = mset (pending s)" by (simp add: pending_def m del: mset_filter)
  have q: "queue_ok n s" using i by (simp add: w_inv_def)
  have "mset (requests ?s) = mset (requests s)"
    using arg_cong [OF p, of "image_mset pk_id"] by (simp add: requests_def)
  then show "queue_ok n ?s" by (rule queue_ok_same [OF q]) simp_all
  show "owners_ok ?s" using i mset_eq_setD [OF p] by (simp add: w_inv_def owners_ok_def all_watches_def)
  show "u \<in> set (ws_dying ?s) \<Longrightarrow> w_shut u" for u using i by (simp add: w_inv_def)
  show "u \<in> set (all_watches ?s) \<Longrightarrow> u \<in> set (all_watches s) \<and> tasks_of ?s (w_id u) = tasks_of s (w_id u) \<and>
      calls_of ?s (w_id u) = calls_of s (w_id u) \<or> watch_ok ?s u" for u
    using mset_eq_setD [OF p] by (simp add: all_watches_def tasks_of_def calls_of_def)
qed (simp_all add: all_watches_def)

lemma harvest_step_inv:
  assumes i: "w_inv n s"
  shows "w_inv n (poll_harvest cp tid s)"
proof (cases "\<exists>t w. find (\<lambda>t. pk_id t = tid) (bl_busy s) = Some t \<and> find_any s (pk_watch t) = Some w")
  case True
  then obtain t w where ft: "find (\<lambda>t. pk_id t = tid) (bl_busy s) = Some t" and fw: "find_any s (pk_watch t) = Some w"
    by blast
  have t: "t \<in> set (bl_busy s)" "pk_id t = tid" using ft find_unique [OF inv_requests(4) [OF i]] by auto
  obtain v outs where h: "watch_harvest_changes cp w False = (v, outs)" by fastforce
  have "w_inv n (set_watch s v)" by (rule harvest_inv [OF i find_any_Some(1) [OF i fw] h])
  from busy_done_inv [OF this, of t outs] t show ?thesis using ft fw h by (simp add: poll_harvest_def)
qed (auto simp: poll_harvest_def i split: option.split)

lemma leave_inv:
  assumes i: "w_inv n s"
  shows "w_inv n (poll_leave tid s)"
proof (cases "\<exists>d w. find (\<lambda>d. pk_id (fst d) = tid) (bl_done s) = Some d \<and> find_any s (pk_watch (fst d)) = Some w")
  case True
  then obtain t outs w where ft: "find (\<lambda>d. pk_id (fst d) = tid) (bl_done s) = Some (t, outs)" and fw: "find_any s (pk_watch t) = Some w"
    by auto
  have dd: "distinct (map (\<lambda>d. pk_id (fst d)) (bl_done s))" using inv_requests(5) [OF i] by (simp add: comp_def)
  have t: "(t, outs) \<in> set (bl_done s)" "pk_id t = tid" using ft find_unique [OF dd] by auto
  note w = find_any_Some [OF i fw]
  let ?v = "w\<lparr>w_tasks := filter (\<lambda>t. t \<noteq> tid) (w_tasks w), w_tasks_count := w_tasks_count w - 1, w_refcnt := w_refcnt w - 1\<rparr>"
  let ?s = "(set_watch s ?v)\<lparr>bl_done := filter (\<lambda>d. pk_id (fst d) \<noteq> tid) (bl_done s), bl_replies := bl_replies s @ [(tid, outs)]\<rparr>"
  define R where "R = mset (filter (\<lambda>d. pk_id (fst d) \<noteq> tid) (bl_done s))"
  have m: "mset (bl_done s) = add_mset (t, outs) R" "mset (filter (\<lambda>d. pk_id (fst d) \<noteq> tid) (bl_done s)) = R"
    using remove_mset [OF dd t(1)] t(2) by (simp_all add: R_def)
  have p: "mset (pending s) = add_mset t (mset (pending ?s))" by (simp add: pending_def m del: mset_filter)
  then have ps: "set (pending s) = insert t (set (pending ?s))" by (metis set_mset_add_mset_insert set_mset_mset)
  have "distinct (map pk_id (t # pending ?s))"
    using inv_requests(1) [OF i] mset_eq_imp_distinct_iff [of "map pk_id (pending s)" "map pk_id (t # pending ?s)"] p by simp
  then have tn: "tid \<notin> pk_id ` set (pending ?s)" using t(2) by simp
  have tk: "tasks_of s wid = tasks_of ?s wid \<union> (if pk_watch t = wid then {tid} else {})" for wid
  proof -
    have "{u \<in> set (pending s). pk_watch u = wid} = {u \<in> set (pending ?s). pk_watch u = wid} \<union> (if pk_watch t = wid then {t} else {})"
      unfolding ps by auto
    then show ?thesis by (simp only: tasks_of_def image_Un) (simp add: t(2))
  qed
  have q: "queue_ok n s" and o: "owners_ok s" using i by (simp_all add: w_inv_def)
  have "w_inv n ?s"
  proof (rule set_watch_step [OF i w(1)])
    have "mset (requests ?s) = mset (requests s)"
      using arg_cong [OF p, of "image_mset pk_id"] by (simp add: requests_def t(2))
    then show "queue_ok n ?s" by (rule queue_ok_same [OF q]) simp_all
    have "all_watches ?s = all_watches (set_watch s ?v)" by (simp add: all_watches_def)
    then show "owners_ok ?s" using o ps by (simp add: owners_ok_def)
    have sw: "distinct (w_tasks w)" "set (w_tasks w) = tasks_of s (w_id w)" using w(3) by (simp_all add: watch_ok_def)
    define T where "T = tasks_of ?s (w_id w)"
    have "tasks_of s (w_id w) = insert tid T" using tk [of "w_id w"] w(2) by (simp add: T_def)
    then have d: "distinct (w_tasks w)" "set (w_tasks w) = insert tid T" using sw by simp_all
    moreover have "tid \<notin> T" using tn by (auto simp: T_def tasks_of_def)
    moreover have "length (w_tasks w) = Suc (length (filter (\<lambda>t. t \<noteq> tid) (w_tasks w)))"
    proof -
      have "distinct (map (\<lambda>x. x) (w_tasks w))" "tid \<in> set (w_tasks w)" using d by simp_all
      from remove_mset [OF this] have "mset (w_tasks w) = add_mset tid (mset (filter (\<lambda>t. t \<noteq> tid) (w_tasks w)))" .
      from arg_cong [OF this, of size] show ?thesis by (simp only: size_mset size_add_mset)
    qed
    ultimately have "set (w_tasks ?v) = T" "w_tasks_count ?v = int (length (w_tasks ?v))" "distinct (w_tasks ?v)"
      using w(3) by (auto simp: watch_ok_def)
    moreover have "w_tasks_count ?v + calls_of ?s (w_id w) + del_ref ?v \<le> w_refcnt ?v"
      using w(3) by (simp add: watch_ok_def del_ref_def calls_of_def)
    ultimately show "watch_ok ?s ?v" by (simp add: watch_ok_def T_def)
    show "wid \<noteq> w_id w \<Longrightarrow> tasks_of ?s wid = tasks_of s wid \<and> calls_of ?s wid = calls_of s wid" for wid
      using tk [of wid] w(2) by (simp add: calls_of_def)
  qed (simp_all add: set_watch_def w_shut_def)
  then show ?thesis using ft fw by (simp add: poll_leave_def)
qed (auto simp: poll_leave_def i split: option.split)

section \<open>Creation and deletion\<close>

lemma map_inv:
  assumes i: "w_inv n s" and m: "bitmap_wf m" "used m = used (ws_map s)"
  shows "w_inv n (s\<lparr>ws_map := m\<rparr>)"
proof -
  have "ids_ok (s\<lparr>ws_map := m\<rparr>)" using i m by (simp add: w_inv_def ids_ok_def all_watches_def)
  moreover have "queue_ok n (s\<lparr>ws_map := m\<rparr>) = queue_ok n s" "owners_ok (s\<lparr>ws_map := m\<rparr>) = owners_ok s"
    "\<And>w. watch_ok (s\<lparr>ws_map := m\<rparr>) w = watch_ok s w" "all_watches (s\<lparr>ws_map := m\<rparr>) = all_watches s"
    by (simp_all add: queue_ok_def owners_ok_def watch_ok_def requests_def pending_def tasks_of_def calls_of_def all_watches_def)
  ultimately show ?thesis using i by (simp add: w_inv_def)
qed

lemma no_tasks:
  assumes "w_inv n s" "wid \<notin> used (ws_map s)"
  shows "tasks_of s wid = {}" "calls_of s wid = 0"
proof -
  have "pk_watch ` set (pending s) \<union> pc_watch ` set (bl_calls s) \<subseteq> used (ws_map s)"
    using assms(1) unfolding w_inv_def owners_ok_def ids_ok_def by blast
  then have "\<forall>t \<in> set (pending s). pk_watch t \<noteq> wid" "\<forall>c \<in> set (bl_calls s). pc_watch c \<noteq> wid" using assms(2) by blast+
  then show "tasks_of s wid = {}" "calls_of s wid = 0" by (auto simp: tasks_of_def calls_of_def filter_empty_conv)
qed

lemma new_watch_inv:
  assumes i: "w_inv n s" and g: "pool_get ok (ws_map s) = (wid, m)" "0 \<le> wid"
    and w: "w_id w = wid" "w_tasks w = []" "w_tasks_count w = 0" "w_refcnt w = 0" "w_deleter w = Nobody"
  shows "w_inv n (s\<lparr>ws_map := m, ws_watches := ws_watches s @ [w]\<rparr>)" (is "w_inv n ?s")
proof -
  have b: "bitmap_wf (ws_map s)" using i by (simp add: w_inv_def ids_ok_def)
  have f: "wid \<notin> used (ws_map s)" by (rule bm.get_fresh [OF b g])
  have a: "set (all_watches ?s) = insert w (set (all_watches s))" by (simp add: all_watches_def)
  have ids: "w_id ` set (all_watches s) = used (ws_map s)" using i by (simp add: w_inv_def ids_ok_def)
  then have "distinct (map w_id (all_watches ?s))" using inv_ids(1) [OF i] f w(1) by (auto simp: all_watches_def)
  then have 1: "ids_ok ?s"
    using bm.get_inv [OF b g(1)] bm.get_used [OF b g(1)] g(2) ids w(1) unfolding ids_ok_def a by simp
  have 2: "queue_ok n ?s" using i by (simp add: w_inv_def queue_ok_def requests_def pending_def)
  have 3: "owners_ok ?s" using i unfolding w_inv_def owners_ok_def a by (auto simp: pending_def)
  have same: "watch_ok ?s u = watch_ok s u" for u by (simp add: watch_ok_def tasks_of_def calls_of_def pending_def)
  have "watch_ok s w" using no_tasks [OF i f] w by (simp add: watch_ok_def del_ref_def)
  then have "\<forall>u \<in> set (all_watches ?s). watch_ok ?s u" using i unfolding a same by (simp add: w_inv_def)
  then show ?thesis using 1 2 3 i by (simp add: w_inv_def)
qed

lemma put_back_inv:
  assumes i: "w_inv n s" and g: "pool_get ok (ws_map s) = (wid, m)" "0 \<le> wid"
  shows "w_inv n (s\<lparr>ws_map := bitmap_put_id m wid\<rparr>)"
proof (rule map_inv [OF i])
  have b: "bitmap_wf (ws_map s)" using i by (simp add: w_inv_def ids_ok_def)
  show "bitmap_wf (bitmap_put_id m wid)" by (rule bm.put_inv [OF bm.get_inv [OF b g(1)]])
  show "used (bitmap_put_id m wid) = used (ws_map s)"
    using bm.put_used [OF bm.get_inv [OF b g(1)]] bm.get_used [OF b g(1)] bm.get_fresh [OF b g] g(2) by simp
qed

lemma map_other: "i \<notin> w_id ` set ws \<Longrightarrow> map (\<lambda>v. if w_id v = i then x else v) ws = ws"
  by (rule map_idI) auto

lemma create_inv:
  assumes i: "w_inv n s"
  shows "w_inv n (snd (handlerWatchServiceMake a b c now lease s))"
proof -
  obtain wid m where g: "pool_get a (ws_map s) = (wid, m)" by fastforce
  have bwf: "bitmap_wf (ws_map s)" using i by (simp add: w_inv_def ids_ok_def)
  obtain tid th where p: "ptask_schedule True now (ws_lease s) (User_Task (nat wid)) (get_time lease WATCH_LEASE) 1 = (tid, th)" by fastforce
  show ?thesis
  proof (cases "wid < 0")
    case True
    then have "w_inv n (s\<lparr>ws_map := m\<rparr>)"
      using bm.get_inv [OF bwf g] bm.get_used [OF bwf g] by (intro map_inv [OF i]) simp_all
    then show ?thesis using True g by (simp add: handlerWatchServiceMake_def watch_create_def)
  next
    case False
    then have wid: "0 \<le> wid" by simp
    let ?w = "\<lparr>w_id = wid, w_href = watch_uri wid, w_changed = 0, w_tasks = [], w_tasks_count = 0,
                   w_lease_tid = tid, w_items = [], w_refcnt = 1, w_deleter = Nobody\<rparr>"
    have l: "w_inv n (s\<lparr>ws_map := bitmap_put_id m wid, ws_lease := x\<rparr>)" for x using put_back_inv [OF i g wid] by simp
    have l': "w_inv n (s\<lparr>ws_lease := x, ws_map := bitmap_put_id m wid\<rparr>)" for x
      using put_back_inv [of n "s\<lparr>ws_lease := x\<rparr>", OF _ _ wid] i g by simp
    let ?s = "s\<lparr>ws_map := m, ws_lease := th, ws_watches := ws_watches s @ [?w]\<rparr>"
    let ?v = "?w\<lparr>w_refcnt := 0\<rparr>"
    have "w_inv n (s\<lparr>ws_lease := th, ws_map := m, ws_watches := ws_watches s @ [?v]\<rparr>)"
      using new_watch_inv [of n "s\<lparr>ws_lease := th\<rparr>", OF _ _ wid, of a m ?v] i g by simp
    moreover have "wid \<notin> w_id ` set (all_watches s)"
      using bm.get_fresh [OF bwf g wid] i by (simp add: w_inv_def ids_ok_def)
    then have "set_watch ?s ?v = s\<lparr>ws_lease := th, ws_map := m, ws_watches := ws_watches s @ [?v]\<rparr>"
      by (simp add: set_watch_def all_watches_def image_Un map_other)
    ultimately have "w_inv n (set_watch ?s ?v)" by (simp only:)
    then show ?thesis using False g p put_back_inv [OF i g wid] l l' by (simp add: handlerWatchServiceMake_def watch_create_def Let_def)
  qed
qed

lemma mark_inv:
  assumes "w_inv n s" "w \<in> set (all_watches s)" "\<not> w_shut w" "d \<noteq> Nobody"
    "w_refcnt w + (if d \<in> {By_Request, By_Stuck_Request} then 1 else 0) \<le> r"
  shows "w_inv n (set_watch s (w\<lparr>w_refcnt := r, w_deleter := d\<rparr>))"
  using assms(3-) by (intro set_watch_inv [OF assms(1,2)]) (auto simp: w_shut_def del_ref_def split: if_splits)

lemma del_inv:
  assumes i: "w_inv n s"
  shows "w_inv n (snd (watch_del s href))"
proof (cases "\<exists>w. watch_search s href = Some w \<and> \<not> w_shut w")
  case True
  then obtain w where w: "watch_search s href = Some w" "\<not> w_shut w" by blast
  note W = search_Some [OF i w(1)]
  let ?v = "\<lambda>d. w\<lparr>w_refcnt := w_refcnt w + 1, w_deleter := d\<rparr>"
  have m: "w_inv n (set_watch s (?v By_Request))" "w_inv n (set_watch s (?v By_Stuck_Request))"
    by (rule mark_inv [OF i W(2) w(2)]; simp)+
  have "w_inv n ((set_watch s (?v By_Request))\<lparr>ws_lease := th\<rparr>)" for th using m(1) by simp
  moreover have "?v By_Request \<in> set (all_watches ((set_watch s (?v By_Request))\<lparr>ws_lease := th\<rparr>))" for th
    using W(2) by (auto simp: all_watches_def set_watch_def)
  ultimately have "w_inv n (watch_notify_tasks ((set_watch s (?v By_Request))\<lparr>ws_lease := th\<rparr>) (?v By_Request))" for th
    using notify_tasks_inv(1) by blast
  then show ?thesis using w m by (auto simp: watch_del_def Let_def split: option.splits prod.splits)
qed (auto simp: watch_del_def i split: option.splits)

lemma lease_task_inv:
  assumes i: "w_inv n s"
  shows "w_inv n (delete_watch_task s wid)"
proof (cases "watch_search_helper s wid")
  case (Some w)
  note W = search_helper_Some [OF i Some]
  have "\<not> w_shut w \<Longrightarrow> w_inv n (set_watch s (w\<lparr>w_deleter := By_Lease\<rparr>))"
    using mark_inv [OF i W(3), of By_Lease "w_refcnt w"] by simp
  then show ?thesis using Some i by (simp add: delete_watch_task_def)
qed (simp add: delete_watch_task_def i)

lemma unlink_inv:
  assumes i: "w_inv n s"
  shows "w_inv n (watch_unlink s wid)"
proof (cases "\<exists>w. watch_search_helper s wid = Some w \<and> w_deleter w \<in> {By_Request, By_Lease}")
  case True
  then obtain w where w: "watch_search_helper s wid = Some w" "w_deleter w \<in> {By_Request, By_Lease}" by blast
  note W = search_helper_Some [OF i w(1)]
  let ?v = "(if w_deleter w = By_Request then w\<lparr>w_refcnt := w_refcnt w - 1\<rparr> else w)\<lparr>w_deleter := Unlinked\<rparr>"
  let ?s = "s\<lparr>ws_watches := filter (\<lambda>v. w_id v \<noteq> wid) (ws_watches s), ws_dying := ws_dying s @ [?v]\<rparr>"
  have v: "w_id ?v = wid" "w_tasks ?v = w_tasks w" "w_tasks_count ?v = w_tasks_count w"
    "w_refcnt w - del_ref w \<le> w_refcnt ?v - del_ref ?v" "w_shut ?v"
    using W(2) w(2) by (auto simp: del_ref_def w_shut_def)
  have "mset (ws_watches s) = add_mset w (mset (filter (\<lambda>v. w_id v \<noteq> wid) (ws_watches s)))"
    using remove_mset [OF inv_ids(2) [OF i] W(1)] unfolding W(2) .
  from arg_cong [OF this, of "image_mset w_id"]
  have "mset (map w_id (all_watches s)) = mset (map w_id (all_watches ?s))"
    unfolding all_watches_def by (simp add: W(2) v(1) del: mset_filter)
  note ids = mset_eq_imp_distinct_iff [OF this] mset_eq_setD [OF this]
  have "ids_ok ?s" using i ids by (simp add: w_inv_def ids_ok_def)
  moreover have "queue_ok n ?s" using i by (simp add: w_inv_def queue_ok_def requests_def pending_def)
  moreover have "owners_ok ?s" using i ids(2) by (simp add: w_inv_def owners_ok_def pending_def)
  moreover have same: "watch_ok ?s u = watch_ok s u" for u by (simp add: watch_ok_def tasks_of_def calls_of_def pending_def)
  have vok: "watch_ok s ?v" using W(4) v(2-4) unfolding watch_ok_def v(1) W(2) by auto
  have "\<forall>u \<in> set (all_watches ?s). watch_ok ?s u" using i vok unfolding same by (auto simp: w_inv_def all_watches_def)
  moreover have "\<forall>u \<in> set (ws_dying ?s). w_shut u" using i v(5) by (simp add: w_inv_def)
  ultimately have "w_inv n ?s" by (simp add: w_inv_def)
  then show ?thesis using w by (auto simp: watch_unlink_def Let_def)
qed (auto simp: watch_unlink_def i split: option.split)

lemma dispose_inv:
  assumes i: "w_inv n s"
  shows "w_inv n (watch_dispose s wid)"
proof (cases "\<exists>w. find (\<lambda>w. w_id w = wid) (ws_dying s) = Some w \<and> w_refcnt w \<le> 0")
  case True
  then obtain w where f: "find (\<lambda>w. w_id w = wid) (ws_dying s) = Some w" and r: "w_refcnt w \<le> 0" by blast
  have w: "w \<in> set (ws_dying s)" "w_id w = wid" using f find_unique [OF inv_ids(3) [OF i]] by auto
  then have wa: "w \<in> set (all_watches s)" by (simp add: all_watches_def)
  have ok: "watch_ok s w" using i wa by (simp add: w_inv_def)
  have "0 \<le> w_tasks_count w" "0 \<le> calls_of s wid" "0 \<le> del_ref w" using ok by (simp_all add: watch_ok_def calls_of_def del_ref_def)
  moreover have "w_tasks_count w + calls_of s wid + del_ref w \<le> 0" using r w(2) ok by (simp add: watch_ok_def)
  ultimately have "w_tasks_count w = 0" "calls_of s wid = 0" by linarith+
  then have "tasks_of s wid = {}" "calls_of s wid = 0" using ok w(2) by (auto simp: watch_ok_def)
  then have no: "wid \<notin> pk_watch ` set (pending s) \<union> pc_watch ` set (bl_calls s)"
    by (auto simp: tasks_of_def calls_of_def filter_empty_conv)
  let ?s = "s\<lparr>ws_dying := filter (\<lambda>v. w_id v \<noteq> wid) (ws_dying s), ws_map := bitmap_put_id (ws_map s) wid\<rparr>"
  have nw: "\<forall>u \<in> set (ws_watches s). w_id u \<noteq> wid" using inv_ids(1) [OF i] w by (force simp: all_watches_def)
  have a: "all_watches ?s = filter (\<lambda>v. w_id v \<noteq> wid) (all_watches s)" using nw by (simp add: all_watches_def filter_id_conv)
  have b: "bitmap_wf (ws_map s)" "w_id ` set (all_watches s) = used (ws_map s)" using i by (simp_all add: w_inv_def ids_ok_def)
  have ids: "w_id ` set (all_watches ?s) = used (ws_map s) - {wid}" unfolding a b(2) [symmetric] by auto
  have "ids_ok ?s"
    using bm.put_inv [OF b(1)] bm.put_used [OF b(1)] inv_ids(1) [OF i] ids unfolding ids_ok_def a by (simp add: distinct_map_filter)
  moreover have "queue_ok n ?s" using i by (simp add: w_inv_def queue_ok_def requests_def pending_def)
  moreover have "owners_ok ?s" using i no b(2) unfolding w_inv_def owners_ok_def ids by (simp add: pending_def) blast
  moreover have same: "watch_ok ?s u = watch_ok s u" for u by (simp add: watch_ok_def tasks_of_def calls_of_def pending_def)
  have "\<forall>u \<in> set (all_watches ?s). watch_ok ?s u" using i unfolding same a by (simp add: w_inv_def)
  moreover have "\<forall>u \<in> set (ws_dying ?s). w_shut u" using i by (simp add: w_inv_def)
  ultimately have "w_inv n ?s" by (simp add: w_inv_def)
  then show ?thesis using f r by (simp add: watch_dispose_def)
qed (auto simp: watch_dispose_def i split: option.split)

section \<open>Runs\<close>

lemma init_inv: "wsys_init ok = Some s \<Longrightarrow> w_inv 0 s"
  by (auto simp: wsys_init_def w_inv_def ids_ok_def queue_ok_def owners_ok_def all_watches_def requests_def pending_def
      bitmap_init_wf split: option.splits)

lemma w_do_inv:
  assumes "w_inv n s" "w_do cp now n oper s = Some s'"
  shows "w_inv (Suc n) s'"
proof (cases oper)
  case (Op_Add link meta href target)
  then show ?thesis using assms inv_mono [OF watch_item_op_inv [OF assms(1) create_item_inv]] by auto
next
  case (Op_Remove href target)
  then show ?thesis using assms inv_mono [OF watch_item_op_inv [OF assms(1) delete_item_inv]] by auto
qed (use assms in \<open>auto intro: inv_mono poll_inv create_inv del_inv lease_task_inv unlink_inv dispose_inv notify_inv
      attach_inv enqueue_inv dequeue_inv harvest_step_inv leave_inv\<close>)

lemma w_run_inv: "w_inv n s \<Longrightarrow> w_run cp n s ops = Some s' \<Longrightarrow> w_inv (n + length ops) s'"
proof (induction cp n s ops rule: w_run.induct)
  case (2 cp n s now oper ops)
  then show ?case using w_do_inv [OF 2(2)] by (fastforce split: option.splits)
qed simp

text \<open>
  The inner loop of \<open>poll_thread_task\<close>, when no other thread comes in between: \<open>k\<close> rounds
  of it.
\<close>

fun poll_rounds :: "(cstr \<Rightarrow> bool) \<Rightarrow> timespec \<Rightarrow> nat \<Rightarrow> wsys \<Rightarrow> wsys" where
  "poll_rounds cp now 0 s = s"
| "poll_rounds cp now (Suc k) s =
     (case (case get_first_task_active s of Some t \<Rightarrow> Some t | None \<Rightarrow> get_expired_task now s) of
        None \<Rightarrow> s
      | Some task \<Rightarrow> poll_rounds cp now k (poll_leave (pk_id task) (poll_harvest cp (pk_id task) (poll_dequeue now s))))"

primrec out_href :: "out \<Rightarrow> cstr" where
  "out_href (Out_Object href) = href"
| "out_href (Out_Null href) = href"
| "out_href (Out_Error href e) = href"

text \<open>The steps of the polling threads and the notifications.\<close>

fun polling :: "w_op \<Rightarrow> bool" where
  "polling Op_Dequeue = True"
| "polling (Op_Harvest tid) = True"
| "polling (Op_Leave tid) = True"
| "polling (Op_Notify wid node evt) = True"
| "polling _ = False"

text \<open>
  A change of \<open>href\<close> is on its way to the tasks \<open>U\<close> of a watch: it is recorded as long as one
  of them has not harvested, and each one that has got it.
\<close>

definition carries :: "cstr \<Rightarrow> watch \<Rightarrow> bool" where
  "carries href w \<longleftrightarrow> w_changed w = 1 \<and> (\<exists>item \<in> set (w_items w). wi_href item = href \<and> 0 < wi_count item)"

definition tells :: "cstr \<Rightarrow> out list \<Rightarrow> bool" where
  "tells href outs \<longleftrightarrow> href \<in> out_href ` set outs"

definition change_inv :: "int \<Rightarrow> cstr \<Rightarrow> nat set \<Rightarrow> wsys \<Rightarrow> bool" where
  "change_inv wid href U s \<longleftrightarrow>
     (\<forall>t \<in> set (bl_all s @ bl_new s @ bl_busy s). pk_id t \<in> U \<longrightarrow>
        pk_watch t = wid \<and> (\<exists>w \<in> set (all_watches s). w_id w = wid \<and> carries href w)) \<and>
     (\<forall>d \<in> set (bl_done s). pk_id (fst d) \<in> U \<longrightarrow> tells href (snd d)) \<and>
     (\<forall>r \<in> set (bl_replies s). fst r \<in> U \<longrightarrow> tells href (snd r))"

section \<open>Every waiting request is answered\<close>

lemma find_any_ex:
  assumes "w_inv n s" "wid \<in> pk_watch ` set (pending s)"
  obtains w where "find_any s wid = Some w"
proof -
  have "wid \<in> w_id ` set (all_watches s)" using assms by (auto simp: w_inv_def owners_ok_def)
  then have "find_any s wid \<noteq> None" by (auto simp: find_any_def find_None_iff all_watches_def)
  then show ?thesis using that by blast
qed

lemma harvest_busy:
  assumes i: "w_inv n s" and t: "t \<in> set (bl_busy s)"
  obtains w v outs where "find_any s (pk_watch t) = Some w" "watch_harvest_changes cp w False = (v, outs)"
    "poll_harvest cp (pk_id t) s = (set_watch s v)\<lparr>bl_busy := filter (\<lambda>u. pk_id u \<noteq> pk_id t) (bl_busy s), bl_done := bl_done s @ [(t, outs)]\<rparr>"
proof -
  have f: "find (\<lambda>u. pk_id u = pk_id t) (bl_busy s) = Some t" using t find_unique [OF inv_requests(4) [OF i]] by blast
  have "pk_watch t \<in> pk_watch ` set (pending s)" using t by (auto simp: pending_def)
  then obtain w where w: "find_any s (pk_watch t) = Some w" using find_any_ex [OF i] by blast
  obtain v outs where "watch_harvest_changes cp w False = (v, outs)" by fastforce
  then show ?thesis using that w f by (simp add: poll_harvest_def)
qed

lemma leave_done:
  assumes i: "w_inv n s" and t: "(t, outs) \<in> set (bl_done s)"
  obtains w where "find_any s (pk_watch t) = Some w"
    "poll_leave (pk_id t) s = (set_watch s (w\<lparr>w_tasks := filter (\<lambda>u. u \<noteq> pk_id t) (w_tasks w), w_tasks_count := w_tasks_count w - 1,
        w_refcnt := w_refcnt w - 1\<rparr>))\<lparr>bl_done := filter (\<lambda>d. pk_id (fst d) \<noteq> pk_id t) (bl_done s),
        bl_replies := bl_replies s @ [(pk_id t, outs)]\<rparr>"
proof -
  have "distinct (map (\<lambda>d. pk_id (fst d)) (bl_done s))" using inv_requests(5) [OF i] by (simp add: comp_def)
  then have f: "find (\<lambda>d. pk_id (fst d) = pk_id t) (bl_done s) = Some (t, outs)" using t find_unique by fastforce
  have "pk_watch t \<in> pk_watch ` set (pending s)" using t by (force simp: pending_def)
  then obtain w where "find_any s (pk_watch t) = Some w" using find_any_ex [OF i] by blast
  then show ?thesis using that f by (simp add: poll_leave_def)
qed

lemma poll_round:
  assumes i: "w_inv n s" and t: "(case get_first_task_active s of Some t \<Rightarrow> Some t | None \<Rightarrow> get_expired_task now s) = Some t"
  obtains outs s' where "poll_leave (pk_id t) (poll_harvest cp (pk_id t) (poll_dequeue now s)) = s'" "w_inv n s'"
    "bl_all s' = filter (\<lambda>u. pk_id u \<noteq> pk_id t) (bl_all s)" "bl_new s' = filter (\<lambda>u. pk_id u \<noteq> pk_id t) (bl_new s)"
    "bl_replies s' = bl_replies s @ [(pk_id t, outs)]"
proof -
  let ?d = "poll_dequeue now s"
  have d: "t \<in> set (bl_busy ?d)" "bl_all ?d = filter (\<lambda>u. pk_id u \<noteq> pk_id t) (bl_all s)"
    "bl_new ?d = filter (\<lambda>u. pk_id u \<noteq> pk_id t) (bl_new s)" "bl_replies ?d = bl_replies s"
    using t by (simp_all add: poll_dequeue_def)
  note di = dequeue_inv [OF i, of now]
  obtain w v outs where h: "poll_harvest cp (pk_id t) ?d =
      (set_watch ?d v)\<lparr>bl_busy := filter (\<lambda>u. pk_id u \<noteq> pk_id t) (bl_busy ?d), bl_done := bl_done ?d @ [(t, outs)]\<rparr>"
    using harvest_busy [OF di d(1)] by metis
  note hi = harvest_step_inv [OF di, of cp "pk_id t"]
  have "(t, outs) \<in> set (bl_done (poll_harvest cp (pk_id t) ?d))" unfolding h by simp
  then obtain w' where l: "poll_leave (pk_id t) (poll_harvest cp (pk_id t) ?d) =
      (set_watch (poll_harvest cp (pk_id t) ?d) w')
        \<lparr>bl_done := filter (\<lambda>d. pk_id (fst d) \<noteq> pk_id t) (bl_done (poll_harvest cp (pk_id t) ?d)),
         bl_replies := bl_replies (poll_harvest cp (pk_id t) ?d) @ [(pk_id t, outs)]\<rparr>"
    using leave_done [OF hi] by metis
  show ?thesis
  proof (rule that [OF refl leave_inv [OF hi]])
    show "bl_replies (poll_leave (pk_id t) (poll_harvest cp (pk_id t) ?d)) = bl_replies s @ [(pk_id t, outs)]"
      unfolding l by (simp add: h d)
  qed (unfold l, simp_all add: h d)
qed

lemma next_task_ex:
  assumes i: "w_inv n s" and a: "bl_all s \<noteq> []" "\<forall>t \<in> set (bl_all s). timespec_compare (pk_expiry t) now \<le> 0"
  obtains t where "(case get_first_task_active s of Some t \<Rightarrow> Some t | None \<Rightarrow> get_expired_task now s) = Some t"
proof -
  have "get_expired_task now s = Some (hd (bl_all s))"
    using a by (cases "bl_all s") (simp_all add: get_expired_task_def)
  then show ?thesis using that by (cases "get_first_task_active s") auto
qed

lemma poll_rounds_all:
  assumes "w_inv n s" "\<forall>t \<in> set (bl_all s). timespec_compare (pk_expiry t) now \<le> 0" "length (bl_all s) + length (bl_new s) \<le> k"
  shows "bl_all (poll_rounds cp now k s) = [] \<and>
    fst ` set (bl_replies s) \<union> pk_id ` set (bl_all s) \<subseteq> fst ` set (bl_replies (poll_rounds cp now k s))"
  using assms
proof (induction k arbitrary: s)
  case (Suc k)
  show ?case
  proof (cases "case get_first_task_active s of Some t \<Rightarrow> Some t | None \<Rightarrow> get_expired_task now s")
    case None
    then have "bl_all s = []" using next_task_ex [OF Suc.prems(1) _ Suc.prems(2)] by (metis option.distinct(1))
    then show ?thesis using None by simp
  next
    case (Some t)
    obtain outs s' where r: "poll_leave (pk_id t) (poll_harvest cp (pk_id t) (poll_dequeue now s)) = s'" "w_inv n s'"
      "bl_all s' = filter (\<lambda>u. pk_id u \<noteq> pk_id t) (bl_all s)" "bl_new s' = filter (\<lambda>u. pk_id u \<noteq> pk_id t) (bl_new s)"
      "bl_replies s' = bl_replies s @ [(pk_id t, outs)]" by (rule poll_round [OF Suc.prems(1) Some])
    have "t \<in> set (bl_all s @ bl_new s)" by (rule first_task_in [OF Suc.prems(1) Some])
    then have "length (filter (\<lambda>u. pk_id u \<noteq> pk_id t) (bl_all s @ bl_new s)) < length (bl_all s @ bl_new s)"
      by (rule length_filter_less) simp
    then have len: "length (bl_all s') + length (bl_new s') \<le> k" using Suc.prems(3) by (simp add: r)
    have e: "poll_rounds cp now (Suc k) s = poll_rounds cp now k s'" using Some r(1) by simp
    have "\<forall>t \<in> set (bl_all s'). timespec_compare (pk_expiry t) now \<le> 0" using Suc.prems(2) by (simp add: r)
    note ih = Suc.IH [OF r(2) this len]
    have "fst ` set (bl_replies s) \<union> pk_id ` set (bl_all s) \<subseteq> fst ` set (bl_replies s') \<union> pk_id ` set (bl_all s')"
      by (auto simp: r)
    then show ?thesis using ih unfolding e by blast
  qed
qed simp

section \<open>Changes are delivered\<close>

lemma set_watch_carries:
  assumes "\<exists>u \<in> set (all_watches s). w_id u = wid \<and> carries href u"
    and "w_inv n s" "w \<in> set (all_watches s)" "w_id v = w_id w" "w_id w = wid \<Longrightarrow> carries href w \<Longrightarrow> carries href v"
  shows "\<exists>u \<in> set (all_watches (set_watch s v)). w_id u = wid \<and> carries href u"
proof -
  obtain u where u: "u \<in> set (all_watches s)" "w_id u = wid" "carries href u" using assms(1) by blast
  show ?thesis
  proof (cases "wid = w_id w")
    case True
    then have "u = w" using same_id [OF assms(2) u(1) assms(3)] u(2) by simp
    then show ?thesis using u assms(3-5) True by (auto simp: set_watch_all)
  next
    case False
    then show ?thesis using u assms(4) by (auto simp: set_watch_all)
  qed
qed

lemma carries_notify: "carries href w \<Longrightarrow> carries href (w\<lparr>w_items := map (notify_item node evt) (w_items w), w_changed := 1\<rparr>)"
proof -
  assume "carries href w"
  then obtain item where item: "item \<in> set (w_items w)" "wi_href item = href" "0 < wi_count item" by (auto simp: carries_def)
  then have "notify_item node evt item \<in> notify_item node evt ` set (w_items w)"
    "wi_href (notify_item node evt item) = href" "0 < wi_count (notify_item node evt item)"
    by (simp_all add: notify_item_def)
  then show ?thesis unfolding carries_def by auto
qed

lemma harvest_tells:
  assumes "carries href w" "watch_harvest_changes cp w False = (v, outs)"
  shows "tells href outs" "1 < w_tasks_count w \<Longrightarrow> carries href v"
proof -
  obtain item where item: "item \<in> set (w_items w)" "wi_href item = href" "0 < wi_count item" and c: "w_changed w = 1"
    using assms(1) by (auto simp: carries_def)
  let ?h = "harvest_item cp False (w_tasks_count w \<le> 1)"
  have o: "outs = concat (map (snd \<circ> ?h) (w_items w))" and v: "w_items v = map (fst \<circ> ?h) (w_items w)"
    "w_changed v = (if w_tasks_count w \<le> 1 then 0 else 1)"
    using assms(2) c by (auto simp: watch_harvest_changes_def Let_def)
  have "href \<in> out_href ` set (snd (?h item))" using item by (simp add: harvest_item_def)
  then show "tells href outs" using item(1) unfolding tells_def o by (auto simp: image_iff)
  assume "1 < w_tasks_count w"
  then have "fst (?h item) = item" by (simp add: harvest_item_def)
  then have "item \<in> set (w_items v)" using item(1) unfolding v by (force simp: image_iff)
  then show "carries href v" using item v(2) \<open>1 < w_tasks_count w\<close> by (auto simp: carries_def)
qed

lemma change_dequeue:
  assumes i: "w_inv n s" and c: "change_inv wid href U s"
  shows "change_inv wid href U (poll_dequeue now s)"
proof (cases "case get_first_task_active s of Some t \<Rightarrow> Some t | None \<Rightarrow> get_expired_task now s")
  case (Some t)
  then have "t \<in> set (bl_all s @ bl_new s)" by (rule first_task_in [OF i])
  then show ?thesis using c Some unfolding change_inv_def by (auto simp: poll_dequeue_def all_watches_def)
qed (simp add: poll_dequeue_def c)

text \<open>A task that still has to harvest is among the tasks of its watch.\<close>

lemma two_tasks:
  assumes i: "w_inv n s" and w: "w \<in> set (all_watches s)" and t: "t \<in> set (pending s)" "u \<in> set (pending s)"
    "pk_watch t = w_id w" "pk_watch u = w_id w" "pk_id t \<noteq> pk_id u"
  shows "1 < w_tasks_count w"
proof -
  have ok: "set (w_tasks w) = tasks_of s (w_id w)" "w_tasks_count w = int (length (w_tasks w))"
    using i w by (simp_all add: w_inv_def watch_ok_def)
  have "{pk_id t, pk_id u} \<subseteq> set (w_tasks w)" using t unfolding ok tasks_of_def by auto
  then have "card {pk_id t, pk_id u} \<le> length (w_tasks w)" by (meson card_length card_mono finite_set order_trans)
  then show ?thesis using t(5) ok(2) by simp
qed

lemma change_harvest:
  assumes i: "w_inv n s" and c: "change_inv wid href U s"
  shows "change_inv wid href U (poll_harvest cp tid s)"
proof (cases "\<exists>t \<in> set (bl_busy s). pk_id t = tid")
  case True
  then obtain t where t: "t \<in> set (bl_busy s)" "pk_id t = tid" by blast
  obtain w v outs where h: "find_any s (pk_watch t) = Some w" "watch_harvest_changes cp w False = (v, outs)"
    "poll_harvest cp tid s = (set_watch s v)\<lparr>bl_busy := filter (\<lambda>u. pk_id u \<noteq> tid) (bl_busy s), bl_done := bl_done s @ [(t, outs)]\<rparr>"
    using harvest_busy [OF i t(1)] t(2) by metis
  note w = find_any_Some [OF i h(1)]
  have carr: "\<exists>u \<in> set (all_watches (set_watch s v)). w_id u = wid \<and> carries href u"
    if u: "u \<in> set (bl_all s @ bl_new s @ bl_busy s)" "pk_id u \<in> U" "pk_id u \<noteq> tid" for u
  proof (rule set_watch_carries [OF _ i w(1) harvest_fields(1) [OF h(2)]])
    show "\<exists>u \<in> set (all_watches s). w_id u = wid \<and> carries href u" using c u unfolding change_inv_def by blast
    assume "w_id w = wid" and cw: "carries href w"
    moreover have "pk_watch u = wid" using c u unfolding change_inv_def by blast
    ultimately have "1 < w_tasks_count w"
      using two_tasks [OF i w(1), of t u] t u w(2) by (auto simp: pending_def)
    then show "carries href v" by (rule harvest_tells(2) [OF cw h(2)])
  qed
  have "tells href outs" if u: "tid \<in> U"
  proof -
    obtain x where x: "pk_watch t = wid" "x \<in> set (all_watches s)" "w_id x = wid" "carries href x"
      using c t u unfolding change_inv_def set_append by blast
    then have "x = w" using same_id [OF i x(2) w(1)] w(2) by simp
    then show ?thesis using harvest_tells(1) [OF _ h(2)] x(4) by simp
  qed
  moreover have a: "all_watches (poll_harvest cp tid s) = all_watches (set_watch s v)" by (simp add: h(3) all_watches_def)
  moreover have "u \<in> set (bl_all s @ bl_new s @ bl_busy s) \<and> pk_id u \<noteq> tid"
    if "u \<in> set (bl_all s @ bl_new s @ filter (\<lambda>u. pk_id u \<noteq> tid) (bl_busy s))" for u
    using that t inv_requests(1) [OF i] by (auto simp: pending_def)
  ultimately show ?thesis using c carr t(2) unfolding change_inv_def a by (simp add: h(3)) blast
next
  case False
  then have "find (\<lambda>t. pk_id t = tid) (bl_busy s) = None" by (auto simp: find_None_iff)
  then show ?thesis by (simp add: poll_harvest_def c)
qed

lemma change_leave:
  assumes i: "w_inv n s" and c: "change_inv wid href U s"
  shows "change_inv wid href U (poll_leave tid s)"
proof (cases "\<exists>d \<in> set (bl_done s). pk_id (fst d) = tid")
  case True
  then obtain t outs where t: "(t, outs) \<in> set (bl_done s)" "pk_id t = tid" by auto
  obtain w where l: "find_any s (pk_watch t) = Some w"
    "poll_leave tid s = (set_watch s (w\<lparr>w_tasks := filter (\<lambda>u. u \<noteq> tid) (w_tasks w), w_tasks_count := w_tasks_count w - 1,
        w_refcnt := w_refcnt w - 1\<rparr>))\<lparr>bl_done := filter (\<lambda>d. pk_id (fst d) \<noteq> tid) (bl_done s),
        bl_replies := bl_replies s @ [(tid, outs)]\<rparr>" (is "_ = (set_watch s ?v)\<lparr>bl_done := _, bl_replies := _\<rparr>")
    using leave_done [OF i t(1)] t(2) by metis
  note w = find_any_Some [OF i l(1)]
  have "\<exists>u \<in> set (all_watches (set_watch s ?v)). w_id u = wid \<and> carries href u"
    if "\<exists>u \<in> set (all_watches s). w_id u = wid \<and> carries href u"
    by (rule set_watch_carries [OF that i w(1)]) (simp_all add: carries_def)
  moreover have a: "all_watches (poll_leave tid s) = all_watches (set_watch s ?v)" by (simp add: l(2) all_watches_def)
  moreover have "tid \<in> U \<Longrightarrow> tells href outs" using c t unfolding change_inv_def by fastforce
  ultimately show ?thesis using c unfolding change_inv_def a by (simp add: l(2))
next
  case False
  then have "find (\<lambda>d. pk_id (fst d) = tid) (bl_done s) = None" by (auto simp: find_None_iff)
  then show ?thesis by (simp add: poll_leave_def c)
qed

lemma change_notify:
  assumes i: "w_inv n s" and c: "change_inv wid href U s"
  shows "change_inv wid href U (watch_notify_watches s x node evt)"
proof (cases "watch_search_helper s x")
  case (Some w)
  note w = search_helper_Some [OF i Some]
  have upd: "change_inv wid href U s'"
    if "all_watches s' = all_watches (set_watch s v)" "bl_all s' = bl_all s" "bl_new s' = bl_new s" "bl_busy s' = bl_busy s"
      "bl_done s' = bl_done s" "bl_replies s' = bl_replies s" "w_id v = w_id w" "carries href w \<Longrightarrow> carries href v" for s' :: wsys and v
    using c set_watch_carries [OF _ i w(3) that(7), of wid href] that(8) unfolding change_inv_def that(1-6) by blast
  let ?r = "w\<lparr>w_refcnt := w_refcnt w + 1\<rparr>"
  have "change_inv wid href U (set_watch s ?r)"
    by (rule upd [of _ ?r]) (simp_all add: carries_def)
  moreover let ?v = "w\<lparr>w_items := map (notify_item node evt) (w_items w), w_changed := 1\<rparr>"
  have "change_inv wid href U (watch_notify_tasks (set_watch s ?v) ?v)"
    by (rule upd [of _ ?v]) (simp_all add: carries_notify watch_notify_tasks_def all_watches_def)
  ultimately show ?thesis using Some c by (simp add: watch_notify_watches_def Let_def)
qed (simp add: watch_notify_watches_def c)

lemma change_run:
  assumes "w_inv n s" "change_inv wid href U s" "\<forall>x \<in> set ops. polling (snd x)" "w_run cp n s ops = Some s'"
  shows "w_inv (n + length ops) s' \<and> change_inv wid href U s'"
  using assms
proof (induction cp n s ops rule: w_run.induct)
  case (2 cp n s now oper ops)
  then obtain s1 where s1: "w_do cp now n oper s = Some s1" "w_run cp (Suc n) s1 ops = Some s'" by (auto split: option.splits)
  have "polling oper" using 2 by simp
  then have "change_inv wid href U s1"
    using s1(1) change_dequeue [OF 2(2,3)] change_harvest [OF 2(2,3)] change_leave [OF 2(2,3)] change_notify [OF 2(2,3)]
    by (cases oper) auto
  then show ?case using 2(1) [OF s1(1)] w_do_inv [OF 2(2) s1(1)] s1(2) 2(4) by simp
qed simp

definition w_from_init :: "(cstr \<Rightarrow> bool) \<Rightarrow> (timespec \<times> w_op) list \<Rightarrow> wsys option" where
  "w_from_init cp ops = (case wsys_init True of None \<Rightarrow> None | Some s \<Rightarrow> w_run cp 0 s ops)"

text \<open>A small run: a watch on one device, and a long poll that is about to wait.\<close>

definition ex_ops :: "w_op list \<Rightarrow> (timespec \<times> w_op) list" where
  "ex_ops ops = map (Pair \<lparr>tv_sec = 0, tv_nsec = 0\<rparr>)
     ([Op_Create True True True None, Op_Add (Inr 7) 8 (Some (watch_uri 0)) ''/obix/deviceRoot/a/'',
       Op_Poll True None None (Some (watch_uri 0)) False] @ ops)"

lemma from_init_inv:
  assumes "w_from_init cp ops = Some s"
  shows "w_inv (length ops) s"
proof -
  obtain s0 where "wsys_init True = Some s0" "w_run cp 0 s0 ops = Some s"
    using assms by (auto simp: w_from_init_def split: option.splits)
  then show ?thesis using w_run_inv [OF init_inv] by fastforce
qed

lemma ex_waiting: "w_from_init (\<lambda>_. True) (ex_ops [Op_Attach True 2, Op_Enqueue 2]) \<noteq> None"
  by code_simp

lemma unique_task:
  assumes "w_inv n s" "t \<in> set (pending s)" "u \<in> set (pending s)" "pk_id u = pk_id t"
  shows "u = t"
  using inv_requests(1) [OF assms(1)] assms(2-) unfolding distinct_map inj_on_def by blast

lemma notify_starts:
  assumes i: "w_inv n s" and w: "watch_search_helper s wid = Some w" "\<not> w_shut w"
    and item: "item \<in> set (w_items w)" "wi_node item = Some node"
    and t: "t \<in> set (bl_all s @ bl_new s @ bl_busy s)" "pk_watch t = wid"
  shows "change_inv wid (wi_href item) {pk_id t} (watch_notify_watches s wid node evt)"
    "pk_id t \<in> set (bl_active (watch_notify_watches s wid node evt)) \<or> t \<in> set (bl_busy s)"
proof -
  note W = search_helper_Some [OF i w(1)]
  define v where "v = w\<lparr>w_items := map (notify_item node evt) (w_items w), w_changed := 1\<rparr>"
  define s' where "s' = watch_notify_watches s wid node evt"
  have e: "s' = watch_notify_tasks (set_watch s v) v"
    using w item by (auto simp: s'_def v_def watch_notify_watches_def Let_def)
  have vi: "w_id v = wid" "w_tasks v = w_tasks w" using W(2) by (simp_all add: v_def)
  have va: "v \<in> set (all_watches (set_watch s v))" using W(2,3) vi(1) by (auto simp: set_watch_all)
  have iv: "w_inv n (set_watch s v)" by (rule set_watch_inv [OF i W(3)]) (simp_all add: v_def w_shut_def del_ref_def)
  have "notify_item node evt item \<in> set (w_items v)" "wi_href (notify_item node evt item) = wi_href item"
    "0 < wi_count (notify_item node evt item)" using item by (simp_all add: v_def notify_item_def)
  then have "carries (wi_href item) v" unfolding carries_def by (auto simp: v_def)
  then have k: "\<exists>u \<in> set (all_watches s'). w_id u = wid \<and> carries (wi_href item) u"
    using va vi(1) unfolding e watch_notify_tasks_def all_watches_def by auto
  have f: "bl_all s' = bl_all s" "bl_new s' = bl_new s" "bl_busy s' = bl_busy s" "bl_done s' = bl_done s" "bl_replies s' = bl_replies s"
    unfolding e by (simp_all add: watch_notify_tasks_def)
  have tp: "t \<in> set (pending s)" using t(1) by (auto simp: pending_def)
  have "distinct (requests s)" using i by (simp add: w_inv_def queue_ok_def)
  then have nd: "\<forall>d \<in> set (bl_done s). pk_id (fst d) \<noteq> pk_id t" "\<forall>r \<in> set (bl_replies s). fst r \<noteq> pk_id t"
    using t(1) unfolding requests_def pending_def by (auto simp: image_iff)
  have "\<forall>u \<in> set (bl_all s @ bl_new s @ bl_busy s). pk_id u = pk_id t \<longrightarrow> pk_watch u = wid"
    using unique_task [OF i tp] t(2) by (auto simp: pending_def)
  then show "change_inv wid (wi_href item) {pk_id t} (watch_notify_watches s wid node evt)"
    unfolding s'_def [symmetric] change_inv_def f using k nd by auto
  have "pk_id t \<in> set (w_tasks v)" using W(2,4) t(2) tp unfolding vi by (auto simp: watch_ok_def tasks_of_def)
  then have "pk_id t \<in> set (bl_active s') \<or> pk_id t \<in> pk_id ` set (bl_busy s)"
    using notify_tasks_inv(2) [OF iv va] nd(1) unfolding e by (auto simp: image_iff)
  moreover have "t \<in> set (bl_busy s)" if b: "pk_id t \<in> pk_id ` set (bl_busy s)"
  proof -
    obtain u where u: "u \<in> set (bl_busy s)" "pk_id u = pk_id t" using b by force
    then have "u \<in> set (pending s)" by (simp add: pending_def)
    then show ?thesis using unique_task [OF i tp] u by blast
  qed
  ultimately show "pk_id t \<in> set (bl_active (watch_notify_watches s wid node evt)) \<or> t \<in> set (bl_busy s)"
    unfolding s'_def by blast
qed

section \<open>Findings\<close>

text \<open>
  A task joins its watch before it joins \<open>list_all\<close>; a notification in between lets a
  polling thread answer and free it first.
\<close>

lemma poll_use_after_free:
  "w_from_init (\<lambda>_. True) (ex_ops [Op_Attach True 2, Op_Notify 0 7 WATCH_EVT_NODE_CHANGED, Op_Dequeue,
     Op_Harvest 2, Op_Leave 2, Op_Enqueue 2]) = None"
  by code_simp

text \<open>
  A change between the look for changes and the creation of the task is not noticed: the
  request waits for its expiry although there is something to report.
\<close>

lemma poll_misses_wakeup:
  "map_option (\<lambda>s. (map w_changed (ws_watches s), map pk_id (bl_all s), bl_active s))
     (w_from_init (\<lambda>_. True) (ex_ops [Op_Notify 0 7 WATCH_EVT_NODE_CHANGED, Op_Attach True 2, Op_Enqueue 2])) =
   Some ([1], [2], [])"
  by code_simp

text \<open>A watch deleted at that moment leaves the request without any answer.\<close>

lemma poll_reply_dropped:
  "map_option (\<lambda>s. (bl_dropped s, bl_replies s, pending s))
     (w_from_init (\<lambda>_. True) (ex_ops [Op_Del (Some (watch_uri 0)), Op_Attach True 2])) = Some ([2], [], [])"
  by code_simp

text \<open>A second poll takes the change away from a waiting one, which then gets an empty answer.\<close>

lemma poll_change_stolen:
  "map_option bl_replies
     (w_from_init (\<lambda>_. True) (ex_ops [Op_Attach True 2, Op_Enqueue 2, Op_Notify 0 7 WATCH_EVT_NODE_CHANGED,
        Op_Poll True None None (Some (watch_uri 0)) False, Op_Dequeue, Op_Harvest 2, Op_Leave 2])) = Some [(2, [])]"
  by code_simp

text \<open>
  A notification of a watch that is marked as shut down leaves a reference behind: the
  watch has no tasks and no callers, and is never released.
\<close>

lemma notify_leaks_watch:
  "map_option (\<lambda>s. (map w_refcnt (ws_dying (watch_dispose s 0)), bl_calls s, pending s))
     (w_from_init (\<lambda>_. True) (map (Pair \<lparr>tv_sec = 0, tv_nsec = 0\<rparr>) [Op_Create True True True None, Op_Lease 0,
        Op_Notify 0 7 WATCH_EVT_NODE_CHANGED, Op_Unlink 0, Op_Dispose 0])) = Some ([1], [], [])"
  by code_simp

section \<open>Properties\<close>









text \<open>
  C12: The loop of a polling thread answers everybody.  From any reachable state, once the
  expiry of every queued task is over, a thread that runs its inner loop as often as there
  are tasks empties \<open>list_all\<close>, and every request that was waiting there has its reply.
\<close>

theorem poll_loop_answers_all:
  assumes "w_from_init cp ops = Some s" "\<forall>t \<in> set (bl_all s). timespec_compare (pk_expiry t) now \<le> 0"
  shows "bl_all (poll_rounds cp now (length (bl_all s @ bl_new s)) s) = [] \<and>
    pk_id ` set (bl_all s) \<subseteq> fst ` set (bl_replies (poll_rounds cp now (length (bl_all s @ bl_new s)) s))"
  using poll_rounds_all [OF from_init_inv [OF assms(1)] assms(2), of "length (bl_all s @ bl_new s)" cp] by auto

theorem poll_loop_answers_all_witness:
  "\<exists>s. w_from_init (\<lambda>_. True) (ex_ops [Op_Attach True 2, Op_Enqueue 2]) = Some s \<and> bl_all s \<noteq> [] \<and>
     (\<forall>t \<in> set (bl_all s). timespec_compare (pk_expiry t) \<lparr>tv_sec = 1, tv_nsec = 0\<rparr> \<le> 0) \<and>
     bl_all (poll_rounds (\<lambda>_. True) \<lparr>tv_sec = 1, tv_nsec = 0\<rparr> (length (bl_all s @ bl_new s)) s) = [] \<and>
     pk_id ` set (bl_all s) \<subseteq> fst ` set (bl_replies (poll_rounds (\<lambda>_. True) \<lparr>tv_sec = 1, tv_nsec = 0\<rparr> (length (bl_all s @ bl_new s)) s))"
proof -
  have "map_option (\<lambda>s. map (\<lambda>t. timespec_compare (pk_expiry t) \<lparr>tv_sec = 1, tv_nsec = 0\<rparr>) (bl_all s))
     (w_from_init (\<lambda>_. True) (ex_ops [Op_Attach True 2, Op_Enqueue 2])) = Some [- 1]" by code_simp
  then obtain s where s: "w_from_init (\<lambda>_. True) (ex_ops [Op_Attach True 2, Op_Enqueue 2]) = Some s"
    "map (\<lambda>t. timespec_compare (pk_expiry t) \<lparr>tv_sec = 1, tv_nsec = 0\<rparr>) (bl_all s) = [- 1]" by auto
  then have c: "\<forall>t \<in> set (bl_all s). timespec_compare (pk_expiry t) \<lparr>tv_sec = 1, tv_nsec = 0\<rparr> \<le> 0" "bl_all s \<noteq> []"
    by (auto simp: map_eq_Cons_conv)
  then show ?thesis using s(1) poll_loop_answers_all [OF s(1) c(1)] by blast
qed

text \<open>
  C13: The URI of a watch leads back to it: for every ID the bitmap can hand out,
  \<open>watch_get_id\<close> reads the ID from the URI that \<open>watch_create\<close> prints, and the URI with its
  terminator fits into the buffer allocated for it.
\<close>

theorem watch_uri_roundtrip:
  assumes "0 \<le> wid" "wid < 2 ^ 31"
  shows "watch_get_id (Some (watch_uri wid)) = wid \<and>
    int (length (watch_uri wid)) + 1 \<le> int (length WATCH_URI_TEMPLATE) + (WATCH_ID_MAX_BITS - 2) * 2 + 1"
  using watch_uri_id [OF assms] watch_uri_fits [OF assms] by blast

theorem watch_uri_roundtrip_witness:
  "(0::int) \<le> 1234567890 \<and> (1234567890::int) < 2 ^ 31 \<and> watch_get_id (Some (watch_uri 1234567890)) = 1234567890 \<and>
   int (length (watch_uri 1234567890)) + 1 \<le> int (length WATCH_URI_TEMPLATE) + (WATCH_ID_MAX_BITS - 2) * 2 + 1"
  using watch_uri_roundtrip [of 1234567890] by simp

end
