(* ===== verification/Obix_History.thy ===== *)
theory Obix_History
  imports Obix_Timestamp Obix_Errmsg
begin

text \<open>
  The history facility of one device, from \<open>src/src/server/history.c\<close>: its log files, one for
  each date, and their abstracts, appending records and querying them.

  A log file descriptor is its abstract node: date, number of records, first and last
  timestamp.  The contents of the files on disk are a map from dates, since the path name
  of a file is made of the directory of the facility and the date; \<open>hd_index\<close> is the index
  file on disk, as it was flushed last.  What the environment decides at each record
  (whether files can be created and written, whether memory is short) is part of the input
  of \<open>hist_append_core\<close>; allocations of the query succeed, and index files are as the server
  writes them.
\<close>

section \<open>Log files\<close>

definition HIST_REC_TS_MAX_LEN :: nat where "HIST_REC_TS_MAX_LEN = 20"
definition HIST_FLT_VAL_MAX_BITS :: nat where "HIST_FLT_VAL_MAX_BITS = 9"
definition HIST_AIN_TS_UND :: cstr where "HIST_AIN_TS_UND = ''UNSPECIFIED''"
definition HIST_RECORD_SEPARATOR :: cstr where "HIST_RECORD_SEPARATOR = [CHR 0x0D, CHR 0x0A]"

record hist_file =
  hf_date :: cstr
  hf_count :: int
  hf_start :: cstr
  hf_end :: cstr

record hist_dev =
  hd_count :: int
  hd_id :: cstr
  hd_href :: cstr
  hd_files :: "hist_file list"
  hd_disk :: "cstr \<rightharpoonup> cstr"
  hd_index :: "hist_file list"

text \<open>\<open>__hist_enqueue_file\<close>: \<open>None\<close> for a negative return value.\<close>

fun hist_enqueue_file :: "hist_file \<Rightarrow> hist_file list \<Rightarrow> hist_file list option" where
  "hist_enqueue_file new [] = Some [new]"
| "hist_enqueue_file new (file # files) =
     (case timestamp_compare_date (Some (hf_date new)) (Some (hf_date file)) of
        None \<Rightarrow> None
      | Some res \<Rightarrow>
          if res = 0 then None
          else if res < 0 then Some (new # file # files)
          else map_option (Cons file) (hist_enqueue_file new files))"

definition add_abs_count :: "hist_file \<Rightarrow> int \<Rightarrow> hist_file" where
  "add_abs_count file added = (if hf_count file < 0 then file else file\<lparr>hf_count := hf_count file + added\<rparr>)"

text \<open>Changing the last descriptor of the list, the one in use while appending.\<close>

definition update_last :: "(hist_file \<Rightarrow> hist_file) \<Rightarrow> hist_dev \<Rightarrow> hist_dev" where
  "update_last f dev =
     (case hd_files dev of [] \<Rightarrow> dev
      | fs \<Rightarrow> dev\<lparr>hd_files := butlast fs @ [f (last fs)]\<rparr>)"

text \<open>What can go wrong when a fragment is created or a record is written.\<close>

datatype frag_env = Frag_Ok | Frag_No_File | Frag_No_Abstract | Frag_No_Descriptor
datatype write_env = Write_Ok | Write_No_Mem | Write_No_IO

record rec_env =
  re_frag :: frag_env
  re_write :: write_env
  re_dup :: bool

record hist_rec =
  hr_ts :: "cstr option"
  hr_text :: cstr
  hr_env :: rec_env

definition write_logfile :: "(cstr \<rightharpoonup> cstr) \<Rightarrow> hist_file \<Rightarrow> write_env \<Rightarrow> cstr \<Rightarrow> errcode \<times> (cstr \<rightharpoonup> cstr)" where
  "write_logfile disk file env data =
     (if env = Write_No_Mem then (ERR_NO_MEM, disk)
      else case disk (hf_date file) of
             None \<Rightarrow> (ERR_HISTORY_IO, disk)
           | Some old \<Rightarrow>
               if env = Write_No_IO then (ERR_HISTORY_IO, disk)
               else (ERR_SUCCESS, disk(hf_date file \<mapsto> old @ data @ HIST_RECORD_SEPARATOR)))"

text \<open>An empty file, or one that is not there, cannot be read.\<close>

definition read_logfile :: "(cstr \<rightharpoonup> cstr) \<Rightarrow> hist_file \<Rightarrow> cstr option" where
  "read_logfile disk file =
     (case disk (hf_date file) of None \<Rightarrow> None | Some data \<Rightarrow> if data = [] then None else Some data)"

text \<open>
  \<open>__hist_create_file\<close>: a descriptor from an abstract, at the end for a new fragment, at its
  place for one that is loaded from disk.
\<close>

definition hist_create_file :: "hist_dev \<Rightarrow> hist_file \<Rightarrow> bool \<Rightarrow> hist_dev option" where
  "hist_create_file dev abstract newly_created =
     (if newly_created then Some (dev\<lparr>hd_files := hd_files dev @ [abstract]\<rparr>)
      else if read_logfile (hd_disk dev) abstract = None then None
      else map_option (\<lambda>fs. dev\<lparr>hd_files := fs\<rparr>) (hist_enqueue_file abstract (hd_files dev)))"

definition hist_add_absnode :: "cstr \<Rightarrow> cstr \<Rightarrow> hist_file" where
  "hist_add_absnode date start = \<lparr>hf_date = date, hf_count = 0, hf_start = start, hf_end = start\<rparr>"

text \<open>\<open>creat\<close> truncates a file that exists; both error paths after it remove the file.\<close>

definition hist_create_fragment :: "frag_env \<Rightarrow> hist_dev \<Rightarrow> cstr \<Rightarrow> bool \<times> hist_dev" where
  "hist_create_fragment env dev ts =
     (case timestamp_get_utc_date (Some ts) of
        None \<Rightarrow> (False, dev)
      | Some date \<Rightarrow>
          if env = Frag_No_File then (False, dev)
          else
            let dev = dev\<lparr>hd_disk := (hd_disk dev)(date \<mapsto> [])\<rparr> in
            if env = Frag_No_Abstract \<or> env = Frag_No_Descriptor then (False, dev\<lparr>hd_disk := (hd_disk dev)(date := None)\<rparr>)
            else case hist_create_file dev (hist_add_absnode date ts) True of
                   None \<Rightarrow> (False, dev\<lparr>hd_disk := (hd_disk dev)(date := None)\<rparr>)
                 | Some dev' \<Rightarrow> (True, dev'))"

definition hist_flush_index :: "bool \<Rightarrow> hist_dev \<Rightarrow> hist_dev" where
  "hist_flush_index ok dev = (if ok then dev\<lparr>hd_index := hd_files dev\<rparr> else dev)"

section \<open>Appending\<close>

text \<open>
  The loop of \<open>__hist_append_dev\<close> over the records, with the latest timestamp, the two
  counters and \<open>ret\<close>; the result says whether it ended without a jump to \<open>failed\<close>.
\<close>

record append_state =
  as_dev :: hist_dev
  as_latest :: cstr
  as_count :: int
  as_all :: int
  as_ret :: errcode

definition append_record :: "hist_rec \<Rightarrow> cstr \<Rightarrow> bool \<Rightarrow> append_state \<Rightarrow> bool \<times> append_state" where
  "append_record r ts new_day s =
     (let s1 = (if new_day \<and> as_count s > 0
                then s\<lparr>as_dev := update_last (\<lambda>f. add_abs_count f (as_count s)) (as_dev s), as_count := 0\<rparr> else s);
          (ok, dev) = (if new_day then hist_create_fragment (re_frag (hr_env r)) (as_dev s1) ts else (True, as_dev s1));
          s2 = s1\<lparr>as_dev := dev\<rparr>
      in if \<not> ok then (False, s2\<lparr>as_ret := ERR_HISTORY_IO\<rparr>)
         else
           let (e, disk) = write_logfile (hd_disk dev) (last (hd_files dev)) (re_write (hr_env r)) (hr_text r);
               s3 = s2\<lparr>as_dev := dev\<lparr>hd_disk := disk\<rparr>, as_ret := e\<rparr>
           in if e \<noteq> ERR_SUCCESS then (False, s3)
              else
                let s4 = s3\<lparr>as_dev := update_last (\<lambda>f. f\<lparr>hf_end := ts\<rparr>) (as_dev s3)\<rparr> in
                if \<not> re_dup (hr_env r) then (False, s4\<lparr>as_ret := ERR_NO_MEM\<rparr>)
                else (True, s4\<lparr>as_latest := ts, as_count := as_count s4 + 1, as_all := as_all s4 + 1\<rparr>))"

fun append_loop :: "hist_rec list \<Rightarrow> append_state \<Rightarrow> bool \<times> append_state" where
  "append_loop [] s = (True, s)"
| "append_loop (r # rs) s =
     (case hr_ts r of
        None \<Rightarrow> append_loop rs (s\<lparr>as_ret := ERR_TS_COMPARE\<rparr>)
      | Some ts \<Rightarrow>
          (case timestamp_compare (Some ts) (Some (as_latest s)) of
             None \<Rightarrow> append_loop rs (s\<lparr>as_ret := ERR_TS_COMPARE\<rparr>)
           | Some (res, new_day) \<Rightarrow>
               if res \<le> 0 then append_loop rs (s\<lparr>as_ret := ERR_TS_OBSOLETE\<rparr>)
               else
                 let (ok, s') = append_record r ts (new_day = 1) s in
                 if ok then append_loop rs s' else (False, s')))"

text \<open>
  \<open>__hist_append_dev\<close>: the return value, \<open>*added\<close> and the facility; \<open>input\<close> is the data list of
  the request, if it has one.
\<close>

definition hist_append_core :: "bool \<Rightarrow> hist_dev \<Rightarrow> hist_rec list option \<Rightarrow> errcode \<times> int \<times> hist_dev" where
  "hist_append_core flush_ok dev input =
     (case input of
        None \<Rightarrow> (ERR_INVALID_INPUT, 0, dev)
      | Some rs \<Rightarrow>
          let latest = (if hd_files dev = [] then HIST_TS_INIT else hf_end (last (hd_files dev)));
              (ok, s) = append_loop rs \<lparr>as_dev = dev, as_latest = latest, as_count = 0, as_all = 0, as_ret = ERR_SUCCESS\<rparr>
          in if \<not> ok then (as_ret s, 0, as_dev s)
             else
               let d1 = (if as_count s > 0 then update_last (\<lambda>f. add_abs_count f (as_count s)) (as_dev s) else as_dev s)
               in if as_all s > 0
                  then (as_ret s, as_all s, hist_flush_index flush_ok (d1\<lparr>hd_count := hd_count d1 + as_all s\<rparr>))
                  else (as_ret s, 0, d1))"

record append_out =
  ao_num_added :: int
  ao_new_count :: int
  ao_new_start :: cstr
  ao_new_end :: cstr

text \<open>
  \<open>hist_append_dev\<close> in its write region.  Without any log file the first and the last entry
  of the list are read from its head: \<open>None\<close>.
\<close>

definition hist_append_dev :: "bool \<Rightarrow> hist_dev \<Rightarrow> hist_rec list option \<Rightarrow> ((errcode + append_out) \<times> hist_dev) option" where
  "hist_append_dev flush_ok dev input =
     (let (ret, added, dev') = hist_append_core flush_ok dev input in
      if ret \<noteq> ERR_SUCCESS then Some (Inl ret, dev')
      else if hd_files dev' = [] then None
      else Some (Inr \<lparr>ao_num_added = added, ao_new_count = hd_count dev',
                      ao_new_start = hf_start (hd (hd_files dev')), ao_new_end = hf_end (last (hd_files dev'))\<rparr>, dev'))"

section \<open>Scanning a log file\<close>

definition RECORD_START :: cstr where "RECORD_START = ''<obj is=\"obix:HistoryRecord\">''"
definition RECORD_END :: cstr where "RECORD_END = ''</obj>'' @ [CHR 0x0D, CHR 0x0A]"
definition TS_VAL_START :: cstr where "TS_VAL_START = ''<abstime name=\"timestamp\" val=\"''"
definition TS_VAL_END :: cstr where "TS_VAL_END = ''\"''"

text \<open>
  The static buffers of \<open>parse_log\<close> and its local state: the records moved to the front, their
  number, whether the first timestamp is set and whether the scan went past the range.
\<close>

record log_bufs =
  lb_val :: cstr
  lb_val_prev :: cstr
  lb_log_start :: cstr

record parse_state =
  ps_bufs :: log_bufs
  ps_out :: cstr
  ps_r :: int
  ps_start_set :: bool
  ps_use_prev :: bool

text \<open>The outcome of the scan: a markup is missing, a timestamp does not fit its buffer, or done.\<close>

datatype parse_res = Parse_Failed | Parse_Overflow | Parse_Done parse_state

text \<open>
  The loop over the records.  \<open>rng\<close> is \<open>None\<close> if all records are wanted, \<open>want_start\<close>
  whether the caller asks for the first timestamp; \<open>n\<close> is the text from the iterator on.
\<close>

function parse_loop :: "(cstr \<times> cstr) option \<Rightarrow> int \<Rightarrow> bool \<Rightarrow> cstr \<Rightarrow> parse_state \<Rightarrow> parse_res" where
  "parse_loop rng limit want_start n s =
     (case strstr RECORD_START n of
        None \<Rightarrow> Parse_Done s
      | Some p \<Rightarrow>
          (case strstr TS_VAL_START p of
             None \<Rightarrow> Parse_Failed
           | Some t \<Rightarrow>
               let ts = drop (length TS_VAL_START) t in
               (case strstr TS_VAL_END ts of
                  None \<Rightarrow> Parse_Failed
                | Some n' \<Rightarrow>
                    let v = take (length ts - length n') ts in
                    if length v > HIST_REC_TS_MAX_LEN then Parse_Overflow
                    else
                      let s1 = s\<lparr>ps_bufs := (ps_bufs s)\<lparr>lb_val_prev := lb_val (ps_bufs s), lb_val := v\<rparr>\<rparr>;
                          ret = (case rng of None \<Rightarrow> 1
                                 | Some (start, end) \<Rightarrow> timestamp_has_common (Some v) (Some v) (Some start) (Some end))
                      in if ret = - 2 then parse_loop rng limit want_start n' s1
                         else if ret = - 3 then Parse_Done (s1\<lparr>ps_use_prev := True\<rparr>)
                         else if ret = - 4 then parse_loop rng limit want_start n' s1
                         else
                           (case strstr RECORD_END n' of
                              None \<Rightarrow> Parse_Failed
                            | Some e \<Rightarrow>
                                let n'' = drop (length RECORD_END) e;
                                    s2 = s1\<lparr>ps_out := ps_out s1 @ take (length p - length n'') p, ps_r := ps_r s1 + 1\<rparr>;
                                    s3 = (if \<not> ps_start_set s2 \<and> want_start
                                          then s2\<lparr>ps_bufs := (ps_bufs s2)\<lparr>lb_log_start := v\<rparr>, ps_start_set := True\<rparr> else s2)
                                in if ps_r s3 = limit then Parse_Done s3
                                   else parse_loop rng limit want_start n'' s3))))"
  by pat_completeness auto

termination parse_loop
proof (relation "measure (\<lambda>(rng, limit, want_start, n, s). length n)", goal_cases)
  case 1 show ?case by simp
next
  case (2 rng limit want_start n s p t ts n')
  from strstr_Some(2) [OF 2(1)] strstr_Some(2,3) [OF 2(2)] strstr_Some(2) [OF 2(4)] show ?case
    by (simp add: 2(3) TS_VAL_START_def)
next
  case (3 rng limit want_start n s p t ts n')
  from strstr_Some(2) [OF 3(1)] strstr_Some(2,3) [OF 3(2)] strstr_Some(2) [OF 3(4)] show ?case
    by (simp add: 3(3) TS_VAL_START_def)
next
  case (4 rng limit want_start n s p t ts n' v s1 ret e n'')
  from strstr_Some(2) [OF 4(1)] strstr_Some(2,3) [OF 4(2)] strstr_Some(2) [OF 4(4)] show ?case
    using strstr_Some(2) [of RECORD_END n' e] 4 by (simp add: TS_VAL_START_def)
qed

declare parse_loop.simps [simp del]

text \<open>
  \<open>parse_log\<close>: the satisfactory records, their number, \<open>*start_ts\<close> if wanted, \<open>*end_ts\<close> and the
  buffers; \<open>Inl True\<close> if a buffer overflows, \<open>Inl False\<close> for \<open>NULL\<close>.
\<close>

definition parse_log ::
  "(cstr \<times> cstr) option \<Rightarrow> int \<Rightarrow> bool \<Rightarrow> log_bufs \<Rightarrow> cstr \<Rightarrow> bool + (cstr \<times> int \<times> cstr option \<times> cstr \<times> log_bufs)" where
  "parse_log rng limit want_start bufs data =
     (case parse_loop rng limit want_start data
             \<lparr>ps_bufs = bufs, ps_out = [], ps_r = 0, ps_start_set = False, ps_use_prev = False\<rparr> of
        Parse_Failed \<Rightarrow> Inl False
      | Parse_Overflow \<Rightarrow> Inl True
      | Parse_Done s \<Rightarrow>
          let b = ps_bufs s in
          Inr (ps_out s, ps_r s, if want_start then Some (lb_log_start b) else None,
               if ps_use_prev s then lb_val_prev b else lb_val b, b))"

section \<open>Querying\<close>

record query_in =
  qi_start :: "cstr option"
  qi_end :: "cstr option"
  qi_limit :: int

record query_out =
  qo_count :: int
  qo_start :: cstr
  qo_end :: cstr
  qo_data :: "cstr list"

text \<open>What a query ends with: an error reply, memory written out of bounds, or the answer.\<close>

datatype query_res = Query_Error errcode | Query_Overflow | Query_Ok query_out

record query_state =
  qs_n :: int
  qs_r :: int
  qs_start_ts :: "cstr option"
  qs_end_ts :: "cstr option"
  qs_items :: "cstr list"
  qs_bufs :: log_bufs

text \<open>Which of its files are read: the loop of \<open>__hist_query_dev\<close>.\<close>

fun query_loop :: "(cstr \<rightharpoonup> cstr) \<Rightarrow> cstr \<Rightarrow> cstr \<Rightarrow> hist_file list \<Rightarrow> query_state \<Rightarrow> (bool \<times> errcode) + query_state" where
  "query_loop disk start end [] s = Inr s"
| "query_loop disk start end (file # files) s =
     (let res = timestamp_has_common (Some start) (Some end) (Some (hf_start file)) (Some (hf_end file)) in
      if res = - 2 then Inl (False, ERR_TS_COMPARE)
      else if res = - 3 then query_loop disk start end files s
      else if res = - 4 then Inr s
      else case read_logfile disk file of
        None \<Rightarrow> Inl (False, ERR_HISTORY_IO)
      | Some data \<Rightarrow>
          let whole = timestamp_has_common (Some (hf_start file)) (Some (hf_start file)) (Some start) (Some end) = 1 \<and>
                      timestamp_has_common (Some (hf_end file)) (Some (hf_end file)) (Some start) (Some end) = 1;
              want = (qs_start_ts s = None);
              got = (if whole \<and> hf_count file \<le> qs_n s
                     then Inr (data, hf_count file, if want then Some (hf_start file) else None, hf_end file, qs_bufs s)
                     else parse_log (if whole then None else Some (start, end)) (qs_n s) want (qs_bufs s) data)
          in (case got of
                Inl overflow \<Rightarrow> Inl (overflow, ERR_HISTORY_DATA)
              | Inr (out, count, start_ts, end_ts, bufs) \<Rightarrow>
                  let s' = s\<lparr>qs_n := qs_n s - count, qs_r := qs_r s + count,
                             qs_start_ts := (if want then start_ts else qs_start_ts s), qs_end_ts := Some end_ts,
                             qs_items := qs_items s @ [out], qs_bufs := bufs\<rparr>
                  in if qs_n s' = 0 then Inr s' else query_loop disk start end files s'))"

definition HIST_QUERY_OUT_PREFIX_LEN :: nat where
  "HIST_QUERY_OUT_PREFIX_LEN = length (''<obj is=\"obix:HistoryQueryOut\">  <int name=\"count\" val=\"%d\"/>  '' @
     ''<abstime name=\"start\" val=\"%s\"/>  <abstime name=\"end\" val=\"%s\"/>  <list name=\"data\" of=\"obix:HistoryRecord\">  '')"

text \<open>The header: the number of characters printed, the room for them, and the answer.\<close>

definition query_head_len :: "int \<Rightarrow> cstr \<Rightarrow> cstr \<Rightarrow> nat" where
  "query_head_len r start end = HIST_QUERY_OUT_PREFIX_LEN - 6 + length (fmt_d r) + length start + length end"

definition query_answer :: "int \<Rightarrow> cstr \<Rightarrow> cstr \<Rightarrow> cstr list \<Rightarrow> query_res" where
  "query_answer r start end items =
     (if query_head_len r start end > HIST_QUERY_OUT_PREFIX_LEN + HIST_FLT_VAL_MAX_BITS + HIST_REC_TS_MAX_LEN * 2 - 6
      then Query_Overflow
      else Query_Ok \<lparr>qo_count = r, qo_start = start, qo_end = end, qo_data = items\<rparr>)"

text \<open>A query for up to \<open>n\<close> records, with the bounds of the request or their defaults.\<close>

definition hist_query_range :: "log_bufs \<Rightarrow> hist_dev \<Rightarrow> query_in \<Rightarrow> cstr \<Rightarrow> cstr \<Rightarrow> int \<Rightarrow> query_res \<times> log_bufs" where
  "hist_query_range bufs dev input start end n =
     (let d_oldest = hf_start (hd (hd_files dev)); d_latest = hf_end (last (hd_files dev));
          res = timestamp_has_common (Some start) (Some end) (Some d_oldest) (Some d_latest)
      in if res = - 2 then (Query_Error ERR_TS_COMPARE, bufs)
         else if res = - 3 \<or> res = - 4 then
           (query_answer 0 (if qi_start input = None then HIST_AIN_TS_UND else start)
              (if qi_end input = None then HIST_AIN_TS_UND else end) [], bufs)
         else case timestamp_find_common (Some start) (Some end) (Some d_oldest) (Some d_latest) of
           (ret, start', end') \<Rightarrow>
             if ret < 0 then (Query_Error ERR_TS_COMPARE, bufs)
             else case query_loop (hd_disk dev) (the start') (the end') (hd_files dev)
                    \<lparr>qs_n = n, qs_r = 0, qs_start_ts = None, qs_end_ts = None, qs_items = [], qs_bufs = bufs\<rparr> of
               Inl (overflow, e) \<Rightarrow> (if overflow then Query_Overflow else Query_Error e, bufs)
             | Inr s \<Rightarrow>
                 (query_answer (qs_r s) (case qs_start_ts s of None \<Rightarrow> the start' | Some x \<Rightarrow> x)
                    (case qs_end_ts s of None \<Rightarrow> the end' | Some x \<Rightarrow> x) (qs_items s), qs_bufs s))"

definition hist_query_core :: "log_bufs \<Rightarrow> hist_dev \<Rightarrow> query_in \<Rightarrow> query_res \<times> log_bufs" where
  "hist_query_core bufs dev input =
     (if hd_files dev = [] then (Query_Error ERR_HISTORY_EMPTY, bufs)
      else
        let start = (case qi_start input of None \<Rightarrow> hf_start (hd (hd_files dev)) | Some x \<Rightarrow> x);
            end = (case qi_end input of None \<Rightarrow> hf_end (last (hd_files dev)) | Some x \<Rightarrow> x)
        in if qi_limit input = 0 then (query_answer 0 start end [], bufs)
           else hist_query_range bufs dev input start end
                  (if qi_limit input < 0 \<or> qi_limit input > hd_count dev then hd_count dev else qi_limit input))"

section \<open>Records in log files\<close>

text \<open>
  A record as the clients write it: the timestamp element is the first one of its kind,
  and the markups that separate records do not occur inside.
\<close>

record log_rec =
  lr_ts :: cstr
  lr_head :: cstr
  lr_tail :: cstr

definition utc :: "cstr \<Rightarrow> int" where
  "utc ts = timestamp_to_utc_time (Some ts)"

definition lr_text :: "log_rec \<Rightarrow> cstr" where
  "lr_text r = RECORD_START @ lr_head r @ TS_VAL_START @ lr_ts r @ TS_VAL_END @ lr_tail r @ ''</obj>''"

definition lr_line :: "log_rec \<Rightarrow> cstr" where
  "lr_line r = lr_text r @ HIST_RECORD_SEPARATOR"

definition rec_ok :: "log_rec \<Rightarrow> bool" where
  "rec_ok r \<longleftrightarrow>
     strstr TS_VAL_START (RECORD_START @ lr_head r @ TS_VAL_START) = Some TS_VAL_START \<and>
     strstr RECORD_END (TS_VAL_END @ lr_tail r @ RECORD_END) = Some RECORD_END \<and>
     strstr RECORD_START (TS_VAL_END @ lr_tail r @ RECORD_END @ RECORD_START) = Some RECORD_START \<and>
     CHR 0x22 \<notin> set (lr_ts r) \<and> length (lr_ts r) \<le> HIST_REC_TS_MAX_LEN \<and>
     0 < utc (lr_ts r) \<and> utc (lr_ts r) < 253402300800"

definition in_range :: "cstr \<Rightarrow> cstr \<Rightarrow> log_rec \<Rightarrow> bool" where
  "in_range start end r \<longleftrightarrow> utc start \<le> utc (lr_ts r) \<and> utc (lr_ts r) \<le> utc end"

definition chronological :: "log_rec list \<Rightarrow> bool" where
  "chronological rs \<longleftrightarrow> sorted_wrt (\<lambda>a b. utc (lr_ts a) < utc (lr_ts b)) rs"

abbreviation lines_of :: "log_rec list \<Rightarrow> cstr" where
  "lines_of rs \<equiv> concat (map lr_line rs)"

definition note_val :: "log_rec \<Rightarrow> parse_state \<Rightarrow> parse_state" where
  "note_val r s = s\<lparr>ps_bufs := (ps_bufs s)\<lparr>lb_val_prev := lb_val (ps_bufs s), lb_val := lr_ts r\<rparr>\<rparr>"

definition take_rec :: "bool \<Rightarrow> log_rec \<Rightarrow> parse_state \<Rightarrow> parse_state" where
  "take_rec want r s =
     (let s2 = (note_val r s)\<lparr>ps_out := ps_out s @ lr_line r, ps_r := ps_r s + 1\<rparr>
      in if \<not> ps_start_set s2 \<and> want then s2\<lparr>ps_bufs := (ps_bufs s2)\<lparr>lb_log_start := lr_ts r\<rparr>, ps_start_set := True\<rparr> else s2)"

definition wanted :: "(cstr \<times> cstr) option \<Rightarrow> log_rec \<Rightarrow> bool" where
  "wanted rng r = (case rng of None \<Rightarrow> True | Some (start, end) \<Rightarrow> in_range start end r)"

definition range_ok :: "(cstr \<times> cstr) option \<Rightarrow> bool" where
  "range_ok rng = (case rng of None \<Rightarrow> True | Some (start, end) \<Rightarrow> 0 \<le> utc start \<and> 0 \<le> utc end)"

definition bufs_ok :: "log_bufs \<Rightarrow> bool" where
  "bufs_ok b \<longleftrightarrow> length (lb_val b) \<le> HIST_REC_TS_MAX_LEN \<and> length (lb_val_prev b) \<le> HIST_REC_TS_MAX_LEN \<and>
     length (lb_log_start b) \<le> HIST_REC_TS_MAX_LEN"

section \<open>Specification\<close>

text \<open>
  How a facility represents a log, the list of its records: one file for each date, in
  order, with the lines of its records on disk and the matching abstract.
\<close>

definition file_rel :: "(cstr \<rightharpoonup> cstr) \<Rightarrow> hist_file \<Rightarrow> log_rec list \<Rightarrow> bool" where
  "file_rel disk f g \<longleftrightarrow> g \<noteq> [] \<and> hf_count f = int (length g) \<and> hf_start f = lr_ts (hd g) \<and> hf_end f = lr_ts (last g) \<and>
     disk (hf_date f) = Some (lines_of g) \<and> (\<forall>r \<in> set g. get_utc_date (utc (lr_ts r)) = Some (hf_date f))"

definition hist_rel :: "hist_dev \<Rightarrow> log_rec list \<Rightarrow> bool" where
  "hist_rel dev log \<longleftrightarrow> chronological log \<and> (\<forall>r \<in> set log. rec_ok r) \<and> hd_count dev = int (length log) \<and>
     (\<exists>gs. log = concat gs \<and> list_all2 (file_rel (hd_disk dev)) (hd_files dev) gs) \<and> distinct (map hf_date (hd_files dev))"

text \<open>What a query asks for, of a log.\<close>

definition query_spec :: "query_in \<Rightarrow> log_rec list \<Rightarrow> log_rec list" where
  "query_spec input log =
     (let sel = filter (\<lambda>r. (\<forall>s. qi_start input = Some s \<longrightarrow> utc s \<le> utc (lr_ts r)) \<and>
                            (\<forall>e. qi_end input = Some e \<longrightarrow> utc (lr_ts r) \<le> utc e)) log
      in if qi_limit input < 0 then sel else take (nat (qi_limit input)) sel)"

definition query_ok :: "query_state \<Rightarrow> bool" where
  "query_ok s \<longleftrightarrow> bufs_ok (qs_bufs s) \<and> (\<forall>t. qs_start_ts s = Some t \<longrightarrow> length t \<le> HIST_REC_TS_MAX_LEN) \<and>
     (\<forall>t. qs_end_ts s = Some t \<longrightarrow> length t \<le> HIST_REC_TS_MAX_LEN)"

definition query_valid :: "query_in \<Rightarrow> bool" where
  "query_valid input \<longleftrightarrow> qi_limit input \<noteq> 0 \<and>
     (\<forall>s. qi_start input = Some s \<longrightarrow> 0 \<le> utc s \<and> length s \<le> HIST_REC_TS_MAX_LEN) \<and>
     (\<forall>e. qi_end input = Some e \<longrightarrow> 0 \<le> utc e \<and> length e \<le> HIST_REC_TS_MAX_LEN)"

text \<open>
  Appending to a log: a candidate is \<open>None\<close> if its timestamp is missing or not valid; the
  error that is reported is the one of the last candidate.
\<close>

fun log_append :: "log_rec list \<Rightarrow> errcode \<Rightarrow> log_rec option list \<Rightarrow> log_rec list \<times> errcode" where
  "log_append log ret [] = (log, ret)"
| "log_append log ret (None # rs) = log_append log ERR_TS_COMPARE rs"
| "log_append log ret (Some r # rs) =
     (if utc (lr_ts r) \<le> (if log = [] then 0 else utc (lr_ts (last log))) then log_append log ERR_TS_OBSOLETE rs
      else log_append (log @ [r]) ERR_SUCCESS rs)"

definition env_ok :: rec_env where
  "env_ok = \<lparr>re_frag = Frag_Ok, re_write = Write_Ok, re_dup = True\<rparr>"

fun cand_ok :: "hist_rec \<Rightarrow> log_rec option \<Rightarrow> bool" where
  "cand_ok x None \<longleftrightarrow> (\<forall>ts. hr_ts x = Some ts \<longrightarrow> utc ts < 0)"
| "cand_ok x (Some r) \<longleftrightarrow> hr_ts x = Some (lr_ts r) \<and> hr_text x = lr_text r \<and> rec_ok r \<and> hr_env x = env_ok"

text \<open>The facility with the counters of the loop written back.\<close>

definition finish :: "append_state \<Rightarrow> hist_dev" where
  "finish s =
     (let d = (if as_count s > 0 then update_last (\<lambda>f. add_abs_count f (as_count s)) (as_dev s) else as_dev s)
      in d\<lparr>hd_count := hd_count d + as_all s\<rparr>)"

text \<open>The state the loop starts in.\<close>

definition append_init :: "hist_dev \<Rightarrow> append_state" where
  "append_init dev = \<lparr>as_dev = dev, as_latest = (if hd_files dev = [] then HIST_TS_INIT else hf_end (last (hd_files dev))),
     as_count = 0, as_all = 0, as_ret = ERR_SUCCESS\<rparr>"

definition loop_rel :: "append_state \<Rightarrow> log_rec list \<Rightarrow> bool" where
  "loop_rel s log \<longleftrightarrow> hist_rel (finish s) log \<and> 0 \<le> as_count s \<and>
     as_latest s = (if log = [] then HIST_TS_INIT else lr_ts (last log)) \<and> (hd_files (as_dev s) = [] \<longleftrightarrow> log = [])"

section \<open>Examples\<close>

text \<open>Records, a facility without log files, and one that lost count after a failed write, for the examples.\<close>

definition ex_rec :: "cstr \<Rightarrow> log_rec" where
  "ex_rec ts = \<lparr>lr_ts = ts, lr_head = [], lr_tail = ''/><real name=\"value\" val=\"1\"/>''\<rparr>"

definition ex_cand :: "rec_env \<Rightarrow> cstr \<Rightarrow> hist_rec" where
  "ex_cand env ts = \<lparr>hr_ts = Some ts, hr_text = lr_text (ex_rec ts), hr_env = env\<rparr>"

definition empty_facility :: "cstr \<Rightarrow> cstr \<Rightarrow> hist_dev" where
  "empty_facility dev_id href = \<lparr>hd_count = 0, hd_id = dev_id, hd_href = href, hd_files = [], hd_disk = Map.empty, hd_index = []\<rparr>"

definition ex_log :: "log_rec list" where
  "ex_log = [ex_rec ''2015-03-01T10:00:00Z'', ex_rec ''2015-03-01T11:00:00Z'', ex_rec ''2015-03-02T00:30:00Z'']"

text \<open>The contents of the log files, in the order of the list.\<close>

definition stored :: "hist_dev \<Rightarrow> cstr" where
  "stored dev = concat (map (\<lambda>d. case hd_disk dev d of None \<Rightarrow> [] | Some x \<Rightarrow> x) (map hf_date (hd_files dev)))"

text \<open>The environment at a record whose write fails.\<close>

definition env_write_fails :: rec_env where
  "env_write_fails = \<lparr>re_frag = Frag_Ok, re_write = Write_No_IO, re_dup = True\<rparr>"

definition no_bufs :: log_bufs where
  "no_bufs = \<lparr>lb_val = [], lb_val_prev = [], lb_log_start = []\<rparr>"

section \<open>Comparing valid timestamps\<close>

lemma compare_valid:
  assumes "0 \<le> utc a" "0 \<le> utc b"
  shows "\<exists>d. timestamp_compare (Some a) (Some b) = Some (if utc a < utc b then - 1 else if utc a = utc b then 0 else 1, d)"
  using compare_total [of "Some a" "Some b"] compare_cases [of "Some a" "Some b"] assms by (fastforce simp: utc_def)

lemma has_common_valid:
  assumes "0 \<le> utc s" "0 \<le> utc e" "0 \<le> utc old" "0 \<le> utc lat"
  shows "timestamp_has_common (Some s) (Some e) (Some old) (Some lat) =
    (if utc lat < utc s then - 3 else if utc e < utc old then - 4 else 1)"
  using compare_valid [OF assms(1,4)] compare_valid [OF assms(2,3)] by (auto simp: timestamp_has_common_def)

lemma find_common_valid:
  assumes "0 \<le> utc s" "0 \<le> utc e" "0 \<le> utc old" "0 \<le> utc lat"
  shows "timestamp_find_common (Some s) (Some e) (Some old) (Some lat) =
    (0, Some (if utc s < utc old then old else s), Some (if utc lat < utc e then lat else e))"
  using compare_valid [OF assms(1,3)] compare_valid [OF assms(2,4)] by (auto simp: timestamp_find_common_def)

section \<open>Scanning\<close>

lemma strstr_before:
  assumes "strstr p (pre @ p) = Some p" "p \<noteq> []"
  shows "strstr p pre = None"
  using assms(1)
proof (induction pre)
  case (Cons c pre)
  have "take (length p) (c # pre) \<noteq> p"
  proof
    assume t: "take (length p) (c # pre) = p"
    then have "length p \<le> length (c # pre)" by (metis length_take min.cobounded1 min_def)
    then have "take (length p) (c # pre @ p) = p" using t take_append [of "length p" "c # pre" p] by simp
    then have "c # pre @ p = p" using Cons.prems by simp
    then show False using arg_cong [of "c # pre @ p" p length] by simp
  qed
  then show ?case using Cons take_append [of "length p" "c # pre" p] by (auto split: if_splits)
qed (use assms(2) in simp)

lemma markups_nonempty [simp]: "RECORD_START \<noteq> []" "TS_VAL_START \<noteq> []" "RECORD_END \<noteq> []"
  by (simp_all add: RECORD_START_def TS_VAL_START_def RECORD_END_def)

lemma lr_line_eq: "lr_line r = RECORD_START @ lr_head r @ TS_VAL_START @ lr_ts r @ TS_VAL_END @ lr_tail r @ RECORD_END"
  by (simp add: lr_line_def lr_text_def HIST_RECORD_SEPARATOR_def RECORD_END_def)

lemma scan_line:
  assumes "rec_ok r"
  shows "strstr RECORD_START (lr_line r @ x) = Some (lr_line r @ x)"
    "strstr TS_VAL_START (lr_line r @ x) = Some (TS_VAL_START @ lr_ts r @ TS_VAL_END @ lr_tail r @ RECORD_END @ x)"
    "strstr TS_VAL_END (lr_ts r @ TS_VAL_END @ lr_tail r @ RECORD_END @ x) = Some (TS_VAL_END @ lr_tail r @ RECORD_END @ x)"
    "strstr RECORD_END (TS_VAL_END @ lr_tail r @ RECORD_END @ x) = Some (RECORD_END @ x)"
proof -
  show "strstr RECORD_START (lr_line r @ x) = Some (lr_line r @ x)" unfolding lr_line_eq append_assoc by (rule strstr_here)
  show "strstr TS_VAL_START (lr_line r @ x) = Some (TS_VAL_START @ lr_ts r @ TS_VAL_END @ lr_tail r @ RECORD_END @ x)"
    using strstr_after [of TS_VAL_START "RECORD_START @ lr_head r"] assms unfolding lr_line_eq rec_ok_def append_assoc by blast
  have "\<forall>c \<in> set (lr_ts r). c \<noteq> hd TS_VAL_END" "TS_VAL_END \<noteq> []"
    using assms by (auto simp: rec_ok_def TS_VAL_END_def)
  then show "strstr TS_VAL_END (lr_ts r @ TS_VAL_END @ lr_tail r @ RECORD_END @ x) = Some (TS_VAL_END @ lr_tail r @ RECORD_END @ x)"
    by (simp add: strstr_skip strstr_here)
  show "strstr RECORD_END (TS_VAL_END @ lr_tail r @ RECORD_END @ x) = Some (RECORD_END @ x)"
    using strstr_after [of RECORD_END "TS_VAL_END @ lr_tail r"] assms unfolding rec_ok_def append_assoc by blast
qed

lemma parse_loop_cong: "strstr RECORD_START n = strstr RECORD_START m \<Longrightarrow> parse_loop rng limit want n s = parse_loop rng limit want m s"
  by (subst (1 2) parse_loop.simps) simp

text \<open>A record that is skipped: the scan goes on with the next one.\<close>

lemma scan_rest:
  assumes "rec_ok r"
  shows "strstr RECORD_START (TS_VAL_END @ lr_tail r @ RECORD_END @ lines_of rs) = strstr RECORD_START (lines_of rs)"
proof -
  have ok: "strstr RECORD_START ((TS_VAL_END @ lr_tail r @ RECORD_END) @ RECORD_START) = Some RECORD_START"
    using assms by (simp add: rec_ok_def)
  show ?thesis
  proof (cases rs)
    case Nil
    then show ?thesis using strstr_before [OF ok] by simp
  next
    case (Cons q qs)
    obtain y where "lines_of rs = RECORD_START @ y" unfolding Cons by (simp add: lr_line_eq)
    then show ?thesis using strstr_after [OF ok, of y] strstr_here [of RECORD_START y] by simp
  qed
qed

lemma parse_step:
  assumes r: "rec_ok r"
  shows "parse_loop rng limit want (lr_line r @ lines_of rs) s =
    (let ret = (case rng of None \<Rightarrow> 1 | Some (start, end) \<Rightarrow> timestamp_has_common (Some (lr_ts r)) (Some (lr_ts r)) (Some start) (Some end))
     in if ret = - 2 \<or> ret = - 4 then parse_loop rng limit want (lines_of rs) (note_val r s)
        else if ret = - 3 then Parse_Done ((note_val r s)\<lparr>ps_use_prev := True\<rparr>)
        else if ps_r s + 1 = limit then Parse_Done (take_rec want r s)
        else parse_loop rng limit want (lines_of rs) (take_rec want r s))"
proof -
  note sc = scan_line [OF r]
  have cong: "parse_loop rng limit want (TS_VAL_END @ lr_tail r @ RECORD_END @ lines_of rs) s' =
      parse_loop rng limit want (lines_of rs) s'" for s' by (rule parse_loop_cong [OF scan_rest [OF r]])
  have len: "length (lr_ts r) \<le> HIST_REC_TS_MAX_LEN" using r by (simp add: rec_ok_def)
  show ?thesis
    apply (subst parse_loop.simps)
    apply (simp only: sc option.case append_eq_conv_conj drop_append)
    using len by (simp add: sc cong note_val_def take_rec_def Let_def)
qed

text \<open>The scan of a file of chronological records selects those in the range, up to the limit.\<close>

lemma ret_point:
  assumes "rec_ok r" "0 \<le> utc start" "0 \<le> utc end"
  shows "timestamp_has_common (Some (lr_ts r)) (Some (lr_ts r)) (Some start) (Some end) =
    (if utc end < utc (lr_ts r) then - 3 else if utc (lr_ts r) < utc start then - 4 else 1)"
  using assms by (intro has_common_valid) (simp_all add: rec_ok_def)

lemma take_rec_simps [simp]:
  "ps_out (take_rec want r s) = ps_out s @ lr_line r" "ps_r (take_rec want r s) = ps_r s + 1"
  "ps_out (note_val r s) = ps_out s" "ps_r (note_val r s) = ps_r s"
  "rec_ok r \<Longrightarrow> bufs_ok (ps_bufs s) \<Longrightarrow> bufs_ok (ps_bufs (take_rec want r s))"
  "rec_ok r \<Longrightarrow> bufs_ok (ps_bufs s) \<Longrightarrow> bufs_ok (ps_bufs (note_val r s))"
  by (simp_all add: take_rec_def note_val_def Let_def bufs_ok_def rec_ok_def)

lemma parse_loop_spec:
  assumes "\<forall>r \<in> set rs. rec_ok r" "chronological rs" "range_ok rng" "ps_r s < limit" "bufs_ok (ps_bufs s)"
  shows "\<exists>s'. parse_loop rng limit want (lines_of rs) s = Parse_Done s' \<and>
    ps_out s' = ps_out s @ lines_of (take (nat (limit - ps_r s)) (filter (wanted rng) rs)) \<and>
    ps_r s' = ps_r s + int (length (take (nat (limit - ps_r s)) (filter (wanted rng) rs))) \<and> bufs_ok (ps_bufs s')"
  using assms
proof (induction rs arbitrary: s)
  case Nil
  have "strstr RECORD_START [] = None" by simp
  then show ?case using Nil by (subst parse_loop.simps) simp
next
  case (Cons r rs)
  have r: "rec_ok r" "\<forall>q \<in> set rs. rec_ok q" "chronological rs" using Cons.prems by (auto simp: chronological_def)
  note ih = Cons.IH [OF r(2,3) Cons.prems(3)]
  note b = Cons.prems(5)
  have later: "\<forall>q \<in> set rs. utc (lr_ts r) < utc (lr_ts q)" using Cons.prems(2) by (simp add: chronological_def)
  have k: "nat (limit - ps_r s) = Suc (nat (limit - (ps_r s + 1)))" using Cons.prems(4) by simp
  consider (skip) start "end" where "rng = Some (start, end)" "utc (lr_ts r) < utc start" "\<not> utc end < utc (lr_ts r)"
    | (stop) start "end" where "rng = Some (start, end)" "utc end < utc (lr_ts r)"
    | (take) "wanted rng r" "case rng of None \<Rightarrow> True | Some (start, end) \<Rightarrow> timestamp_has_common (Some (lr_ts r)) (Some (lr_ts r)) (Some start) (Some end) = 1"
    using ret_point [OF r(1)] Cons.prems(3) by (cases rng) (force simp: wanted_def in_range_def range_ok_def)+
  then show ?case
  proof cases
    case skip
    then have ret: "timestamp_has_common (Some (lr_ts r)) (Some (lr_ts r)) (Some start) (Some end) = - 4" and nw: "\<not> wanted rng r"
      using ret_point [OF r(1), of start "end"] Cons.prems(3) by (auto simp: range_ok_def wanted_def in_range_def)
    show ?thesis using parse_step [OF r(1), of rng limit want rs s] ret nw skip(1) ih [of "note_val r s"] Cons.prems(4) b r(1) by simp
  next
    case stop
    then have ret: "timestamp_has_common (Some (lr_ts r)) (Some (lr_ts r)) (Some start) (Some end) = - 3"
      using ret_point [OF r(1), of start "end"] Cons.prems(3) by (auto simp: range_ok_def)
    have "filter (wanted rng) (r # rs) = []" using stop later by (auto simp: filter_empty_conv wanted_def in_range_def)
    then show ?thesis using parse_step [OF r(1), of rng limit want rs s] ret stop(1) b r(1) by (simp add: note_val_def bufs_ok_def rec_ok_def)
  next
    case take
    show ?thesis
    proof (cases "ps_r s + 1 = limit")
      case True
      then show ?thesis using parse_step [OF r(1), of rng limit want rs s] take k b r(1) by (cases rng) auto
    next
      case False
      then have "ps_r (take_rec want r s) < limit" using Cons.prems(4) by simp
      then show ?thesis using parse_step [OF r(1), of rng limit want rs s] take k b r(1) False ih [of "take_rec want r s"]
        by (cases rng) (auto simp: add.assoc)
    qed
  qed
qed

lemma parse_log_spec:
  assumes "\<forall>r \<in> set rs. rec_ok r" "chronological rs" "range_ok rng" "0 < limit" "bufs_ok bufs"
  shows "\<exists>start_ts end_ts bufs'. parse_log rng limit want bufs (lines_of rs) =
      Inr (lines_of (take (nat limit) (filter (wanted rng) rs)), int (length (take (nat limit) (filter (wanted rng) rs))),
           if want then Some start_ts else None, end_ts, bufs') \<and>
    bufs_ok bufs' \<and> length start_ts \<le> HIST_REC_TS_MAX_LEN \<and> length end_ts \<le> HIST_REC_TS_MAX_LEN"
  using parse_loop_spec [of rs rng "\<lparr>ps_bufs = bufs, ps_out = [], ps_r = 0, ps_start_set = False, ps_use_prev = False\<rparr>" limit want] assms
  by (auto simp: parse_log_def Let_def bufs_ok_def)

section \<open>Queries\<close>

lemma chronological_append:
  "chronological (xs @ ys) \<longleftrightarrow> chronological xs \<and> chronological ys \<and> (\<forall>a \<in> set xs. \<forall>b \<in> set ys. utc (lr_ts a) < utc (lr_ts b))"
  by (auto simp: chronological_def sorted_wrt_append)

lemma chronological_ends:
  assumes "chronological g" "r \<in> set g"
  shows "utc (lr_ts (hd g)) \<le> utc (lr_ts r)" "utc (lr_ts r) \<le> utc (lr_ts (last g))"
proof -
  have "g \<noteq> []" using assms(2) by auto
  then have "g = hd g # tl g" "g = butlast g @ [last g]" by simp_all
  then have "chronological (hd g # tl g)" "chronological (butlast g @ [last g])" using assms(1) by simp_all
  moreover have "r = hd g \<or> r \<in> set (tl g)" "r = last g \<or> r \<in> set (butlast g)"
    using assms(2) \<open>g = hd g # tl g\<close> \<open>g = butlast g @ [last g]\<close>
    by (metis set_ConsD, metis Un_iff empty_iff empty_set set_ConsD set_append)
  ultimately show "utc (lr_ts (hd g)) \<le> utc (lr_ts r)" "utc (lr_ts r) \<le> utc (lr_ts (last g))"
    by (auto simp: chronological_def sorted_wrt_append intro: less_imp_le)
qed

lemma lines_nonempty: "g \<noteq> [] \<Longrightarrow> lines_of g \<noteq> []"
  by (cases g) (simp_all add: lr_line_eq)

lemma file_read: "file_rel disk f g \<Longrightarrow> read_logfile disk f = Some (lines_of g)"
  using lines_nonempty [of g] by (simp add: file_rel_def read_logfile_def)

lemma wanted_simps [simp]: "wanted None = (\<lambda>_. True)" "wanted (Some (s, e)) = in_range s e"
  by (auto simp: wanted_def fun_eq_iff)

text \<open>What is read from one file that meets the range.\<close>

lemma file_got:
  assumes f: "file_rel disk f g" and g: "\<forall>r \<in> set g. rec_ok r" "chronological g"
    and v: "0 \<le> utc start" "0 \<le> utc end" and n: "0 < n" "bufs_ok bufs"
  shows "\<exists>start_ts end_ts bufs'.
    (let whole = timestamp_has_common (Some (hf_start f)) (Some (hf_start f)) (Some start) (Some end) = 1 \<and>
                 timestamp_has_common (Some (hf_end f)) (Some (hf_end f)) (Some start) (Some end) = 1
     in if whole \<and> hf_count f \<le> n
        then Inr (lines_of g, hf_count f, if want then Some (hf_start f) else None, hf_end f, bufs)
        else parse_log (if whole then None else Some (start, end)) n want bufs (lines_of g)) =
    Inr (lines_of (take (nat n) (filter (in_range start end) g)), int (length (take (nat n) (filter (in_range start end) g))),
         if want then Some start_ts else None, end_ts, bufs') \<and>
    bufs_ok bufs' \<and> length start_ts \<le> HIST_REC_TS_MAX_LEN \<and> length end_ts \<le> HIST_REC_TS_MAX_LEN"
proof -
  have ne: "g \<noteq> []" "hd g \<in> set g" "last g \<in> set g" using f by (auto simp: file_rel_def)
  have ends: "hf_start f = lr_ts (hd g)" "hf_end f = lr_ts (last g)" "hf_count f = int (length g)" using f by (simp_all add: file_rel_def)
  have r: "rec_ok (hd g)" "rec_ok (last g)" using g(1) ne by auto
  define whole where "whole = (timestamp_has_common (Some (hf_start f)) (Some (hf_start f)) (Some start) (Some end) = 1 \<and>
                 timestamp_has_common (Some (hf_end f)) (Some (hf_end f)) (Some start) (Some end) = 1)"
  have w: "whole \<Longrightarrow> filter (in_range start end) g = g"
  proof -
    assume "whole"
    then have "utc start \<le> utc (lr_ts (hd g))" "utc (lr_ts (last g)) \<le> utc end"
      using ret_point [OF r(1) v] ret_point [OF r(2) v] by (auto simp: whole_def ends split: if_splits)
    then show ?thesis using chronological_ends [OF g(2)] by (force simp: filter_id_conv in_range_def)
  qed
  show ?thesis
  proof (cases "whole \<and> hf_count f \<le> n")
    case True
    then have "take (nat n) g = g" using ends(3) n(1) by (simp add: le_nat_iff)
    moreover have "length (hf_start f) \<le> HIST_REC_TS_MAX_LEN" "length (hf_end f) \<le> HIST_REC_TS_MAX_LEN"
      using r by (simp_all add: ends rec_ok_def)
    ultimately show ?thesis using True w n(2) ends(3) unfolding whole_def [symmetric] Let_def by auto
  next
    case False
    let ?rng = "if whole then None else Some (start, end)"
    have "filter (wanted ?rng) g = filter (in_range start end) g"
      using w by (cases whole) simp_all
    moreover have "range_ok ?rng" using v by (simp add: range_ok_def)
    ultimately show ?thesis using parse_log_spec [OF g, of ?rng n bufs want] n
      unfolding whole_def [symmetric] Let_def if_not_P [OF False] by simp
  qed
qed

lemma query_loop_spec:
  assumes "list_all2 (file_rel disk) files gs" "\<forall>r \<in> set (concat gs). rec_ok r" "chronological (concat gs)"
    "0 \<le> utc start" "0 \<le> utc end" "0 < qs_n s" "query_ok s"
  shows "\<exists>s'. query_loop disk start end files s = Inr s' \<and> query_ok s' \<and>
    concat (qs_items s') = concat (qs_items s) @ lines_of (take (nat (qs_n s)) (filter (in_range start end) (concat gs))) \<and>
    qs_r s' = qs_r s + int (length (take (nat (qs_n s)) (filter (in_range start end) (concat gs))))"
  using assms
proof (induction files gs arbitrary: s rule: list_all2_induct)
  case Nil
  then show ?case by simp
next
  case (Cons f files g gs)
  have g: "\<forall>r \<in> set g. rec_ok r" "chronological g" "\<forall>r \<in> set (concat gs). rec_ok r" "chronological (concat gs)"
    "\<forall>a \<in> set g. \<forall>b \<in> set (concat gs). utc (lr_ts a) < utc (lr_ts b)"
    using Cons.prems(1,2) by (auto simp: chronological_append)
  note f = Cons.hyps(1)
  have ne: "g \<noteq> []" "hd g \<in> set g" "last g \<in> set g" using f by (auto simp: file_rel_def)
  have ends: "hf_start f = lr_ts (hd g)" "hf_end f = lr_ts (last g)" using f by (simp_all add: file_rel_def)
  have r: "0 \<le> utc (hf_start f)" "0 \<le> utc (hf_end f)" using g(1) ne by (auto simp: ends rec_ok_def less_imp_le)
  note hc = has_common_valid [OF Cons.prems(3,4) r]
  note ih = Cons.IH [OF g(3,4) Cons.prems(3,4)]
  consider (earlier) "utc (hf_end f) < utc start" | (later) "\<not> utc (hf_end f) < utc start" "utc end < utc (hf_start f)"
    | (meets) "\<not> utc (hf_end f) < utc start" "\<not> utc end < utc (hf_start f)" by blast
  then show ?case
  proof cases
    case earlier
    then have "filter (in_range start end) g = []"
      using chronological_ends(2) [OF g(2)] by (fastforce simp: filter_empty_conv in_range_def ends)
    then show ?thesis using earlier hc ih [OF Cons.prems(5,6)] by simp
  next
    case later
    have "utc end < utc (lr_ts q)" if "q \<in> set g \<or> q \<in> set (concat gs)" for q
      using that later(2) chronological_ends(1) [OF g(2), of q] g(5) ne(2) by (force simp: ends)
    then have "filter (in_range start end) (concat (g # gs)) = []"
      by (fastforce simp: filter_empty_conv in_range_def)
    then show ?thesis using later hc Cons.prems(6) by simp
  next
    case meets
    let ?sel = "take (nat (qs_n s)) (filter (in_range start end) g)"
    obtain start_ts end_ts bufs' where got: "(let whole = timestamp_has_common (Some (hf_start f)) (Some (hf_start f)) (Some start) (Some end) = 1 \<and>
                 timestamp_has_common (Some (hf_end f)) (Some (hf_end f)) (Some start) (Some end) = 1
     in if whole \<and> hf_count f \<le> qs_n s
        then Inr (lines_of g, hf_count f, if qs_start_ts s = None then Some (hf_start f) else None, hf_end f, qs_bufs s)
        else parse_log (if whole then None else Some (start, end)) (qs_n s) (qs_start_ts s = None) (qs_bufs s) (lines_of g)) =
      Inr (lines_of ?sel, int (length ?sel), if qs_start_ts s = None then Some start_ts else None, end_ts, bufs')"
      "bufs_ok bufs'" "length start_ts \<le> HIST_REC_TS_MAX_LEN" "length end_ts \<le> HIST_REC_TS_MAX_LEN"
      using file_got [OF f g(1,2) Cons.prems(3,4,5), of "qs_bufs s" "qs_start_ts s = None"] Cons.prems(6) unfolding query_ok_def by metis
    define s1 where "s1 = s\<lparr>qs_n := qs_n s - int (length ?sel), qs_r := qs_r s + int (length ?sel),
        qs_start_ts := (if qs_start_ts s = None then (if qs_start_ts s = None then Some start_ts else None) else qs_start_ts s),
        qs_end_ts := Some end_ts, qs_items := qs_items s @ [lines_of ?sel], qs_bufs := bufs'\<rparr>"
    have q: "query_loop disk start end (f # files) s = (if qs_n s1 = 0 then Inr s1 else query_loop disk start end files s1)"
      using meets hc file_read [OF f] got(1) unfolding s1_def by (simp add: Let_def)
    have ok: "query_ok s1" using Cons.prems(6) got by (simp add: query_ok_def s1_def)
    have n1: "nat (qs_n s1) = nat (qs_n s) - length (filter (in_range start end) g)" "0 \<le> qs_n s1"
      using Cons.prems(5) by (auto simp: s1_def)
    define sel where "sel = ?sel"
    define rest where "rest = take (nat (qs_n s1)) (filter (in_range start end) (concat gs))"
    have t: "take (nat (qs_n s)) (filter (in_range start end) (concat (g # gs))) = sel @ rest" by (simp add: n1(1) sel_def rest_def)
    have s1: "concat (qs_items s1) = concat (qs_items s) @ lines_of sel" "qs_r s1 = qs_r s + int (length sel)"
      by (simp_all add: s1_def sel_def)
    show ?thesis
    proof (cases "qs_n s1 = 0")
      case True
      then have "rest = []" by (simp add: rest_def)
      then show ?thesis using q ok s1 True unfolding t by simp
    next
      case False
      then have "0 < qs_n s1" using n1(2) by simp
      then obtain s' where s': "query_loop disk start end files s1 = Inr s'" "query_ok s'"
        "concat (qs_items s') = concat (qs_items s1) @ lines_of rest" "qs_r s' = qs_r s1 + int (length rest)"
        using ih [OF _ ok] unfolding rest_def by blast
      then show ?thesis using False q s1 unfolding t by simp
    qed
  qed
qed

lemma groups_ends:
  assumes "list_all2 (file_rel disk) files gs" "gs \<noteq> []"
  shows "files \<noteq> []" "concat gs \<noteq> []" "hf_start (hd files) = lr_ts (hd (concat gs))" "hf_end (last files) = lr_ts (last (concat gs))"
proof -
  show f: "files \<noteq> []" using assms by auto
  obtain f0 fs g0 gs' where h: "files = f0 # fs" "gs = g0 # gs'" using assms f by (cases files; cases gs) auto
  then have "file_rel disk f0 g0" using assms(1) by simp
  then show "concat gs \<noteq> []" "hf_start (hd files) = lr_ts (hd (concat gs))" by (auto simp: h file_rel_def)
  have "file_rel disk (last files) (last gs)"
    using assms f by (simp add: list_all2_conv_all_nth last_conv_nth)
  moreover have "concat gs = concat (butlast gs) @ last gs"
    using arg_cong [OF append_butlast_last_id [OF assms(2)], of concat] by simp
  ultimately show "hf_end (last files) = lr_ts (last (concat gs))" by (auto simp: file_rel_def)
qed

lemma query_answer_ok:
  assumes "0 \<le> r" "r < 10 ^ 9" "length s \<le> HIST_REC_TS_MAX_LEN" "length e \<le> HIST_REC_TS_MAX_LEN"
  shows "query_answer r s e items = Query_Ok \<lparr>qo_count = r, qo_start = s, qo_end = e, qo_data = items\<rparr>"
proof -
  have "length (fmt_d r) \<le> 9" using fmt_d_length [of r 9] assms(1,2) by simp
  then have "length (fmt_d r) + length s + length e \<le> HIST_FLT_VAL_MAX_BITS + HIST_REC_TS_MAX_LEN * 2"
    using assms(3,4) by (simp add: HIST_FLT_VAL_MAX_BITS_def HIST_REC_TS_MAX_LEN_def)
  moreover have "6 \<le> HIST_QUERY_OUT_PREFIX_LEN" by (simp add: HIST_QUERY_OUT_PREFIX_LEN_def)
  ultimately show ?thesis by (simp add: query_answer_def query_head_len_def)
qed

lemma filter_clip:
  assumes "chronological log" "log \<noteq> []"
    and s: "utc s' = max (utc s) (utc (lr_ts (hd log)))" and e: "utc e' = min (utc e) (utc (lr_ts (last log)))"
  shows "filter (in_range s' e') log = filter (in_range s e) log"
  using chronological_ends [OF assms(1)] s e by (intro filter_cong) (auto simp: in_range_def)

lemma filter_outside:
  assumes "chronological log" "utc (lr_ts (last log)) < utc s \<or> utc e < utc (lr_ts (hd log))"
  shows "filter (in_range s e) log = []"
  using chronological_ends [OF assms(1)] assms(2) by (force simp: filter_empty_conv in_range_def)

text \<open>The query of a log in terms of the bounds the code uses, which default to its ends.\<close>

lemma query_spec_bounds:
  assumes c: "chronological log" and s: "s = (case qi_start input of None \<Rightarrow> lr_ts (hd log) | Some x \<Rightarrow> x)"
    and e: "e = (case qi_end input of None \<Rightarrow> lr_ts (last log) | Some x \<Rightarrow> x)" and n: "qi_limit input \<noteq> 0"
    and k: "k = (if qi_limit input < 0 \<or> qi_limit input > int (length log) then int (length log) else qi_limit input)"
  shows "take (nat k) (filter (in_range s e) log) = query_spec input log"
proof -
  have "filter (in_range s e) log =
      filter (\<lambda>r. (\<forall>s. qi_start input = Some s \<longrightarrow> utc s \<le> utc (lr_ts r)) \<and> (\<forall>e. qi_end input = Some e \<longrightarrow> utc (lr_ts r) \<le> utc e)) log"
    using chronological_ends [OF c] by (intro filter_cong) (auto simp: in_range_def s e split: option.split)
  moreover have "int (length log) < qi_limit input \<Longrightarrow> length (filter P log) \<le> nat (qi_limit input)" for P
    using length_filter_le [of P log] by linarith
  ultimately show ?thesis using n by (auto simp: query_spec_def k)
qed

lemma query_core_spec:
  assumes h: "hist_rel dev log" "log \<noteq> []" "length log < 10 ^ 9" and q: "query_valid input" and b: "bufs_ok bufs"
  shows "\<exists>out bufs'. hist_query_core bufs dev input = (Query_Ok out, bufs') \<and> bufs_ok bufs' \<and>
    qo_count out = int (length (query_spec input log)) \<and> concat (qo_data out) = lines_of (query_spec input log)"
proof -
  obtain gs where gs: "log = concat gs" "list_all2 (file_rel (hd_disk dev)) (hd_files dev) gs"
    and c: "chronological log" "\<forall>r \<in> set log. rec_ok r" "hd_count dev = int (length log)" using h(1) by (auto simp: hist_rel_def)
  have "gs \<noteq> []" using gs(1) h(2) by auto
  note G = groups_ends [OF gs(2) this]
  define s where "s = (case qi_start input of None \<Rightarrow> lr_ts (hd log) | Some x \<Rightarrow> x)"
  define e where "e = (case qi_end input of None \<Rightarrow> lr_ts (last log) | Some x \<Rightarrow> x)"
  define k where "k = (if qi_limit input < 0 \<or> qi_limit input > int (length log) then int (length log) else qi_limit input)"
  have r: "rec_ok (hd log)" "rec_ok (last log)" using c(2) h(2) by simp_all
  have v: "0 \<le> utc s" "0 \<le> utc e" "0 \<le> utc (lr_ts (hd log))" "0 \<le> utc (lr_ts (last log))"
    and l: "length s \<le> HIST_REC_TS_MAX_LEN" "length e \<le> HIST_REC_TS_MAX_LEN"
    "length (lr_ts (hd log)) \<le> HIST_REC_TS_MAX_LEN" "length (lr_ts (last log)) \<le> HIST_REC_TS_MAX_LEN"
    using q r by (auto simp: query_valid_def s_def e_def rec_ok_def split: option.split)
  have n0: "qi_limit input \<noteq> 0" using q by (simp add: query_valid_def)
  have spec: "take (nat k) (filter (in_range s e) log) = query_spec input log"
    by (rule query_spec_bounds [OF c(1) s_def e_def n0 k_def])
  have kp: "0 < k" using n0 h(2) by (auto simp: k_def)
  note hc = has_common_valid [OF v]
  have ends: "hd_files dev \<noteq> []" "hf_start (hd (hd_files dev)) = lr_ts (hd log)" "hf_end (last (hd_files dev)) = lr_ts (last log)"
    using G by (simp_all add: gs(1))
  have core: "hist_query_core bufs dev input = hist_query_range bufs dev input s e k"
    unfolding hist_query_core_def ends(2,3) c(3) Let_def if_not_P [OF ends(1)] if_not_P [OF n0] s_def e_def k_def ..
  show ?thesis
  proof (cases "utc (lr_ts (last log)) < utc s \<or> utc e < utc (lr_ts (hd log))")
    case True
    then have "query_spec input log = []" using filter_outside [OF c(1) True] spec by simp
    moreover have "length HIST_AIN_TS_UND \<le> HIST_REC_TS_MAX_LEN" by (simp add: HIST_AIN_TS_UND_def HIST_REC_TS_MAX_LEN_def)
    moreover let ?a = "if qi_start input = None then HIST_AIN_TS_UND else s"
    let ?b = "if qi_end input = None then HIST_AIN_TS_UND else e"
    have "timestamp_has_common (Some s) (Some e) (Some (lr_ts (hd log))) (Some (lr_ts (last log))) \<in> {- 3, - 4}"
      using True hc by auto
    then have "hist_query_range bufs dev input s e k = (query_answer 0 ?a ?b [], bufs)"
      by (auto simp: hist_query_range_def ends Let_def)
    ultimately show ?thesis using b l query_answer_ok [of 0 ?a ?b "[]"] by (simp add: core)
  next
    case False
    define s' where "s' = (if utc s < utc (lr_ts (hd log)) then lr_ts (hd log) else s)"
    define e' where "e' = (if utc (lr_ts (last log)) < utc e then lr_ts (last log) else e)"
    have fc: "timestamp_find_common (Some s) (Some e) (Some (lr_ts (hd log))) (Some (lr_ts (last log))) = (0, Some s', Some e')"
      unfolding s'_def e'_def by (rule find_common_valid [OF v])
    have v': "0 \<le> utc s'" "0 \<le> utc e'" "length s' \<le> HIST_REC_TS_MAX_LEN" "length e' \<le> HIST_REC_TS_MAX_LEN"
      using v l by (simp_all add: s'_def e'_def)
    have f: "filter (in_range s' e') log = filter (in_range s e) log"
      by (rule filter_clip [OF c(1) h(2)]) (auto simp: s'_def e'_def max_def min_def)
    let ?q = "\<lparr>qs_n = k, qs_r = 0, qs_start_ts = None, qs_end_ts = None, qs_items = [], qs_bufs = bufs\<rparr>"
    have "query_ok ?q" using b by (simp add: query_ok_def)
    from query_loop_spec [OF gs(2) c(2) [unfolded gs(1)] c(1) [unfolded gs(1)] v'(1,2) _ this] kp
    obtain t where t: "query_loop (hd_disk dev) s' e' (hd_files dev) ?q = Inr t" "query_ok t"
      "concat (qs_items t) = lines_of (query_spec input log)" "qs_r t = int (length (query_spec input log))"
      unfolding gs(1) [symmetric] f by (auto simp only: query_state.select_convs spec append_Nil concat.simps add_0)
    have "length (query_spec input log) \<le> length log" unfolding spec [symmetric] by (metis length_filter_le length_take min.coboundedI1 min.commute)
    then have "query_answer (qs_r t) (case qs_start_ts t of None \<Rightarrow> s' | Some x \<Rightarrow> x) (case qs_end_ts t of None \<Rightarrow> e' | Some x \<Rightarrow> x) (qs_items t) =
        Query_Ok \<lparr>qo_count = qs_r t, qo_start = (case qs_start_ts t of None \<Rightarrow> s' | Some x \<Rightarrow> x),
          qo_end = (case qs_end_ts t of None \<Rightarrow> e' | Some x \<Rightarrow> x), qo_data = qs_items t\<rparr>"
      using t(2,4) h(3) v'(3,4) by (intro query_answer_ok) (auto simp: query_ok_def split: option.split)
    moreover have "timestamp_has_common (Some s) (Some e) (Some (lr_ts (hd log))) (Some (lr_ts (last log))) = 1"
      using False hc by simp
    then have "hist_query_range bufs dev input s e k = (query_answer (qs_r t) (case qs_start_ts t of None \<Rightarrow> s' | Some x \<Rightarrow> x)
        (case qs_end_ts t of None \<Rightarrow> e' | Some x \<Rightarrow> x) (qs_items t), qs_bufs t)"
      using t(1) fc by (simp add: hist_query_range_def ends Let_def split: option.split)
    ultimately show ?thesis using t by (simp add: core query_ok_def)
  qed
qed

section \<open>Dates\<close>

lemma get_utc_date_eq: "0 \<le> t \<Longrightarrow> get_utc_date t = Some (date_text (gmtime t))"
proof (cases "t = 0")
  case True
  have "date_text (gmtime 0) = HIST_DATE_INIT" by code_simp
  then show ?thesis using True by (simp add: get_utc_date_def)
qed (simp add: get_utc_date_def)

lemma date_text_fields:
  assumes "tm_ok t"
  shows "time_to_long (Some (date_text t)) (CHR ''-'') = Some (tm_year t + 1900, tm_mon t + 1, tm_mday t)"
  using assms time_field_2 [of "tm_mday t" "[]"] punctuation
  by (simp add: tm_ok_def time_to_long_def date_text_def time_field_4 time_field_2)

lemma day_of:
  assumes "0 \<le> t"
  shows "t div 86400 = days_before_year (tm_year (gmtime t) + 1900) +
    days_before_month (tm_year (gmtime t) + 1900) (tm_mon (gmtime t)) + (tm_mday (gmtime t) - 1)"
proof -
  let ?g = "gmtime t"
  define d where "d = days_before_year (tm_year ?g + 1900) + days_before_month (tm_year ?g + 1900) (tm_mon ?g) + (tm_mday ?g - 1)"
  define r where "r = tm_hour ?g * 3600 + tm_min ?g * 60 + tm_sec ?g"
  have "t = d * 86400 + r" using gmtime_spec(1) [OF assms] by (simp add: timegm_def d_def r_def)
  moreover have "0 \<le> r" "r < 86400" using gmtime_spec(7-12) [OF assms] by (simp_all add: r_def)
  ultimately have "t div 86400 = d" by simp
  then show ?thesis by (simp add: d_def)
qed

lemma date_eq_iff:
  assumes "0 \<le> a" "a < 253402300800" "0 \<le> b" "b < 253402300800"
  shows "get_utc_date a = get_utc_date b \<longleftrightarrow> a div 86400 = b div 86400"
proof
  assume "get_utc_date a = get_utc_date b"
  then have "date_text (gmtime a) = date_text (gmtime b)" using assms by (simp add: get_utc_date_eq)
  then have "time_to_long (Some (date_text (gmtime a))) (CHR ''-'') = time_to_long (Some (date_text (gmtime b))) (CHR ''-'')" by simp
  then have "tm_year (gmtime a) = tm_year (gmtime b)" "tm_mon (gmtime a) = tm_mon (gmtime b)" "tm_mday (gmtime a) = tm_mday (gmtime b)"
    using date_text_fields [OF gmtime_ok] assms by simp_all
  then show "a div 86400 = b div 86400" using day_of assms by simp
next
  assume d: "a div 86400 = b div 86400"
  have "tm_year (gmtime a) = tm_year (gmtime b) \<and> tm_mon (gmtime a) = tm_mon (gmtime b) \<and> tm_mday (gmtime a) = tm_mday (gmtime b)"
    unfolding gmtime_def d by (simp add: Let_def split: prod.split)
  then show "get_utc_date a = get_utc_date b" using assms by (simp add: get_utc_date_eq date_text_def)
qed

lemma new_day_iff:
  assumes "0 \<le> utc a" "0 \<le> utc b" "utc b < utc a" "timestamp_compare (Some a) (Some b) = Some (res, new_day)"
  shows "res = 1" "new_day = 1 \<longleftrightarrow> utc b = 0 \<or> get_utc_date (utc a) \<noteq> get_utc_date (utc b)"
  using assms get_utc_date_Some [OF assms(1)] get_utc_date_Some [OF assms(2)]
  by (auto simp: timestamp_compare_def utc_def Let_def split: if_splits option.splits)

section \<open>Extending a log\<close>

lemma file_rel_disk:
  assumes "list_all2 (file_rel disk) fs gs" "d \<notin> hf_date ` set fs"
  shows "list_all2 (file_rel (disk(d := x))) fs gs"
  using assms by (induction rule: list_all2_induct) (auto simp: file_rel_def)

lemma groups_split:
  assumes "list_all2 (file_rel disk) files gs" "gs \<noteq> []"
  obtains fs f gs0 g where "files = fs @ [f]" "gs = gs0 @ [g]" "list_all2 (file_rel disk) fs gs0" "file_rel disk f g"
proof -
  have f: "files \<noteq> []" using assms by auto
  have len: "length (butlast files) = length (butlast gs)" using list_all2_lengthD [OF assms(1)] by simp
  have e: "files = butlast files @ [last files]" "gs = butlast gs @ [last gs]" using f assms(2) by simp_all
  have "list_all2 (file_rel disk) (butlast files @ [last files]) (butlast gs @ [last gs])" using assms(1) e by simp
  then have "list_all2 (file_rel disk) (butlast files) (butlast gs)" "file_rel disk (last files) (last gs)"
    using list_all2_append [OF len] by simp_all
  then show ?thesis using that e by blast
qed

lemma chronological_snoc:
  assumes "chronological log" "log \<noteq> [] \<Longrightarrow> utc (lr_ts (last log)) < utc (lr_ts r)"
  shows "chronological (log @ [r])"
proof -
  have "utc (lr_ts a) < utc (lr_ts r)" if "a \<in> set log" for a
    using chronological_ends(2) [OF assms(1) that] assms(2) that by fastforce
  then show ?thesis using assms(1) by (simp add: sorted_wrt_append chronological_def)
qed

lemma extend_last:
  assumes h: "hist_rel dev log" "log \<noteq> []" and r: "rec_ok r" "utc (lr_ts (last log)) < utc (lr_ts r)"
    and d: "get_utc_date (utc (lr_ts r)) = get_utc_date (utc (lr_ts (last log)))"
    and l: "l = last (hd_files dev)" "hd_disk dev (hf_date l) = Some old"
  shows "hist_rel (dev\<lparr>hd_files := butlast (hd_files dev) @ [l\<lparr>hf_count := hf_count l + 1, hf_end := lr_ts r\<rparr>],
      hd_disk := (hd_disk dev)(hf_date l \<mapsto> old @ lr_line r), hd_count := hd_count dev + 1\<rparr>) (log @ [r])"
proof -
  obtain gs where gs: "log = concat gs" "list_all2 (file_rel (hd_disk dev)) (hd_files dev) gs"
    and c: "chronological log" "\<forall>r \<in> set log. rec_ok r" "hd_count dev = int (length log)" "distinct (map hf_date (hd_files dev))"
    using h(1) by (auto simp: hist_rel_def)
  have "gs \<noteq> []" using gs(1) h(2) by auto
  then obtain fs f gs0 g where G: "hd_files dev = fs @ [f]" "gs = gs0 @ [g]" "list_all2 (file_rel (hd_disk dev)) fs gs0" "file_rel (hd_disk dev) f g"
    by (rule groups_split [OF gs(2)])
  have lf: "l = f" using l(1) G(1) by simp
  have nd: "hf_date f \<notin> hf_date ` set fs" using c(4) G(1) by auto
  have ll: "g \<noteq> []" "last log = last g" using G(4) by (auto simp: gs(1) G(2) file_rel_def)
  let ?disk = "(hd_disk dev)(hf_date f \<mapsto> old @ lr_line r)"
  let ?f = "f\<lparr>hf_count := hf_count f + 1, hf_end := lr_ts r\<rparr>"
  have "file_rel ?disk ?f (g @ [r])" using G(4) l(2) d ll by (auto simp: file_rel_def lf)
  then have "list_all2 (file_rel ?disk) (fs @ [?f]) (gs0 @ [g @ [r]])"
    using file_rel_disk [OF G(3) nd] by (intro list_all2_appendI) simp_all
  moreover have "log @ [r] = concat (gs0 @ [g @ [r]])" by (simp add: gs(1) G(2))
  moreover have "distinct (map hf_date (fs @ [?f]))" using c(4) G(1) by simp
  ultimately show ?thesis
    using chronological_snoc [OF c(1) r(2)] c(2,3) r(1) unfolding hist_rel_def by (auto simp: G(1) lf)
qed

lemma date_new:
  assumes h: "hist_rel dev log" and r: "rec_ok r" "log \<noteq> [] \<Longrightarrow> utc (lr_ts (last log)) < utc (lr_ts r)"
    and d: "log \<noteq> [] \<Longrightarrow> get_utc_date (utc (lr_ts r)) \<noteq> get_utc_date (utc (lr_ts (last log)))"
    and date: "get_utc_date (utc (lr_ts r)) = Some date"
  shows "date \<notin> hf_date ` set (hd_files dev)"
proof
  obtain gs where gs: "log = concat gs" "list_all2 (file_rel (hd_disk dev)) (hd_files dev) gs"
    and c: "chronological log" "\<forall>r \<in> set log. rec_ok r" using h by (auto simp: hist_rel_def)
  assume "date \<in> hf_date ` set (hd_files dev)"
  then obtain f where f: "f \<in> set (hd_files dev)" "hf_date f = date" by blast
  from f(1) obtain i where i: "i < length (hd_files dev)" "f = hd_files dev ! i" by (auto simp: in_set_conv_nth)
  define g where "g = gs ! i"
  have g: "g \<in> set gs" "file_rel (hd_disk dev) f g"
    using i gs(2) by (simp_all add: g_def list_all2_nthD list_all2_lengthD)
  obtain q where q: "q \<in> set g" "get_utc_date (utc (lr_ts q)) = Some date" using f(2) g(2) by (cases g) (auto simp: file_rel_def)
  then have q1: "q \<in> set log" using g(1) by (auto simp: gs(1))
  then have ql: "q \<in> set log" "log \<noteq> []" by auto
  let ?t = "\<lambda>r. utc (lr_ts r)"
  have ok: "rec_ok q" "rec_ok (last log)" using c(2) ql by simp_all
  have b: "0 \<le> ?t q" "?t q < 253402300800" "0 \<le> ?t (last log)" "?t (last log) < 253402300800" "0 \<le> ?t r" "?t r < 253402300800"
    using ok r(1) by (simp_all add: rec_ok_def)
  have "?t r div 86400 = ?t q div 86400" using date_eq_iff [of "?t r" "?t q"] b q(2) date by simp
  moreover have "?t q div 86400 \<le> ?t (last log) div 86400" "?t (last log) div 86400 \<le> ?t r div 86400"
    using chronological_ends(2) [OF c(1) ql(1)] r(2) ql(2) by (simp_all add: zdiv_mono1)
  ultimately have "?t r div 86400 = ?t (last log) div 86400" by linarith
  then show False using d ql(2) date_eq_iff [of "?t r" "?t (last log)"] b by simp
qed

lemma extend_new:
  assumes h: "hist_rel dev log" and r: "rec_ok r" "log \<noteq> [] \<Longrightarrow> utc (lr_ts (last log)) < utc (lr_ts r)"
    and d: "log \<noteq> [] \<Longrightarrow> get_utc_date (utc (lr_ts r)) \<noteq> get_utc_date (utc (lr_ts (last log)))"
    and date: "get_utc_date (utc (lr_ts r)) = Some date"
  shows "hist_rel (dev\<lparr>hd_files := hd_files dev @ [\<lparr>hf_date = date, hf_count = 1, hf_start = lr_ts r, hf_end = lr_ts r\<rparr>],
      hd_disk := (hd_disk dev)(date \<mapsto> lr_line r), hd_count := hd_count dev + 1\<rparr>) (log @ [r])"
proof -
  obtain gs where gs: "log = concat gs" "list_all2 (file_rel (hd_disk dev)) (hd_files dev) gs"
    and c: "chronological log" "\<forall>r \<in> set log. rec_ok r" "hd_count dev = int (length log)" "distinct (map hf_date (hd_files dev))"
    using h by (auto simp: hist_rel_def)
  note n = date_new [OF h r d date]
  let ?f = "\<lparr>hf_date = date, hf_count = 1, hf_start = lr_ts r, hf_end = lr_ts r\<rparr>"
  have "file_rel ((hd_disk dev)(date \<mapsto> lr_line r)) ?f [r]" using date by (simp add: file_rel_def)
  then have "list_all2 (file_rel ((hd_disk dev)(date \<mapsto> lr_line r))) (hd_files dev @ [?f]) (gs @ [[r]])"
    using file_rel_disk [OF gs(2) n] by (intro list_all2_appendI) simp_all
  moreover have "log @ [r] = concat (gs @ [[r]])" by (simp add: gs(1))
  ultimately show ?thesis
    using chronological_snoc [OF c(1) r(2)] c(2-4) r(1) n unfolding hist_rel_def by auto
qed

section \<open>The loop\<close>

lemma update_last_files:
  "hd_files dev \<noteq> [] \<Longrightarrow> update_last u dev = dev\<lparr>hd_files := butlast (hd_files dev) @ [u (last (hd_files dev))]\<rparr>"
  by (cases "hd_files dev") (simp_all add: update_last_def)

lemma finish_count:
  assumes "hist_rel (finish s) log" "hd_files (as_dev s) \<noteq> []"
  shows "0 \<le> hf_count (last (hd_files (as_dev s)))"
    "finish s = (as_dev s)\<lparr>hd_files := butlast (hd_files (as_dev s)) @ [(last (hd_files (as_dev s)))\<lparr>hf_count :=
       hf_count (last (hd_files (as_dev s))) + (if as_count s > 0 then as_count s else 0)\<rparr>], hd_count := hd_count (as_dev s) + as_all s\<rparr>"
proof -
  let ?l = "last (hd_files (as_dev s))"
  obtain gs where gs: "list_all2 (file_rel (hd_disk (finish s))) (hd_files (finish s)) gs" using assms(1) by (auto simp: hist_rel_def)
  have f: "hd_files (finish s) \<noteq> []" using assms(2) by (auto simp: finish_def Let_def update_last_files)
  have "0 \<le> hf_count (last (hd_files (finish s)))"
    using gs f by (cases "hd_files (finish s)" rule: rev_cases) (auto simp: list_all2_append1 list_all2_Cons1 file_rel_def)
  then show n: "0 \<le> hf_count ?l" using assms(2) by (auto simp: finish_def Let_def update_last_files add_abs_count_def split: if_splits)
  have "butlast (hd_files (as_dev s)) @ [?l] = hd_files (as_dev s)" using assms(2) by simp
  then show "finish s = (as_dev s)\<lparr>hd_files := butlast (hd_files (as_dev s)) @ [?l\<lparr>hf_count :=
       hf_count ?l + (if as_count s > 0 then as_count s else 0)\<rparr>], hd_count := hd_count (as_dev s) + as_all s\<rparr>"
    using assms(2) n by (simp add: finish_def Let_def update_last_files add_abs_count_def)
qed

lemma finish_flushed:
  assumes "0 \<le> as_count s"
  shows "finish s = (if as_count s > 0 then update_last (\<lambda>f. add_abs_count f (as_count s)) (as_dev s) else as_dev s)
    \<lparr>hd_count := hd_count (as_dev s) + as_all s\<rparr>"
  by (simp add: finish_def Let_def update_last_def split: list.split)

lemma latest_utc:
  assumes "loop_rel s log"
  shows "utc (as_latest s) = (if log = [] then 0 else utc (lr_ts (last log)))" "0 \<le> utc (as_latest s)"
proof -
  have "\<forall>r \<in> set log. rec_ok r" using assms by (simp add: loop_rel_def hist_rel_def)
  then show "utc (as_latest s) = (if log = [] then 0 else utc (lr_ts (last log)))" "0 \<le> utc (as_latest s)"
    using assms init_timestamp by (auto simp: loop_rel_def utc_def rec_ok_def less_imp_le)
qed

lemma append_same_day:
  assumes l: "loop_rel s log" "log \<noteq> []" and r: "rec_ok r" "utc (lr_ts (last log)) < utc (lr_ts r)"
    "get_utc_date (utc (lr_ts r)) = get_utc_date (utc (lr_ts (last log)))"
    and x: "hr_text x = lr_text r" "hr_env x = env_ok"
  shows "\<exists>s'. append_record x (lr_ts r) False s = (True, s') \<and> loop_rel s' (log @ [r]) \<and> as_ret s' = ERR_SUCCESS \<and> as_all s' = as_all s + 1"
proof -
  let ?d = "as_dev s" and ?f = "last (hd_files (as_dev s))"
  have h: "hist_rel (finish s) log" and c: "0 \<le> as_count s" and ne: "hd_files ?d \<noteq> []" using l by (auto simp: loop_rel_def)
  note fc = finish_count [OF h ne]
  have lf: "last (hd_files (finish s)) = ?f\<lparr>hf_count := hf_count ?f + as_count s\<rparr>" "butlast (hd_files (finish s)) = butlast (hd_files ?d)"
    "hd_disk (finish s) = hd_disk ?d" using c by (simp_all add: fc(2))
  obtain gs where gs: "log = concat gs" "list_all2 (file_rel (hd_disk (finish s))) (hd_files (finish s)) gs" using h by (auto simp: hist_rel_def)
  have "gs \<noteq> []" using gs(1) l(2) by auto
  then obtain fs f gs0 g where "hd_files (finish s) = fs @ [f]" "file_rel (hd_disk (finish s)) f g" by (rule groups_split [OF gs(2)])
  then obtain old where old: "hd_disk ?d (hf_date ?f) = Some old" using lf by (auto simp: file_rel_def)
  let ?disk = "(hd_disk ?d)(hf_date ?f \<mapsto> old @ lr_line r)"
  define s' where "s' = s\<lparr>as_dev := ?d\<lparr>hd_disk := ?disk, hd_files := butlast (hd_files ?d) @ [?f\<lparr>hf_end := lr_ts r\<rparr>]\<rparr>,
      as_ret := ERR_SUCCESS, as_latest := lr_ts r, as_count := as_count s + 1, as_all := as_all s + 1\<rparr>"
  have a: "append_record x (lr_ts r) False s = (True, s')"
    using ne old x by (simp add: append_record_def write_logfile_def env_ok_def update_last_files lr_line_def s'_def)
  have "finish s' = (finish s)\<lparr>hd_files := butlast (hd_files (finish s)) @ [(last (hd_files (finish s)))\<lparr>hf_count :=
      hf_count (last (hd_files (finish s))) + 1, hf_end := lr_ts r\<rparr>], hd_disk := ?disk, hd_count := hd_count (finish s) + 1\<rparr>"
    unfolding lf(1,2) using c fc(1) unfolding fc(2) by (simp add: s'_def finish_def update_last_files add_abs_count_def)
  then have "hist_rel (finish s') (log @ [r])"
    using extend_last [OF h l(2) r refl, of old] old by (simp add: lf)
  then show ?thesis using a c by (simp add: loop_rel_def s'_def)
qed

lemma append_new_day:
  assumes l: "loop_rel s log" and r: "rec_ok r" "log \<noteq> [] \<Longrightarrow> utc (lr_ts (last log)) < utc (lr_ts r)"
    "log \<noteq> [] \<Longrightarrow> get_utc_date (utc (lr_ts r)) \<noteq> get_utc_date (utc (lr_ts (last log)))"
    and x: "hr_text x = lr_text r" "hr_env x = env_ok"
  shows "\<exists>s'. append_record x (lr_ts r) True s = (True, s') \<and> loop_rel s' (log @ [r]) \<and> as_ret s' = ERR_SUCCESS \<and> as_all s' = as_all s + 1"
proof -
  define s1 where "s1 = (if as_count s > 0 then s\<lparr>as_dev := update_last (\<lambda>f. add_abs_count f (as_count s)) (as_dev s), as_count := 0\<rparr> else s)"
  have h: "hist_rel (finish s) log" and c: "0 \<le> as_count s" using l by (auto simp: loop_rel_def)
  have s1: "as_count s1 = 0" "as_all s1 = as_all s" "finish s = (as_dev s1)\<lparr>hd_count := hd_count (as_dev s1) + as_all s\<rparr>"
    using c by (auto simp: s1_def finish_def Let_def)
  have t: "0 \<le> utc (lr_ts r)" using r(1) by (simp add: rec_ok_def)
  then obtain date where date: "get_utc_date (utc (lr_ts r)) = Some date" using get_utc_date_Some by blast
  then have td: "timestamp_get_utc_date (Some (lr_ts r)) = Some date" using t by (simp add: timestamp_get_utc_date_def utc_def Let_def)
  let ?d = "as_dev s1"
  let ?f = "\<lparr>hf_date = date, hf_count = 0, hf_start = lr_ts r, hf_end = lr_ts r\<rparr>"
  define s' where "s' = s1\<lparr>as_dev := ?d\<lparr>hd_disk := (hd_disk ?d)(date \<mapsto> lr_line r), hd_files := hd_files ?d @ [?f]\<rparr>,
      as_ret := ERR_SUCCESS, as_latest := lr_ts r, as_count := 1, as_all := as_all s + 1\<rparr>"
  have a: "append_record x (lr_ts r) True s = (True, s')"
    using td x s1(1,2) unfolding append_record_def s1_def [symmetric] simp_thms
    by (simp add: hist_create_fragment_def hist_create_file_def hist_add_absnode_def write_logfile_def env_ok_def update_last_files
        lr_line_def s'_def Let_def)
  have "finish s' = (finish s)\<lparr>hd_files := hd_files (finish s) @ [?f\<lparr>hf_count := 1\<rparr>], hd_disk := (hd_disk (finish s))(date \<mapsto> lr_line r),
      hd_count := hd_count (finish s) + 1\<rparr>"
    unfolding s1(3) by (simp add: s'_def finish_def update_last_files add_abs_count_def)
  then have "hist_rel (finish s') (log @ [r])" using extend_new [OF h r date] by simp
  then show ?thesis using a by (simp add: loop_rel_def s'_def)
qed

lemma append_loop_rel:
  assumes "list_all2 cand_ok xs rs" "loop_rel s log"
  shows "\<exists>s'. append_loop xs s = (True, s') \<and> loop_rel s' (fst (log_append log (as_ret s) rs)) \<and>
    as_ret s' = snd (log_append log (as_ret s) rs) \<and>
    as_all s' = as_all s + int (length (fst (log_append log (as_ret s) rs))) - int (length log)"
  using assms
proof (induction xs rs arbitrary: s log rule: list_all2_induct)
  case Nil
  then show ?case by simp
next
  case (Cons x xs c rs)
  have keep: "loop_rel (s\<lparr>as_ret := e\<rparr>) log" for e
  proof -
    have "finish (s\<lparr>as_ret := e\<rparr>) = finish s" by (simp add: finish_def)
    then show ?thesis using Cons.prems by (simp add: loop_rel_def)
  qed
  note lu = latest_utc [OF Cons.prems]
  show ?case
  proof (cases c)
    case None
    then have "hr_ts x = None \<or> (\<exists>ts. hr_ts x = Some ts \<and> timestamp_compare (Some ts) (Some (as_latest s)) = None)"
      using Cons.hyps(1) by (cases "hr_ts x") (auto simp: timestamp_compare_def utc_def Let_def)
    then have "append_loop (x # xs) s = append_loop xs (s\<lparr>as_ret := ERR_TS_COMPARE\<rparr>)" by auto
    then show ?thesis using Cons.IH [OF keep [of ERR_TS_COMPARE]] None by simp
  next
    case (Some r)
    have x: "hr_ts x = Some (lr_ts r)" "hr_text x = lr_text r" "rec_ok r" "hr_env x = env_ok" using Cons.hyps(1) Some by simp_all
    have t: "0 \<le> utc (lr_ts r)" using x(3) by (simp add: rec_ok_def)
    obtain res d where cmp: "timestamp_compare (Some (lr_ts r)) (Some (as_latest s)) = Some (res, d)"
        "res = (if utc (lr_ts r) < utc (as_latest s) then - 1 else if utc (lr_ts r) = utc (as_latest s) then 0 else 1)"
      using compare_valid [OF t lu(2)] by blast
    show ?thesis
    proof (cases "utc (lr_ts r) \<le> utc (as_latest s)")
      case True
      then have "append_loop (x # xs) s = append_loop xs (s\<lparr>as_ret := ERR_TS_OBSOLETE\<rparr>)" using x(1) cmp by simp
      then show ?thesis using Cons.IH [OF keep [of ERR_TS_OBSOLETE]] Some True lu(1) by simp
    next
      case False
      then have less: "utc (as_latest s) < utc (lr_ts r)" by simp
      note nd = new_day_iff [OF t lu(2) less cmp(1)]
      have ln: "log \<noteq> [] \<Longrightarrow> utc (lr_ts (last log)) < utc (lr_ts r)" using less lu(1) by simp
      have "log \<noteq> [] \<Longrightarrow> utc (lr_ts (last log)) \<noteq> 0"
      proof -
        assume "log \<noteq> []"
        moreover have "\<forall>r\<in>set log. rec_ok r" using Cons.prems by (simp add: loop_rel_def hist_rel_def)
        ultimately have "rec_ok (last log)" by simp
        then show ?thesis by (simp add: rec_ok_def)
      qed
      then have day: "d = 1 \<longleftrightarrow> log = [] \<or> get_utc_date (utc (lr_ts r)) \<noteq> get_utc_date (utc (lr_ts (last log)))"
        using nd(2) lu(1) by auto
      obtain s1 where s1: "append_record x (lr_ts r) (d = 1) s = (True, s1)" "loop_rel s1 (log @ [r])" "as_ret s1 = ERR_SUCCESS"
          "as_all s1 = as_all s + 1"
        using append_same_day [OF Cons.prems _ x(3) _ _ x(2,4)] append_new_day [OF Cons.prems x(3) _ _ x(2,4)] day ln
        by (cases "d = 1") auto
      have "append_loop (x # xs) s = append_loop xs s1" using x(1) cmp(1) nd(1) s1(1) by simp
      then show ?thesis using Cons.IH [OF s1(2)] Some False lu(1) s1(3,4) by (auto simp: less_le_not_le)
    qed
  qed
qed

lemma log_append_length: "length log \<le> length (fst (log_append log ret rs))"
  by (induction log ret rs rule: log_append.induct) auto

lemma flush_rel [simp]: "hist_rel (hist_flush_index ok d) log = hist_rel d log"
  by (simp add: hist_flush_index_def hist_rel_def)

lemma append_init_rel:
  assumes h: "hist_rel dev log"
  shows "loop_rel (append_init dev) log"
proof -
  obtain gs where gs: "log = concat gs" "list_all2 (file_rel (hd_disk dev)) (hd_files dev) gs" using h by (auto simp: hist_rel_def)
  have e: "hd_files dev = [] \<longleftrightarrow> log = []" using gs groups_ends [OF gs(2)] by (cases "gs = []") auto
  have el: "log \<noteq> [] \<Longrightarrow> hf_end (last (hd_files dev)) = lr_ts (last log)"
  proof -
    assume "log \<noteq> []"
    then have "gs \<noteq> []" using gs(1) by auto
    then show ?thesis using gs groups_ends(4) [OF gs(2)] by simp
  qed
  show ?thesis using h e el by (simp add: loop_rel_def append_init_def finish_def)
qed

lemma append_core_rel:
  assumes h: "hist_rel dev log" and x: "list_all2 cand_ok xs rs"
  shows "\<exists>dev'. hist_append_core flush_ok dev (Some xs) =
      (snd (log_append log ERR_SUCCESS rs), int (length (fst (log_append log ERR_SUCCESS rs))) - int (length log), dev') \<and>
    hist_rel dev' (fst (log_append log ERR_SUCCESS rs))"
proof -
  define s0 where "s0 = append_init dev"
  have "loop_rel s0 log" unfolding s0_def by (rule append_init_rel [OF h])
  from append_loop_rel [OF x this] obtain s where s: "append_loop xs s0 = (True, s)" "loop_rel s (fst (log_append log ERR_SUCCESS rs))"
      "as_ret s = snd (log_append log ERR_SUCCESS rs)" "as_all s = int (length (fst (log_append log ERR_SUCCESS rs))) - int (length log)"
    by (auto simp: s0_def append_init_def)
  have r: "hist_rel (finish s) (fst (log_append log ERR_SUCCESS rs))" using s(2) by (simp add: loop_rel_def)
  have core: "hist_append_core flush_ok dev (Some xs) = (let d1 = (if as_count s > 0 then update_last (\<lambda>f. add_abs_count f (as_count s)) (as_dev s) else as_dev s)
      in if as_all s > 0 then (as_ret s, as_all s, hist_flush_index flush_ok (d1\<lparr>hd_count := hd_count d1 + as_all s\<rparr>)) else (as_ret s, 0, d1))"
    using s(1) by (simp add: hist_append_core_def s0_def append_init_def Let_def)
  show ?thesis
  proof (cases "as_all s > 0")
    case True
    then show ?thesis using r s(3,4) by (simp add: core finish_def Let_def)
  next
    case False
    then have "as_all s = 0" using s(4) log_append_length [of log ERR_SUCCESS rs] by simp
    then show ?thesis using r s(3,4) by (simp add: core finish_def Let_def)
  qed
qed

lemma hist_rel_empty: "hist_rel (empty_facility i h) []"
  by (simp add: hist_rel_def empty_facility_def chronological_def)

lemma ex_log_ok: "list_all rec_ok ex_log"
  by code_simp

lemma ex_log_cand: "list_all2 cand_ok (map (ex_cand env_ok) (map lr_ts ex_log)) (map Some ex_log)"
proof -
  have "cand_ok (ex_cand env_ok (lr_ts r)) (Some r)" if "r \<in> set ex_log" for r
    using that ex_log_ok by (auto simp: ex_cand_def ex_log_def ex_rec_def)
  then show ?thesis by (simp add: list_all2_map1 list_all2_map2 list.rel_refl_strong)
qed

lemma ex_log_appended: "log_append [] ERR_SUCCESS (map Some ex_log) = (ex_log, ERR_SUCCESS)"
  by code_simp

lemma query_ex: "query_valid \<lparr>qi_start = Some ''2015-03-01T10:30:00Z'', qi_end = None, qi_limit = 5\<rparr>"
proof -
  have "0 \<le> utc ''2015-03-01T10:30:00Z''" by code_simp
  then show ?thesis by (simp add: query_valid_def HIST_REC_TS_MAX_LEN_def)
qed

text \<open>Appending when the environment does not fail, with the reply.\<close>

lemma append_dev_rel:
  assumes "hist_rel dev log" "list_all2 cand_ok xs rs" "log_append log ERR_SUCCESS rs = (log', ret)" "ret \<noteq> ERR_SUCCESS \<or> log' \<noteq> []"
  shows "\<exists>dev'. hist_append_dev flush_ok dev (Some xs) =
      Some (if ret \<noteq> ERR_SUCCESS then Inl ret
            else Inr \<lparr>ao_num_added = int (length log') - int (length log), ao_new_count = int (length log'),
                      ao_new_start = lr_ts (hd log'), ao_new_end = lr_ts (last log')\<rparr>, dev') \<and>
    hist_rel dev' log'"
proof -
  obtain dev' where d: "hist_append_core flush_ok dev (Some xs) = (ret, int (length log') - int (length log), dev')" "hist_rel dev' log'"
    using append_core_rel [OF assms(1,2), of flush_ok] assms(3) by auto
  obtain gs where gs: "log' = concat gs" "list_all2 (file_rel (hd_disk dev')) (hd_files dev') gs" "hd_count dev' = int (length log')"
    using d(2) by (auto simp: hist_rel_def)
  show ?thesis
  proof (cases "ret = ERR_SUCCESS")
    case True
    then have "gs \<noteq> []" using gs(1) assms(4) by auto
    note ge = groups_ends [OF gs(2) this]
    show ?thesis using True d gs(1,3) ge by (auto simp: hist_append_dev_def)
  qed (use d in \<open>auto simp: hist_append_dev_def\<close>)
qed

lemma ex_facility: "\<exists>dev. hist_rel dev ex_log"
proof -
  have "ex_log \<noteq> []" by (simp add: ex_log_def)
  then show ?thesis using append_dev_rel [OF hist_rel_empty ex_log_cand ex_log_appended] by blast
qed

section \<open>A failing write\<close>

lemma stored_rel: "hist_rel dev log \<Longrightarrow> stored dev = lines_of log"
proof -
  assume "hist_rel dev log"
  then obtain gs where gs: "log = concat gs" "list_all2 (file_rel (hd_disk dev)) (hd_files dev) gs" by (auto simp: hist_rel_def)
  from gs(2) have "concat (map (\<lambda>d. case hd_disk dev d of None \<Rightarrow> [] | Some x \<Rightarrow> x) (map hf_date (hd_files dev))) = lines_of (concat gs)"
    by (induction rule: list_all2_induct) (auto simp: file_rel_def)
  then show ?thesis using gs(1) by (simp add: stored_def)
qed

lemma dates_update_last: "(\<And>f. hf_date (u f) = hf_date f) \<Longrightarrow> map hf_date (hd_files (update_last u d)) = map hf_date (hd_files d)"
  using update_last_files [of d u] by (cases "hd_files d" rule: rev_cases) (simp_all add: update_last_def)

lemma update_last_simps [simp]: "hd_disk (update_last u d) = hd_disk d" "hd_count (update_last u d) = hd_count d"
    "hd_index (update_last u d) = hd_index d"
  by (simp_all add: update_last_def split: list.split)

lemma date_add_abs_count [simp]: "hf_date (add_abs_count f n) = hf_date f"
  by (simp add: add_abs_count_def)

lemma append_loop_append:
  "append_loop (xs @ ys) s = (let (ok, s') = append_loop xs s in if ok then append_loop ys s' else (False, s'))"
  by (induction xs s rule: append_loop.induct) (auto simp: Let_def split: option.split prod.split)

lemma loop_stored:
  assumes "loop_rel s log"
  shows "stored (as_dev s) = lines_of log" "hd_count (as_dev s) = int (length log) - as_all s" "map hf_date (hd_files (finish s)) = map hf_date (hd_files (as_dev s))"
proof -
  have h: "hist_rel (finish s) log" using assms by (simp add: loop_rel_def)
  show d: "map hf_date (hd_files (finish s)) = map hf_date (hd_files (as_dev s))"
    by (simp add: finish_def Let_def dates_update_last)
  have "hd_disk (finish s) = hd_disk (as_dev s)" "hd_count (finish s) = hd_count (as_dev s) + as_all s" by (simp_all add: finish_def Let_def)
  then show "stored (as_dev s) = lines_of log" "hd_count (as_dev s) = int (length log) - as_all s"
    using stored_rel [OF h] d h by (simp_all add: stored_def hist_rel_def)
qed

lemma failed_write:
  assumes l: "loop_rel s log" and x: "hr_ts x = Some (lr_ts r)" "rec_ok r" "hr_env x = env_write_fails"
    and late: "log \<noteq> [] \<Longrightarrow> utc (lr_ts (last log)) < utc (lr_ts r)"
  shows "\<exists>s1. append_loop [x] s = (False, s1) \<and> as_ret s1 = ERR_HISTORY_IO \<and> stored (as_dev s1) = lines_of log \<and>
    hd_count (as_dev s1) = int (length log) - as_all s"
proof -
  note lu = latest_utc [OF l]
  have t: "0 < utc (lr_ts r)" using x(2) by (simp add: rec_ok_def)
  have less: "utc (as_latest s) < utc (lr_ts r)" using lu(1) late t by simp
  obtain d where cmp: "timestamp_compare (Some (lr_ts r)) (Some (as_latest s)) = Some (1, d)"
    using compare_valid [OF _ lu(2), of "lr_ts r"] t less by auto
  have go: "append_loop [x] s = (False, s1)" if "append_record x (lr_ts r) (d = 1) s = (False, s1)" for s1
    using that x(1) cmp by simp
  have h: "hist_rel (finish s) log" using l by (simp add: loop_rel_def)
  note st = loop_stored [OF l]
  show ?thesis
  proof (cases "d = 1")
    case False
    then have "utc (as_latest s) \<noteq> 0" using new_day_iff [OF less_imp_le [OF t] lu(2) less cmp] by auto
    then have "log \<noteq> []" using lu(1) by auto
    then have ne: "hd_files (as_dev s) \<noteq> []" using l by (simp add: loop_rel_def)
    have "append_record x (lr_ts r) (d = 1) s = (False, s\<lparr>as_ret := ERR_HISTORY_IO\<rparr>)"
      using False x(3) ne by (simp add: append_record_def write_logfile_def env_write_fails_def split: option.split)
    then show ?thesis using go st by (auto simp: stored_def)
  next
    case True
    define dv where "dv = (if as_count s > 0 then update_last (\<lambda>f. add_abs_count f (as_count s)) (as_dev s) else as_dev s)"
    have dv: "hd_disk dv = hd_disk (as_dev s)" "hd_count dv = hd_count (as_dev s)" "map hf_date (hd_files dv) = map hf_date (hd_files (as_dev s))"
      by (simp_all add: dv_def dates_update_last)
    obtain date where date: "get_utc_date (utc (lr_ts r)) = Some date" using get_utc_date_Some t less_imp_le by blast
    then have td: "timestamp_get_utc_date (Some (lr_ts r)) = Some date" using t by (simp add: timestamp_get_utc_date_def utc_def Let_def)
    have "log \<noteq> [] \<Longrightarrow> get_utc_date (utc (lr_ts r)) \<noteq> get_utc_date (utc (lr_ts (last log)))"
    proof -
      assume n: "log \<noteq> []"
      then have "rec_ok (last log)" using h by (simp add: hist_rel_def)
      then show ?thesis using n True new_day_iff(2) [OF less_imp_le [OF t] lu(2) less cmp] lu(1) by (simp add: rec_ok_def)
    qed
    then have "date \<notin> set (map hf_date (hd_files (finish s)))" using date_new [OF h x(2) late _ date] by auto
    then have fresh: "date \<notin> set (map hf_date (hd_files dv))" unfolding st(3) dv(3) .
    let ?d' = "dv\<lparr>hd_disk := (hd_disk dv)(date \<mapsto> []), hd_files := hd_files dv @ [hist_add_absnode date (lr_ts r)]\<rparr>"
    obtain s1 where s1: "append_record x (lr_ts r) (d = 1) s = (False, s1)" "as_ret s1 = ERR_HISTORY_IO" "as_dev s1 = ?d'"
      using True x(3) td
      by (auto simp: append_record_def write_logfile_def env_write_fails_def hist_create_fragment_def hist_create_file_def hist_add_absnode_def dv_def Let_def)
    have "concat (map (\<lambda>f. case (if hf_date f = date then Some [] else hd_disk dv (hf_date f)) of None \<Rightarrow> [] | Some x \<Rightarrow> x) (hd_files dv)) =
        concat (map (\<lambda>f. case hd_disk dv (hf_date f) of None \<Rightarrow> [] | Some x \<Rightarrow> x) (hd_files dv))"
      using fresh by (intro arg_cong [where f = concat] map_cong) auto
    then have "stored ?d' = stored dv" by (simp add: stored_def hist_add_absnode_def comp_def)
    also have "stored dv = stored (as_dev s)" unfolding stored_def dv ..
    finally show ?thesis using go [OF s1(1)] s1(2) st dv(2) by (auto simp: s1(3))
  qed
qed

section \<open>Properties\<close>





text \<open>
  A failing write loses count.  If a request adds some records and then the log file cannot
  be written, the reply is the error and the records are on disk, but neither the number of
  records of the facility is raised nor are they reported as added.
\<close>

theorem hist_append_failure_undercounts:
  assumes "hist_rel dev log" "list_all2 cand_ok xs rs" "log_append log ERR_SUCCESS rs = (log', e)"
    and "hr_ts x = Some (lr_ts r)" "rec_ok r" "hr_env x = env_write_fails" "log' \<noteq> [] \<Longrightarrow> utc (lr_ts (last log')) < utc (lr_ts r)"
  shows "\<exists>dev'. hist_append_core flush_ok dev (Some (xs @ [x])) = (ERR_HISTORY_IO, 0, dev') \<and>
    stored dev' = lines_of log' \<and> hd_count dev' = int (length log)"
proof -
  have s0: "loop_rel (append_init dev) log" by (rule append_init_rel [OF assms(1)])
  obtain s where s: "append_loop xs (append_init dev) = (True, s)" "loop_rel s log'" "as_all s = int (length log') - int (length log)"
    using append_loop_rel [OF assms(2) s0] assms(3) by (auto simp: append_init_def)
  obtain s1 where "append_loop [x] s = (False, s1)" "as_ret s1 = ERR_HISTORY_IO" "stored (as_dev s1) = lines_of log'"
      "hd_count (as_dev s1) = int (length log)"
    using failed_write [OF s(2) assms(4-7)] s(3) by auto
  then show ?thesis using s(1) by (auto simp: hist_append_core_def append_loop_append append_init_def Let_def)
qed

theorem hist_append_failure_undercounts_witness:
  "\<exists>dev'. hist_append_core True (empty_facility ''a'' ''/a'')
      (Some (map (ex_cand env_ok) (map lr_ts ex_log) @ [ex_cand env_write_fails ''2015-03-02T01:00:00Z''])) = (ERR_HISTORY_IO, 0, dev') \<and>
    stored dev' = lines_of ex_log \<and> hd_count dev' = 0"
proof -
  have r: "rec_ok (ex_rec ''2015-03-02T01:00:00Z'')" "utc (lr_ts (last ex_log)) < utc (lr_ts (ex_rec ''2015-03-02T01:00:00Z''))" by code_simp+
  show ?thesis
    using hist_append_failure_undercounts [OF hist_rel_empty ex_log_cand ex_log_appended _ r(1), of "ex_cand env_write_fails ''2015-03-02T01:00:00Z''" True] r(2)
    by (simp add: ex_cand_def ex_rec_def)
qed

end
