(* ===== verification/Obix_Objects.thy ===== *)
theory Obix_Objects
  imports Main "HOL-Library.Multiset"
begin

text \<open>
  The contract between a service and the objects in its table, as a locale; \<open>Obix_History_Service\<close>
  interprets it on the facilities of \<open>history.c\<close>.
\<close>

section \<open>A table of objects\<close>

text \<open>
  What the service in \<open>history.c\<close> relies on in its facilities: an object keeps its name, and
  its requests behave as those of the abstract value it stands for.  A list of such objects
  with different names then behaves as a map from names to abstract values.
\<close>

locale object_table =
  fixes name :: "'o \<Rightarrow> 'k"
    and rel :: "'o \<Rightarrow> 'a \<Rightarrow> bool"
    and step :: "'r \<Rightarrow> 'o \<Rightarrow> 'v \<times> 'o"
    and spec :: "'r \<Rightarrow> 'a \<Rightarrow> 'v \<times> 'a"
    and ok :: "'r \<Rightarrow> bool"
  assumes step_name: "name (snd (step r x)) = name x"
    and step_rel: "rel x a \<Longrightarrow> ok r \<Longrightarrow> fst (step r x) = fst (spec r a) \<and> rel (snd (step r x)) (snd (spec r a))"
begin

definition table_rel :: "'o list \<Rightarrow> ('k \<rightharpoonup> 'a) \<Rightarrow> bool" where
  "table_rel xs m \<longleftrightarrow> distinct (map name xs) \<and> dom m = name ` set xs \<and> (\<forall>x \<in> set xs. \<exists>a. m (name x) = Some a \<and> rel x a)"

lemma find_None: "table_rel xs m \<Longrightarrow> find (\<lambda>x. name x = k) xs = None \<longleftrightarrow> m k = None"
proof -
  assume "table_rel xs m"
  then have "m k = None \<longleftrightarrow> k \<notin> name ` set xs" by (auto simp: table_rel_def domIff [symmetric])
  then show ?thesis by (auto simp: find_None_iff)
qed

lemma find_Some:
  assumes "table_rel xs m" "find (\<lambda>x. name x = k) xs = Some x"
  shows "x \<in> set xs" "name x = k" "\<exists>a. m k = Some a \<and> rel x a"
  using assms by (auto simp: table_rel_def find_Some_iff)

lemma table_step:
  assumes t: "table_rel xs m" and f: "find (\<lambda>x. name x = k) xs = Some x" and m: "m k = Some a" and r: "ok r"
  shows "fst (step r x) = fst (spec r a)"
    "table_rel (map (\<lambda>y. if name y = k then snd (step r x) else y) xs) (m(k \<mapsto> snd (spec r a)))"
proof -
  have x: "x \<in> set xs" "name x = k" "rel x a" using find_Some [OF t f] m by auto
  note s = step_rel [OF x(3) r]
  from s show "fst (step r x) = fst (spec r a)" by simp
  have n: "map name (map (\<lambda>y. if name y = k then snd (step r x) else y) xs) = map name xs"
    using step_name [of r x] x(2) by simp
  have d: "dom (m(k \<mapsto> snd (spec r a))) = name ` set xs" using t m x(1,2) by (auto simp: table_rel_def)
  show "table_rel (map (\<lambda>y. if name y = k then snd (step r x) else y) xs) (m(k \<mapsto> snd (spec r a)))"
    unfolding table_rel_def n
  proof (intro conjI ballI)
    show "distinct (map name xs)" using t by (simp add: table_rel_def)
    show "dom (m(k \<mapsto> snd (spec r a))) = name ` set (map (\<lambda>y. if name y = k then snd (step r x) else y) xs)"
      using d arg_cong [OF n, of set] unfolding set_map by argo
    fix z assume "z \<in> set (map (\<lambda>y. if name y = k then snd (step r x) else y) xs)"
    then obtain y where y: "y \<in> set xs" "z = (if name y = k then snd (step r x) else y)" by auto
    show "\<exists>b. (m(k \<mapsto> snd (spec r a))) (name z) = Some b \<and> rel z b"
      using y s t step_name [of r x] x(2) by (auto simp: table_rel_def)
  qed
qed

lemma table_insert:
  assumes "table_rel xs m" "m (name x) = None" "rel x a" "mset ys = add_mset x (mset xs)"
  shows "table_rel ys (m(name x \<mapsto> a))"
proof -
  have s: "set ys = insert x (set xs)" using assms(4) by (metis set_mset_add_mset_insert set_mset_mset)
  have n: "name x \<notin> name ` set xs" using assms(1,2) by (metis domIff table_rel_def)
  have "mset (map name ys) = mset (map name (x # xs))" using assms(4) by simp
  then have "distinct (map name ys) \<longleftrightarrow> distinct (map name (x # xs))" by (rule mset_eq_imp_distinct_iff)
  moreover have "distinct (map name (x # xs))" using assms(1) n by (simp add: table_rel_def)
  ultimately have "distinct (map name ys)" by simp
  moreover have "dom (m(name x \<mapsto> a)) = name ` set ys" using assms(1) s by (simp add: table_rel_def)
  moreover have "\<exists>b. (m(name x \<mapsto> a)) (name y) = Some b \<and> rel y b" if "y \<in> set ys" for y
  proof (cases "y = x")
    case False
    then have y: "y \<in> set xs" using that s by simp
    then have "name y \<noteq> name x" using n by (metis image_eqI)
    then show ?thesis using assms(1) y by (auto simp: table_rel_def)
  qed (use assms(3) in simp)
  ultimately show ?thesis by (simp add: table_rel_def)
qed

end

end
