(* ===== verification/Obix_History_Service.thy ===== *)
theory Obix_History_Service
  imports Obix_History Obix_Objects
begin

text \<open>
  The history service, from \<open>src/src/server/history.c\<close>: the list of facilities, device IDs and
  hrefs, creating facilities and loading them from disk, and the handlers of requests.
\<close>

section \<open>Device IDs and hrefs\<close>

definition OBIX_HISTORY_LOBBY :: cstr where "OBIX_HISTORY_LOBBY = ''/obix/historyService/histories/''"
definition OBIX_HISTORY_LOBBY_LEN :: nat where "OBIX_HISTORY_LOBBY_LEN = 31"
definition HIST_OP_APPEND :: cstr where "HIST_OP_APPEND = ''append''"
definition HIST_OP_QUERY :: cstr where "HIST_OP_QUERY = ''query''"
definition OP_HISTORY_CREATE :: "32 word" where "OP_HISTORY_CREATE = 0x00010000"

text \<open>The callbacks that put the tokens together again, with another delimiter.\<close>

definition hist_get_href :: "cstr \<Rightarrow> cstr option \<Rightarrow> int \<times> cstr option" where
  "hist_get_href token href =
     (case href of None \<Rightarrow> (0, Some token) | Some h \<Rightarrow> (0, Some (h @ ''/'' @ token)))"

definition get_dev_id_helper :: "cstr \<Rightarrow> cstr option \<Rightarrow> int \<times> cstr option" where
  "get_dev_id_helper token dev_id =
     (case dev_id of None \<Rightarrow> (0, Some token) | Some d \<Rightarrow> (0, Some (d @ ''.'' @ token)))"

text \<open>\<open>strndup\<close> with an \<open>int\<close> length: a negative one becomes a huge \<open>size_t\<close>.\<close>

definition strndup :: "cstr \<Rightarrow> int \<Rightarrow> cstr" where
  "strndup s len = (if len < 0 then s else take (nat len) s)"

definition hist_get_dev_id :: "bool \<Rightarrow> cstr \<Rightarrow> cstr option \<Rightarrow> errcode + cstr" where
  "hist_get_dev_id ok uri op_name =
     (let uri = (if strncmp_eq uri OBIX_HISTORY_LOBBY OBIX_HISTORY_LOBBY_LEN then drop OBIX_HISTORY_LOBBY_LEN uri else uri);
          len = (case op_name of
                   Some op \<Rightarrow> map_option (\<lambda>end. int (length uri) - int (length end) - 1) (strstr op uri)
                 | None \<Rightarrow> Some (if slash_followed (Some uri) = 1 then int (length uri) - 1 else int (length uri)))
      in case len of
           None \<Rightarrow> Inl ERR_HISTORY_DEVID
         | Some n \<Rightarrow>
             (case for_each_str_token ok ''/'' (strndup uri n) get_dev_id_helper None of
                (ret, dev_id) \<Rightarrow> if ret < 0 then Inl ERR_NO_MEM else Inr (the dev_id)))"

section \<open>Facilities\<close>

text \<open>
  The service: its facilities, the names in its folder on disk, and the static buffers of
  \<open>parse_log\<close>.
\<close>

record hist_svc =
  hs_devices :: "hist_dev list"
  hs_names :: "cstr list"
  hs_bufs :: log_bufs

text \<open>The descriptors of the fragment files an index names; other nodes of it are \<open>None\<close>.\<close>

fun hist_load_files :: "hist_file option list \<Rightarrow> hist_dev \<Rightarrow> hist_dev" where
  "hist_load_files [] dev = dev"
| "hist_load_files (None # ns) dev = hist_load_files ns dev"
| "hist_load_files (Some abstract # ns) dev =
     (case hist_create_file dev abstract False of
        None \<Rightarrow> hist_load_files ns dev
      | Some dev' \<Rightarrow> hist_load_files ns (dev'\<lparr>hd_count := hd_count dev' + hf_count abstract\<rparr>))"

text \<open>The place of a facility in the list, by the length of its name.\<close>

fun hist_enqueue_dev :: "hist_dev \<Rightarrow> hist_dev list \<Rightarrow> hist_dev list" where
  "hist_enqueue_dev dev [] = [dev]"
| "hist_enqueue_dev dev (n # ns) =
     (if length (hd_id n) < length (hd_id dev) then n # hist_enqueue_dev dev ns else dev # n # ns)"

text \<open>
  \<open>__hist_create_dev\<close>: \<open>node_ok\<close> says whether the nodes could be put into the global tree,
  \<open>index\<close> is what the index file holds, if it can be read.
\<close>

definition hist_create_dev ::
  "bool \<Rightarrow> cstr \<Rightarrow> cstr \<Rightarrow> hist_file option list option \<Rightarrow> (cstr \<rightharpoonup> cstr) \<Rightarrow> bool \<Rightarrow> hist_dev list \<Rightarrow> hist_dev list option" where
  "hist_create_dev node_ok dev_id href index disk newly_created devices =
     (case index of
        None \<Rightarrow> None
      | Some ns \<Rightarrow>
          if \<not> node_ok then None
          else
            let dev = \<lparr>hd_count = 0, hd_id = dev_id, hd_href = href, hd_files = [], hd_disk = disk,
                       hd_index = [n. Some n \<leftarrow> ns]\<rparr>;
                dev = (if newly_created then dev else hist_load_files ns dev)
            in Some (hist_enqueue_dev dev devices))"

definition is_skipped_dir :: "cstr \<Rightarrow> int" where
  "is_skipped_dir dir = (if dir = ''lost+found'' then 1 else 0)"

text \<open>An entry of the folder: whether it is a folder, its index file and its log files.\<close>

record hist_entry =
  he_name :: cstr
  he_isdir :: bool
  he_index :: "hist_file option list option"
  he_disk :: "cstr \<rightharpoonup> cstr"
  he_node_ok :: bool

definition hist_load_dev :: "hist_entry \<Rightarrow> hist_dev list \<Rightarrow> int \<times> hist_dev list" where
  "hist_load_dev e devices =
     (if \<not> he_isdir e \<or> is_skipped_dir (he_name e) = 1 then (0, devices)
      else case for_each_str_token True ''.'' (he_name e) hist_get_href None of
        (ret, subhref) \<Rightarrow>
          if ret < 0 then (- 1, devices)
          else
            let href = the (snd (link_pathname True (Some OBIX_HISTORY_LOBBY) None subhref None))
            in (case hist_create_dev (he_node_ok e) (he_name e) href (he_index e) (he_disk e) False devices of
                  None \<Rightarrow> (- 1, devices)
                | Some ds \<Rightarrow> (0, ds)))"

text \<open>\<open>for_each_file_name\<close> over the folder, without name filters.\<close>

fun hist_load_all :: "hist_entry list \<Rightarrow> hist_dev list \<Rightarrow> int \<times> hist_dev list" where
  "hist_load_all [] devices = (0, devices)"
| "hist_load_all (e # es) devices =
     (if he_name e = ''.'' \<or> he_name e = ''..'' then hist_load_all es devices
      else let (ret, ds) = hist_load_dev e devices in
           if ret < 0 then (- 1, ds) else hist_load_all es ds)"

text \<open>\<open>obix_hist_init\<close>: an error disposes of what was loaded.\<close>

definition obix_hist_init :: "log_bufs \<Rightarrow> hist_entry list \<Rightarrow> errcode + hist_svc" where
  "obix_hist_init bufs es =
     (let (ret, ds) = hist_load_all es [] in
      if ret < 0 then Inl ERR_NO_MEM
      else Inr \<lparr>hs_devices = ds, hs_names = map he_name es, hs_bufs = bufs\<rparr>)"

fun hist_find_device :: "hist_dev list \<Rightarrow> cstr option \<Rightarrow> hist_dev option" where
  "hist_find_device [] dev_id = None"
| "hist_find_device (dev # devs) dev_id =
     (if is_str_identical (Some (hd_id dev)) dev_id 0 = 1 then Some dev else hist_find_device devs dev_id)"

text \<open>\<open>hist_search\<close>: the list is traversed from its tail to its head.\<close>

definition hist_search :: "hist_dev list \<Rightarrow> cstr \<Rightarrow> hist_dev option" where
  "hist_search devices href =
     (if is_given_type href OBIX_HISTORY = 0 then None
      else find (\<lambda>dev. strstr (hd_href dev) href \<noteq> None) (rev devices))"

section \<open>Requests\<close>

text \<open>
  \<open>__hist_create_backend\<close>.  The environment may refuse the folder or the index file, with or
  without a shortage of space, or fail to write the skeleton; what was made is removed again.
\<close>

datatype backend_env = Backend_Ok | Mkdir_Fails bool | Creat_Fails bool | Skeleton_Fails

definition hist_create_backend :: "backend_env \<Rightarrow> cstr list \<Rightarrow> cstr \<Rightarrow> errcode \<times> cstr list" where
  "hist_create_backend env names dev_id =
     (if dev_id \<in> set names then (ERR_DISK_IO, names)
      else case env of
             Mkdir_Fails no_space \<Rightarrow> (if no_space then ERR_NO_MEM else ERR_DISK_IO, names)
           | Creat_Fails no_space \<Rightarrow> (if no_space then ERR_NO_MEM else ERR_DISK_IO, names)
           | Skeleton_Fails \<Rightarrow> (ERR_DISK_IO, names)
           | Backend_Ok \<Rightarrow> (ERR_SUCCESS, names @ [dev_id]))"

text \<open>What a handler ends with; \<open>Reply_None\<close> is the access to the entries of an empty list.\<close>

datatype hist_reply =
  Reply_Error errcode | Reply_Get cstr cstr | Reply_Append append_out | Reply_Query query_out | Reply_Overflow | Reply_None

record hist_input =
  hi_data :: "hist_rec list option"
  hi_query :: query_in

text \<open>The facility with the given ID is replaced, the list keeps its order.\<close>

fun hist_update_dev :: "hist_dev \<Rightarrow> hist_dev list \<Rightarrow> hist_dev list" where
  "hist_update_dev dev [] = []"
| "hist_update_dev dev (d # ds) = (if hd_id d = hd_id dev then dev # ds else d # hist_update_dev dev ds)"

definition handlerHistoryHelper ::
  "bool \<Rightarrow> bool \<Rightarrow> cstr \<Rightarrow> hist_input \<Rightarrow> cstr \<Rightarrow> hist_svc \<Rightarrow> hist_reply \<times> hist_svc" where
  "handlerHistoryHelper flush_ok header_ok uri input op_name svc =
     (case hist_get_dev_id True uri (Some op_name) of
        Inl e \<Rightarrow> (Reply_Error e, svc)
      | Inr dev_id \<Rightarrow>
          (case hist_find_device (hs_devices svc) (Some dev_id) of
             None \<Rightarrow> (Reply_Error ERR_NO_SUCH_URI, svc)
           | Some dev \<Rightarrow>
               let (reply, svc') =
                 (if op_name = HIST_OP_APPEND then
                    (case hist_append_dev flush_ok dev (hi_data input) of
                       None \<Rightarrow> (Reply_None, svc)
                     | Some (Inl e, dev') \<Rightarrow> (Reply_Error e, svc\<lparr>hs_devices := hist_update_dev dev' (hs_devices svc)\<rparr>)
                     | Some (Inr out, dev') \<Rightarrow> (Reply_Append out, svc\<lparr>hs_devices := hist_update_dev dev' (hs_devices svc)\<rparr>))
                  else if op_name = HIST_OP_QUERY then
                    (case hist_query_core (hs_bufs svc) dev (hi_query input) of
                       (Query_Error e, bufs) \<Rightarrow> (Reply_Error e, svc\<lparr>hs_bufs := bufs\<rparr>)
                     | (Query_Overflow, bufs) \<Rightarrow> (Reply_Overflow, svc\<lparr>hs_bufs := bufs\<rparr>)
                     | (Query_Ok out, bufs) \<Rightarrow> (Reply_Query out, svc\<lparr>hs_bufs := bufs\<rparr>))
                  else (Reply_Error ERR_NO_SUCH_URI, svc))
               in (case reply of
                     Reply_Append _ \<Rightarrow> (if header_ok then reply else Reply_Error ERR_SUCCESS, svc')
                   | Reply_Query _ \<Rightarrow> (if header_ok then reply else Reply_Error ERR_SUCCESS, svc')
                   | _ \<Rightarrow> (reply, svc'))))"

definition handlerHistoryAppend :: "bool \<Rightarrow> bool \<Rightarrow> cstr \<Rightarrow> hist_input \<Rightarrow> hist_svc \<Rightarrow> hist_reply \<times> hist_svc" where
  "handlerHistoryAppend flush_ok header_ok uri input svc = handlerHistoryHelper flush_ok header_ok uri input HIST_OP_APPEND svc"

definition handlerHistoryQuery :: "bool \<Rightarrow> cstr \<Rightarrow> hist_input \<Rightarrow> hist_svc \<Rightarrow> hist_reply \<times> hist_svc" where
  "handlerHistoryQuery header_ok uri input svc = handlerHistoryHelper True header_ok uri input HIST_OP_QUERY svc"

record get_env =
  ge_requester :: "cstr option"
  ge_mem_ok :: bool
  ge_backend :: backend_env
  ge_node_ok :: bool
  ge_response_ok :: bool

text \<open>
  \<open>handlerHistoryGet\<close> for the \<open>dev_id\<close> of the request, if it has one.  The descriptor of an
  existing facility gives the URI of the response; a new one is created with the skeleton.
  Without a response the error code in use is that of the last step.
\<close>

definition handlerHistoryGet :: "get_env \<Rightarrow> cstr option \<Rightarrow> hist_svc \<Rightarrow> hist_reply \<times> hist_svc" where
  "handlerHistoryGet env dev_id_val svc =
     (if ge_requester env = None then (Reply_Error ERR_NO_REQUESTER_ID, svc)
      else case dev_id_val of
        None \<Rightarrow> (Reply_Error ERR_INVALID_INPUT, svc)
      | Some subhref \<Rightarrow>
          (case hist_get_dev_id True subhref None of
             Inl e \<Rightarrow> (Reply_Error ERR_HISTORY_DEVID, svc)
           | Inr dev_id \<Rightarrow>
               (case link_pathname (ge_mem_ok env) (Some OBIX_HISTORY_LOBBY) None (Some subhref) None of
                  (_, None) \<Rightarrow> (Reply_Error ERR_NO_MEM, svc)
                | (_, Some href) \<Rightarrow>
                    (case hist_find_device (hs_devices svc) (Some dev_id) of
                       Some dev \<Rightarrow> (if ge_response_ok env then Reply_Get dev_id href else Reply_Error ERR_NO_MEM, svc)
                     | None \<Rightarrow>
                         if se_lookup (ge_requester env) (Some OBIX_ID_HISTORY) OP_HISTORY_CREATE = 0 then (Reply_Error ERR_PERM_DENIED, svc)
                         else
                           let (e, names) = hist_create_backend (ge_backend env) (hs_names svc) dev_id in
                           if e \<noteq> ERR_SUCCESS then (Reply_Error e, svc\<lparr>hs_names := names\<rparr>)
                           else case hist_create_dev (ge_node_ok env) dev_id href (Some []) Map.empty True (hs_devices svc) of
                                  None \<Rightarrow> (Reply_Error ERR_NO_MEM, svc\<lparr>hs_names := names\<rparr>)
                                | Some ds \<Rightarrow>
                                    (if ge_response_ok env then Reply_Get dev_id href else Reply_Error ERR_SUCCESS,
                                     svc\<lparr>hs_names := names, hs_devices := ds\<rparr>)))))"

text \<open>Tokens put together with a delimiter, and the names the service can keep apart.\<close>

fun join :: "cstr \<Rightarrow> cstr list \<Rightarrow> cstr" where
  "join d [] = []"
| "join d [t] = t"
| "join d (t # ts) = t @ d @ join d ts"

definition words :: "char set \<Rightarrow> cstr list \<Rightarrow> bool" where
  "words ds ts \<longleftrightarrow> ts \<noteq> [] \<and> (\<forall>t \<in> set ts. t \<noteq> [] \<and> set t \<inter> ds = {})"

abbreviation segments :: "cstr list \<Rightarrow> bool" where
  "segments \<equiv> words {CHR ''/'', CHR ''.''}"

section \<open>Specification\<close>

text \<open>A facility that holds a log and whose index file is up to date; its requests to append, and those of the log.\<close>

definition fac_rel :: "hist_dev \<Rightarrow> log_rec list \<Rightarrow> bool" where
  "fac_rel dev log \<longleftrightarrow> hist_rel dev log \<and> hd_index dev = hd_files dev"

type_synonym append_req = "(hist_rec \<times> log_rec option) list"

definition fac_append :: "append_req \<Rightarrow> hist_dev \<Rightarrow> hist_reply \<times> hist_dev" where
  "fac_append r dev =
     (case hist_append_dev True dev (Some (map fst r)) of
        None \<Rightarrow> (Reply_None, dev)
      | Some (Inl e, dev') \<Rightarrow> (Reply_Error e, dev')
      | Some (Inr out, dev') \<Rightarrow> (Reply_Append out, dev'))"

definition log_request :: "append_req \<Rightarrow> log_rec list \<Rightarrow> hist_reply \<times> log_rec list" where
  "log_request r log =
     (let (log', e) = log_append log ERR_SUCCESS (map snd r) in
      (if e \<noteq> ERR_SUCCESS then Reply_Error e
       else Reply_Append \<lparr>ao_num_added = int (length log') - int (length log), ao_new_count = int (length log'),
                           ao_new_start = lr_ts (hd log'), ao_new_end = lr_ts (last log')\<rparr>, log'))"

definition append_ok :: "append_req \<Rightarrow> bool" where
  "append_ok r \<longleftrightarrow> r \<noteq> [] \<and> (\<forall>(x, c) \<in> set r. cand_ok x c)"

section \<open>Tokens\<close>

lemma join_Cons: "ts \<noteq> [] \<Longrightarrow> join d (t # ts) = t @ d @ join d ts"
  by (cases ts) simp_all

lemma str_tokens_word:
  assumes "w \<noteq> []" "d \<notin> set w" "s = [] \<or> hd s = d"
  shows "str_tokens [d] (w @ s) = w # str_tokens [d] s"
proof -
  have d: "dropWhile (\<lambda>c. c \<in> set [d]) (w @ s) = w @ s"
    using assms(1,2) by (cases w) auto
  have t: "takeWhile (\<lambda>c. c \<notin> set [d]) (w @ s) = w" "dropWhile (\<lambda>c. c \<notin> set [d]) (w @ s) = s"
    using assms(2,3) by (induction w) (auto simp: takeWhile_eq_Nil_iff dropWhile_eq_self_iff)
  show ?thesis using assms(1) by (subst str_tokens.simps) (simp only: Let_def d t, simp)
qed

lemma str_tokens_delim: "str_tokens [d] (d # s) = str_tokens [d] s" "str_tokens [d] [] = []"
  by (subst (1 2) str_tokens.simps, simp) (simp add: str_tokens.simps)

lemma tokens_join: "words {d} ts \<Longrightarrow> str_tokens [d] (join [d] ts) = ts"
proof (induction "[d]" ts rule: join.induct)
  case (2 t)
  then show ?case using str_tokens_word [of t d "[]"] by (simp add: words_def str_tokens_delim)
next
  case (3 t v va)
  have w: "t \<noteq> []" "d \<notin> set t" "words {d} (v # va)" using 3(2) by (auto simp: words_def)
  show ?case using 3(1) [OF w(3)] str_tokens_word [OF w(1,2), of "d # join [d] (v # va)"] by (simp add: str_tokens_delim)
qed (simp add: words_def)

lemma words_mono: "words ds ts \<Longrightarrow> es \<subseteq> ds \<Longrightarrow> words es ts"
  unfolding words_def by blast

lemma words_join: "words ds ts \<Longrightarrow> join [d] ts \<noteq> [] \<and> hd (join [d] ts) \<notin> ds \<and> last (join [d] ts) \<notin> ds"
proof (induction "[d]" ts rule: join.induct)
  case (2 t)
  then show ?case by (auto simp: words_def disjoint_iff)
next
  case (3 t v va)
  have w: "t \<noteq> []" "set t \<inter> ds = {}" "words ds (v # va)" using 3(2) by (auto simp: words_def)
  have "hd t \<in> set t" using w(1) by simp
  then have "hd t \<notin> ds" using w(2) by blast
  then show ?case using 3(1) [OF w(3)] w(1) by simp
qed (simp add: words_def)

lemma each_dev_id: "toks \<noteq> [] \<Longrightarrow> each_token get_dev_id_helper r toks (Some h) = (0, Some (h @ ''.'' @ join ''.'' toks))"
proof (induction toks arbitrary: h r)
  case (Cons t ts)
  then show ?case using Cons.IH [of 0 "h @ ''.'' @ t"] by (cases "ts = []") (simp_all add: get_dev_id_helper_def join_Cons)
qed simp

lemma each_href: "toks \<noteq> [] \<Longrightarrow> each_token hist_get_href r toks (Some h) = (0, Some (h @ ''/'' @ join ''/'' toks))"
proof (induction toks arbitrary: h r)
  case (Cons t ts)
  then show ?case using Cons.IH [of 0 "h @ ''/'' @ t"] by (cases "ts = []") (simp_all add: hist_get_href_def join_Cons)
qed simp

lemma dev_id_tokens:
  "for_each_str_token True ''/'' s get_dev_id_helper None =
     (let ts = str_tokens ''/'' s in if ts = [] then (- 1, None) else (0, Some (join ''.'' ts)))"
proof (cases "str_tokens ''/'' s")
  case (Cons t ts)
  then show ?thesis using each_dev_id [of ts 0 t]
    by (cases "ts = []") (simp_all add: for_each_str_token_def get_dev_id_helper_def join_Cons)
qed (simp add: for_each_str_token_def)

lemma href_tokens:
  "for_each_str_token True ''.'' s hist_get_href None =
     (let ts = str_tokens ''.'' s in if ts = [] then (- 1, None) else (0, Some (join ''/'' ts)))"
proof (cases "str_tokens ''.'' s")
  case (Cons t ts)
  then show ?thesis using each_href [of ts 0 t]
    by (cases "ts = []") (simp_all add: for_each_str_token_def hist_get_href_def join_Cons)
qed (simp add: for_each_str_token_def)

lemma dev_id_inj: "segments ts \<Longrightarrow> segments us \<Longrightarrow> join ''.'' ts = join ''.'' us \<longleftrightarrow> ts = us"
proof -
  assume "segments ts" "segments us"
  then have "words {CHR ''.''} ts" "words {CHR ''.''} us" by (simp_all add: words_mono)
  then show ?thesis by (metis tokens_join)
qed

lemma lobby_len: "OBIX_HISTORY_LOBBY_LEN = length OBIX_HISTORY_LOBBY"
  by (simp add: OBIX_HISTORY_LOBBY_LEN_def OBIX_HISTORY_LOBBY_def)

text \<open>The ID in the URI of a request, and in the contract of \<open>History.Get\<close>.\<close>

lemma dev_id_uri:
  assumes "segments ts" "strstr op (join ''/'' ts @ ''/'' @ op) = Some op"
  shows "hist_get_dev_id True (OBIX_HISTORY_LOBBY @ join ''/'' ts @ ''/'' @ op) (Some op) = Inr (join ''.'' ts)"
proof -
  have "str_tokens ''/'' (join ''/'' ts) = ts" using tokens_join words_mono [OF assms(1), of "{CHR ''/''}"] by simp
  moreover have "ts \<noteq> []" using assms(1) by (simp add: words_def)
  ultimately show ?thesis using assms(2)
    by (simp add: hist_get_dev_id_def lobby_len strncmp_eq_def strndup_def dev_id_tokens)
qed

lemma dev_id_contract:
  assumes "segments ts" "\<not> strncmp_eq (join ''/'' ts) OBIX_HISTORY_LOBBY OBIX_HISTORY_LOBBY_LEN"
  shows "hist_get_dev_id True (join ''/'' ts) None = Inr (join ''.'' ts)"
proof -
  have "str_tokens ''/'' (join ''/'' ts) = ts" using tokens_join words_mono [OF assms(1), of "{CHR ''/''}"] by simp
  moreover have "ts \<noteq> []" using assms(1) by (simp add: words_def)
  moreover have "slash_followed (Some (join ''/'' ts)) = 0"
    using words_join [OF assms(1), of "CHR ''/''"] by (auto simp: slash_followed_iff slash_def)
  ultimately show ?thesis using assms(2) by (simp add: hist_get_dev_id_def strndup_def dev_id_tokens)
qed

lemma segments_not_lobby:
  assumes "segments ts"
  shows "\<not> strncmp_eq (join ''/'' ts) OBIX_HISTORY_LOBBY OBIX_HISTORY_LOBBY_LEN"
proof
  assume "strncmp_eq (join ''/'' ts) OBIX_HISTORY_LOBBY OBIX_HISTORY_LOBBY_LEN"
  then have "hd (take 31 (join ''/'' ts)) = CHR ''/''" by (simp add: strncmp_eq_def OBIX_HISTORY_LOBBY_def OBIX_HISTORY_LOBBY_LEN_def)
  moreover have "hd (take 31 (join ''/'' ts)) = hd (join ''/'' ts)" using words_join [OF assms, of "CHR ''/''"] by (cases "join ''/'' ts") auto
  ultimately show False using words_join [OF assms, of "CHR ''/''"] by auto
qed

section \<open>Facilities keep their names\<close>

lemma create_file_id: "hist_create_file dev a n = Some dev' \<Longrightarrow> hd_id dev' = hd_id dev \<and> hd_href dev' = hd_href dev"
  by (auto simp: hist_create_file_def split: if_splits)

lemma update_last_id [simp]: "hd_id (update_last u d) = hd_id d" "hd_href (update_last u d) = hd_href d"
  by (simp_all add: update_last_def split: list.split)

lemma create_fragment_id: "hist_create_fragment e dev ts = (ok, dev') \<Longrightarrow> hd_id dev' = hd_id dev \<and> hd_href dev' = hd_href dev"
  by (auto simp: hist_create_fragment_def Let_def dest!: create_file_id split: option.splits if_splits)

lemma append_record_id:
  assumes "append_record r ts new_day s = (ok, s')"
  shows "hd_id (as_dev s') = hd_id (as_dev s) \<and> hd_href (as_dev s') = hd_href (as_dev s)"
proof -
  define s1 where "s1 = (if new_day \<and> as_count s > 0
                then s\<lparr>as_dev := update_last (\<lambda>f. add_abs_count f (as_count s)) (as_dev s), as_count := 0\<rparr> else s)"
  obtain ok1 dev where d: "(if new_day then hist_create_fragment (re_frag (hr_env r)) (as_dev s1) ts else (True, as_dev s1)) = (ok1, dev)"
    by fastforce
  have "hd_id dev = hd_id (as_dev s1) \<and> hd_href dev = hd_href (as_dev s1)"
    using d by (cases new_day) (auto dest: create_fragment_id)
  then have "hd_id dev = hd_id (as_dev s) \<and> hd_href dev = hd_href (as_dev s)" by (simp add: s1_def split: if_splits)
  then show ?thesis
    using assms unfolding append_record_def s1_def [symmetric] Let_def d prod.case by (auto split: if_splits prod.splits)
qed

text \<open>A record is left out, or written.\<close>

lemma append_loop_step:
  assumes "append_loop (r # rs) s = (ok, s')"
  obtains (skip) e where "append_loop rs (s\<lparr>as_ret := e\<rparr>) = (ok, s')"
  | (fail) ts d where "append_record r ts d s = (False, s')" "\<not> ok"
  | (written) ts d s1 where "append_record r ts d s = (True, s1)" "append_loop rs s1 = (ok, s')"
proof (cases "hr_ts r")
  case None
  then show ?thesis using assms skip by simp
next
  case (Some ts)
  show ?thesis
  proof (cases "timestamp_compare (Some ts) (Some (as_latest s))")
    case None
    then show ?thesis using assms skip Some by simp
  next
    fix p assume p: "timestamp_compare (Some ts) (Some (as_latest s)) = Some p"
    obtain res d where d: "p = (res, d)" by (cases p)
    obtain ok1 s1 where s1: "append_record r ts (d = 1) s = (ok1, s1)" by fastforce
    show ?thesis
    proof (cases "res \<le> 0")
      case True
      then show ?thesis using assms Some p d skip by simp
    next
      case False
      then have "(if ok1 then append_loop rs s1 else (False, s1)) = (ok, s')" using assms Some p d s1 by simp
      then show ?thesis using s1 written fail by (cases ok1) auto
    qed
  qed
qed

lemma append_loop_id:
  "append_loop xs s = (ok, s') \<Longrightarrow> hd_id (as_dev s') = hd_id (as_dev s) \<and> hd_href (as_dev s') = hd_href (as_dev s)"
proof (induction xs arbitrary: s)
  case (Cons r rs)
  from Cons.prems show ?case
  proof (cases rule: append_loop_step)
    case (skip e)
    then show ?thesis using Cons.IH by fastforce
  next
    case (fail ts d)
    then show ?thesis using append_record_id by simp
  next
    case (written ts d s1)
    then show ?thesis using append_record_id Cons.IH by metis
  qed
qed simp

lemma append_core_id:
  assumes "hist_append_core f dev input = (e, n, dev')"
  shows "hd_id dev' = hd_id dev \<and> hd_href dev' = hd_href dev"
proof (cases input)
  case (Some rs)
  obtain ok s where s: "append_loop rs (append_init dev) = (ok, s)" by fastforce
  have "hd_id (as_dev s) = hd_id dev \<and> hd_href (as_dev s) = hd_href dev"
    using append_loop_id [OF s] by (simp add: append_init_def)
  then show ?thesis
    using assms s Some by (auto simp: hist_append_core_def append_init_def hist_flush_index_def Let_def split: if_splits)
qed (use assms in \<open>simp add: hist_append_core_def\<close>)

lemma append_dev_id:
  "hist_append_dev f dev input = Some (r, dev') \<Longrightarrow> hd_id dev' = hd_id dev \<and> hd_href dev' = hd_href dev"
  by (auto simp: hist_append_dev_def Let_def dest: append_core_id split: prod.splits if_splits)

text \<open>A loop that adds nothing changes nothing.\<close>

lemma append_record_added: "append_record r ts d s = (True, s') \<Longrightarrow> as_all s' = as_all s + 1"
  by (auto simp: append_record_def Let_def split: if_splits prod.splits)

lemma append_loop_idle:
  "append_loop xs s = (True, s') \<Longrightarrow> as_all s \<le> as_all s' \<and> (as_all s' = as_all s \<longrightarrow> as_dev s' = as_dev s \<and> as_count s' = as_count s)"
proof (induction xs arbitrary: s)
  case (Cons r rs)
  from Cons.prems show ?case
  proof (cases rule: append_loop_step)
    case (skip e)
    then show ?thesis using Cons.IH by fastforce
  next
    case (written ts d s1)
    then show ?thesis using append_record_added [OF written(1)] Cons.IH [OF written(2)] by auto
  qed simp
qed simp

lemma append_core_index:
  assumes "hist_append_core True dev (Some xs) = (e, n, dev')" "\<exists>s. append_loop xs (append_init dev) = (True, s)" "hd_index dev = hd_files dev"
  shows "hd_index dev' = hd_files dev'"
proof -
  obtain s where s: "append_loop xs (append_init dev) = (True, s)" using assms(2) by blast
  note i = append_loop_idle [OF s]
  show ?thesis
  proof (cases "as_all s > 0")
    case True
    then show ?thesis using assms(1) s by (auto simp: hist_append_core_def append_init_def hist_flush_index_def Let_def split: if_splits)
  next
    case False
    then have "as_dev s = dev" "as_count s = 0" using i by (auto simp: append_init_def)
    then show ?thesis using assms s False by (auto simp: hist_append_core_def append_init_def Let_def)
  qed
qed

text \<open>Requests for facilities whose names are given by their segments, with the candidates of the log.\<close>

datatype hist_req = Req_Get "cstr list" | Req_Append "cstr list" append_req | Req_Query "cstr list" query_in

definition client_env :: get_env where
  "client_env = \<lparr>ge_requester = Some ''client'', ge_mem_ok = True, ge_backend = Backend_Ok, ge_node_ok = True, ge_response_ok = True\<rparr>"

definition no_query :: query_in where
  "no_query = \<lparr>qi_start = None, qi_end = None, qi_limit = 0\<rparr>"

definition hist_uri :: "cstr list \<Rightarrow> cstr \<Rightarrow> cstr" where
  "hist_uri ts op = OBIX_HISTORY_LOBBY @ join ''/'' ts @ ''/'' @ op"

fun hist_serve :: "hist_req \<Rightarrow> hist_svc \<Rightarrow> hist_reply \<times> hist_svc" where
  "hist_serve (Req_Get ts) svc = handlerHistoryGet client_env (Some (join ''/'' ts)) svc"
| "hist_serve (Req_Append ts r) svc =
     handlerHistoryAppend True True (hist_uri ts HIST_OP_APPEND) \<lparr>hi_data = Some (map fst r), hi_query = no_query\<rparr> svc"
| "hist_serve (Req_Query ts q) svc =
     handlerHistoryQuery True (hist_uri ts HIST_OP_QUERY) \<lparr>hi_data = None, hi_query = q\<rparr> svc"

text \<open>What a client sees of a reply.\<close>

datatype hist_view =
  View_Error errcode | View_Get cstr cstr | View_Append append_out | View_Records int cstr | View_Broken

fun view_of :: "hist_reply \<Rightarrow> hist_view" where
  "view_of (Reply_Error e) = View_Error e"
| "view_of (Reply_Get i h) = View_Get i h"
| "view_of (Reply_Append a) = View_Append a"
| "view_of (Reply_Query q) = View_Records (qo_count q) (concat (qo_data q))"
| "view_of Reply_Overflow = View_Broken"
| "view_of Reply_None = View_Broken"

text \<open>The service as a map from names to logs.\<close>

fun hist_spec :: "hist_req \<Rightarrow> (cstr \<rightharpoonup> log_rec list) \<Rightarrow> hist_view \<times> (cstr \<rightharpoonup> log_rec list)" where
  "hist_spec (Req_Get ts) m =
     (View_Get (join ''.'' ts) (OBIX_HISTORY_LOBBY @ join ''/'' ts),
      if m (join ''.'' ts) = None then m(join ''.'' ts \<mapsto> []) else m)"
| "hist_spec (Req_Append ts r) m =
     (case m (join ''.'' ts) of
        None \<Rightarrow> (View_Error ERR_NO_SUCH_URI, m)
      | Some log \<Rightarrow> let (v, log') = log_request r log in (view_of v, m(join ''.'' ts \<mapsto> log')))"
| "hist_spec (Req_Query ts q) m =
     (case m (join ''.'' ts) of
        None \<Rightarrow> (View_Error ERR_NO_SUCH_URI, m)
      | Some log \<Rightarrow>
          (if log = [] then View_Error ERR_HISTORY_EMPTY
           else View_Records (int (length (query_spec q log))) (lines_of (query_spec q log)), m))"

fun hist_serve_all :: "hist_req list \<Rightarrow> hist_svc \<Rightarrow> hist_reply list \<times> hist_svc" where
  "hist_serve_all [] svc = ([], svc)"
| "hist_serve_all (r # rs) svc =
     (let (v, svc') = hist_serve r svc; (vs, svc'') = hist_serve_all rs svc' in (v # vs, svc''))"

fun hist_spec_all :: "hist_req list \<Rightarrow> (cstr \<rightharpoonup> log_rec list) \<Rightarrow> hist_view list \<times> (cstr \<rightharpoonup> log_rec list)" where
  "hist_spec_all [] m = ([], m)"
| "hist_spec_all (r # rs) m =
     (let (v, m') = hist_spec r m; (vs, m'') = hist_spec_all rs m' in (v # vs, m''))"

definition other_names :: "cstr set" where
  "other_names = {''.'', ''..'', ''lost+found''}"

definition name_ok :: "cstr list \<Rightarrow> bool" where
  "name_ok ts \<longleftrightarrow> segments ts \<and> join ''.'' ts \<notin> other_names"

definition path_ok :: "cstr list \<Rightarrow> cstr \<Rightarrow> bool" where
  "path_ok ts op \<longleftrightarrow> name_ok ts \<and> strstr op (join ''/'' ts @ ''/'' @ op) = Some op"

fun req_ok :: "hist_req \<Rightarrow> bool" where
  "req_ok (Req_Get ts) \<longleftrightarrow> name_ok ts"
| "req_ok (Req_Append ts r) \<longleftrightarrow> path_ok ts HIST_OP_APPEND \<and> append_ok r"
| "req_ok (Req_Query ts q) \<longleftrightarrow> path_ok ts HIST_OP_QUERY \<and> query_valid q"

fun req_weight :: "hist_req \<Rightarrow> nat" where
  "req_weight (Req_Append ts r) = length r"
| "req_weight _ = 0"

lemma log_append_nonempty: "rs \<noteq> [] \<Longrightarrow> log_append log e rs = (log', e') \<Longrightarrow> e' \<noteq> ERR_SUCCESS \<or> log' \<noteq> []"
proof (induction log e rs rule: log_append.induct)
  case (2 log ret rs)
  then show ?case by (cases "rs = []") auto
next
  case (3 log ret r rs)
  show ?case
  proof (cases "rs = []")
    case True
    then show ?thesis using 3(4) by (auto split: if_splits)
  next
    case False
    then show ?thesis using 3(1,2) 3(4) by (auto split: if_splits)
  qed
qed simp

lemma fac_append_id: "hd_id (snd (fac_append r dev)) = hd_id dev"
  by (auto simp: fac_append_def dest: append_dev_id split: option.split sum.split)

lemma fac_append_rel:
  assumes "fac_rel dev log" "append_ok r"
  shows "fst (fac_append r dev) = fst (log_request r log) \<and> fac_rel (snd (fac_append r dev)) (snd (log_request r log))"
proof -
  have h: "hist_rel dev log" "hd_index dev = hd_files dev" using assms(1) by (simp_all add: fac_rel_def)
  have c: "list_all2 cand_ok (map fst r) (map snd r)"
  proof -
    have "cand_ok (fst z) (snd z)" if "z \<in> set r" for z using assms(2) that by (cases z) (auto simp: append_ok_def)
    then show ?thesis by (simp add: list_all2_map1 list_all2_map2 list.rel_refl_strong)
  qed
  obtain log' e where l: "log_append log ERR_SUCCESS (map snd r) = (log', e)" by fastforce
  have ne: "e \<noteq> ERR_SUCCESS \<or> log' \<noteq> []" using log_append_nonempty [OF _ l] assms(2) by (simp add: append_ok_def)
  obtain dev' where d: "hist_append_dev True dev (Some (map fst r)) =
      Some (if e \<noteq> ERR_SUCCESS then Inl e
            else Inr \<lparr>ao_num_added = int (length log') - int (length log), ao_new_count = int (length log'),
                      ao_new_start = lr_ts (hd log'), ao_new_end = lr_ts (last log')\<rparr>, dev')" "hist_rel dev' log'"
    using append_dev_rel [OF h(1) c l ne] by blast
  obtain n where "hist_append_core True dev (Some (map fst r)) = (e, n, dev')"
    using d(1) by (auto simp: hist_append_dev_def Let_def split: prod.splits if_splits)
  moreover have "\<exists>s. append_loop (map fst r) (append_init dev) = (True, s)"
    using append_loop_rel [OF c append_init_rel [OF h(1)]] by blast
  ultimately have "hd_index dev' = hd_files dev'" using append_core_index h(2) by blast
  then show ?thesis using d l by (auto simp: fac_append_def log_request_def fac_rel_def)
qed

interpretation hs: object_table hd_id fac_rel fac_append log_request append_ok
  by unfold_locales (simp_all add: fac_append_id fac_append_rel)

text \<open>The service stands for a map of logs.\<close>

definition svc_rel :: "hist_svc \<Rightarrow> (cstr \<rightharpoonup> log_rec list) \<Rightarrow> bool" where
  "svc_rel svc m \<longleftrightarrow> hs.table_rel (hs_devices svc) m \<and> sorted (map (\<lambda>d. length (hd_id d)) (hs_devices svc)) \<and>
     bufs_ok (hs_bufs svc) \<and> dom m \<subseteq> set (hs_names svc) \<and> set (hs_names svc) \<subseteq> other_names \<union> dom m \<and>
     (\<forall>i \<in> dom m. \<exists>ts. name_ok ts \<and> i = join ''.'' ts)"

lemma find_device: "hist_find_device ds (Some i) = find (\<lambda>d. hd_id d = i) ds"
  by (induction ds) (auto simp: is_str_identical_exact)

lemma update_dev: "distinct (map hd_id ds) \<Longrightarrow> hist_update_dev dev ds = map (\<lambda>d. if hd_id d = hd_id dev then dev else d) ds"
proof (induction ds)
  case (Cons d ds)
  have "map (\<lambda>d. if hd_id d = hd_id dev then dev else d) ds = ds" if "hd_id d = hd_id dev"
  proof (rule map_idI)
    fix x assume "x \<in> set ds"
    then have "hd_id x \<in> hd_id ` set ds" by simp
    then have "hd_id x \<noteq> hd_id dev" using Cons.prems that by auto
    then show "(if hd_id x = hd_id dev then dev else x) = x" by simp
  qed
  then show ?case using Cons by auto
qed simp

lemma enqueue_dev:
  "mset (hist_enqueue_dev d ds) = add_mset d (mset ds)"
  "sorted (map (\<lambda>d. length (hd_id d)) ds) \<Longrightarrow> sorted (map (\<lambda>d. length (hd_id d)) (hist_enqueue_dev d ds))"
proof -
  show m: "mset (hist_enqueue_dev d ds) = add_mset d (mset ds)" for ds by (induction ds) auto
  have set: "set (hist_enqueue_dev d ds) = insert d (set ds)" for ds by (metis m set_mset_add_mset_insert set_mset_mset)
  show "sorted (map (\<lambda>d. length (hd_id d)) ds) \<Longrightarrow> sorted (map (\<lambda>d. length (hd_id d)) (hist_enqueue_dev d ds))"
  proof (induction ds)
    case (Cons e ds)
    then show ?case by (fastforce simp: set)
  qed simp
qed

section \<open>The service refines the map of logs\<close>

lemma helper_append:
  assumes "path_ok ts HIST_OP_APPEND"
  shows "handlerHistoryAppend True True (hist_uri ts HIST_OP_APPEND) \<lparr>hi_data = Some (map fst r), hi_query = q\<rparr> svc =
    (case find (\<lambda>d. hd_id d = join ''.'' ts) (hs_devices svc) of
       None \<Rightarrow> (Reply_Error ERR_NO_SUCH_URI, svc)
     | Some dev \<Rightarrow>
         case hist_append_dev True dev (Some (map fst r)) of
           None \<Rightarrow> (Reply_None, svc)
         | Some _ \<Rightarrow> (fst (fac_append r dev), svc\<lparr>hs_devices := hist_update_dev (snd (fac_append r dev)) (hs_devices svc)\<rparr>))"
proof -
  have "hist_get_dev_id True (hist_uri ts HIST_OP_APPEND) (Some HIST_OP_APPEND) = Inr (join ''.'' ts)"
    using dev_id_uri [of ts HIST_OP_APPEND] assms by (simp add: path_ok_def name_ok_def hist_uri_def)
  then show ?thesis
    by (auto simp: handlerHistoryAppend_def handlerHistoryHelper_def find_device fac_append_def Let_def split: option.split sum.split prod.split)
qed

lemma helper_query:
  assumes "path_ok ts HIST_OP_QUERY"
  shows "handlerHistoryQuery True (hist_uri ts HIST_OP_QUERY) \<lparr>hi_data = None, hi_query = q\<rparr> svc =
    (case find (\<lambda>d. hd_id d = join ''.'' ts) (hs_devices svc) of
       None \<Rightarrow> (Reply_Error ERR_NO_SUCH_URI, svc)
     | Some dev \<Rightarrow>
         let (res, bufs) = hist_query_core (hs_bufs svc) dev q
         in (case res of Query_Error e \<Rightarrow> Reply_Error e | Query_Overflow \<Rightarrow> Reply_Overflow | Query_Ok out \<Rightarrow> Reply_Query out,
             svc\<lparr>hs_bufs := bufs\<rparr>))"
proof -
  have "hist_get_dev_id True (hist_uri ts HIST_OP_QUERY) (Some HIST_OP_QUERY) = Inr (join ''.'' ts)"
    using dev_id_uri [of ts HIST_OP_QUERY] assms by (simp add: path_ok_def name_ok_def hist_uri_def)
  moreover have "HIST_OP_QUERY \<noteq> HIST_OP_APPEND" by (simp add: HIST_OP_QUERY_def HIST_OP_APPEND_def)
  ultimately show ?thesis
    by (auto simp: handlerHistoryQuery_def handlerHistoryHelper_def find_device Let_def split: option.split query_res.split prod.split)
qed

lemma serve_append:
  assumes r: "svc_rel svc m" and q: "path_ok ts HIST_OP_APPEND" "append_ok r"
  shows "view_of (fst (hist_serve (Req_Append ts r) svc)) = fst (hist_spec (Req_Append ts r) m) \<and>
    svc_rel (snd (hist_serve (Req_Append ts r) svc)) (snd (hist_spec (Req_Append ts r) m))"
proof -
  let ?i = "join ''.'' ts"
  have t: "hs.table_rel (hs_devices svc) m" using r by (simp add: svc_rel_def)
  show ?thesis
  proof (cases "find (\<lambda>d. hd_id d = ?i) (hs_devices svc)")
    case None
    then show ?thesis using hs.find_None [OF t, of ?i] helper_append [OF q(1)] r by simp
  next
    case (Some dev)
    then obtain log where log: "m ?i = Some log" "fac_rel dev log" using hs.find_Some [OF t Some] by blast
    have dv: "dev \<in> set (hs_devices svc)" "hd_id dev = ?i" using hs.find_Some [OF t Some] by simp_all
    note st = hs.table_step [OF t Some log(1) q(2)]
    have nn: "hist_append_dev True dev (Some (map fst r)) \<noteq> None"
    proof
      assume "hist_append_dev True dev (Some (map fst r)) = None"
      then have "fst (fac_append r dev) = Reply_None" by (simp add: fac_append_def)
      then show False using st(1) by (auto simp: log_request_def split: prod.splits if_splits)
    qed
    have d: "distinct (map hd_id (hs_devices svc))" using t by (simp add: hs.table_rel_def)
    define ds where "ds = map (\<lambda>d. if hd_id d = ?i then snd (fac_append r dev) else d) (hs_devices svc)"
    have e: "hist_serve (Req_Append ts r) svc = (fst (fac_append r dev), svc\<lparr>hs_devices := ds\<rparr>)"
      using helper_append [OF q(1)] Some nn update_dev [OF d] fac_append_id [of r dev] dv(2) by (auto simp: ds_def)
    have "map (\<lambda>d. length (hd_id d)) ds = map (\<lambda>d. length (hd_id d)) (hs_devices svc)"
      using fac_append_id [of r dev] dv(2) by (auto simp: ds_def)
    moreover have "insert ?i (dom m) = dom m" using log(1) by auto
    ultimately have "svc_rel (snd (hist_serve (Req_Append ts r) svc)) (m(?i \<mapsto> snd (log_request r log)))"
      using st(2) r unfolding e svc_rel_def ds_def [symmetric] by simp
    moreover have "view_of (fst (hist_serve (Req_Append ts r) svc)) = view_of (fst (log_request r log))" using st(1) by (simp only: e fst_conv)
    ultimately show ?thesis by (simp only: hist_spec.simps log(1) option.case Let_def case_prod_beta fst_conv snd_conv)
  qed
qed

lemma serve_query:
  assumes r: "svc_rel svc m" and q: "path_ok ts HIST_OP_QUERY" "query_valid q" and l: "\<forall>log \<in> ran m. length log < 10 ^ 9"
  shows "view_of (fst (hist_serve (Req_Query ts q) svc)) = fst (hist_spec (Req_Query ts q) m) \<and>
    svc_rel (snd (hist_serve (Req_Query ts q) svc)) (snd (hist_spec (Req_Query ts q) m))"
proof -
  let ?i = "join ''.'' ts"
  have t: "hs.table_rel (hs_devices svc) m" and b: "bufs_ok (hs_bufs svc)" using r by (simp_all add: svc_rel_def)
  show ?thesis
  proof (cases "find (\<lambda>d. hd_id d = ?i) (hs_devices svc)")
    case None
    then show ?thesis using hs.find_None [OF t, of ?i] helper_query [OF q(1)] r by simp
  next
    case (Some dev)
    then obtain log where log: "m ?i = Some log" "fac_rel dev log" using hs.find_Some [OF t Some] by blast
    have h: "hist_rel dev log" using log(2) by (simp add: fac_rel_def)
    show ?thesis
    proof (cases "log = []")
      case True
      then have "hd_files dev = []" using append_init_rel [OF h] by (simp add: loop_rel_def append_init_def)
      then have "hist_query_core (hs_bufs svc) dev q = (Query_Error ERR_HISTORY_EMPTY, hs_bufs svc)" by (simp add: hist_query_core_def)
      then show ?thesis using helper_query [OF q(1)] Some log(1) True r by simp
    next
      case False
      have "length log < 10 ^ 9" using l log(1) by (simp add: ranI)
      from query_core_spec [OF h False this q(2) b] obtain out bufs where o: "hist_query_core (hs_bufs svc) dev q = (Query_Ok out, bufs)"
        "bufs_ok bufs" "qo_count out = int (length (query_spec q log))" "concat (qo_data out) = lines_of (query_spec q log)" by blast
      then have "hist_serve (Req_Query ts q) svc = (Reply_Query out, svc\<lparr>hs_bufs := bufs\<rparr>)" using helper_query [OF q(1)] Some by simp
      then show ?thesis using o log(1) False r by (simp add: svc_rel_def)
    qed
  qed
qed

lemma serve_get:
  assumes r: "svc_rel svc m" and q: "name_ok ts"
  shows "view_of (fst (hist_serve (Req_Get ts) svc)) = fst (hist_spec (Req_Get ts) m) \<and>
    svc_rel (snd (hist_serve (Req_Get ts) svc)) (snd (hist_spec (Req_Get ts) m))"
proof -
  let ?i = "join ''.'' ts" and ?h = "OBIX_HISTORY_LOBBY @ join ''/'' ts"
  have t: "hs.table_rel (hs_devices svc) m" using r by (simp add: svc_rel_def)
  have seg: "segments ts" using q by (simp add: name_ok_def)
  have id: "hist_get_dev_id True (join ''/'' ts) None = Inr ?i" using dev_id_contract [OF seg segments_not_lobby [OF seg]] .
  have ns: "slash_preceded (Some (join ''/'' ts)) = 0" using words_join [OF seg, of "CHR ''/''"] by (auto simp: slash_preceded_iff slash_def)
  have "OBIX_HISTORY_LOBBY \<noteq> []" "slash_followed (Some OBIX_HISTORY_LOBBY) = 1" by (simp_all add: OBIX_HISTORY_LOBBY_def slash_followed_iff slash_def)
  then have href: "link_pathname True (Some OBIX_HISTORY_LOBBY) None (Some (join ''/'' ts)) None = (0, Some ?h)"
    using ns by (simp add: link_pathname_def link_buf_def)
  show ?thesis
  proof (cases "find (\<lambda>d. hd_id d = ?i) (hs_devices svc)")
    case (Some dev)
    then show ?thesis using hs.find_Some [OF t Some] r by (auto simp: handlerHistoryGet_def client_env_def id href find_device)
  next
    case None
    then have m: "m ?i = None" using hs.find_None [OF t] by simp
    then have nm: "?i \<notin> set (hs_names svc)" using r q by (auto simp: svc_rel_def name_ok_def)
    let ?dev = "\<lparr>hd_count = 0, hd_id = ?i, hd_href = ?h, hd_files = [], hd_disk = Map.empty, hd_index = []\<rparr>"
    have se: "se_lookup (Some ''client'') (Some OBIX_ID_HISTORY) OP_HISTORY_CREATE = 1" by code_simp
    define ds where "ds = hist_enqueue_dev ?dev (hs_devices svc)"
    have e: "hist_serve (Req_Get ts) svc = (Reply_Get ?i ?h, svc\<lparr>hs_names := hs_names svc @ [?i], hs_devices := ds\<rparr>)"
      using None nm se by (simp add: handlerHistoryGet_def client_env_def id href find_device hist_create_backend_def hist_create_dev_def ds_def)
    have "fac_rel ?dev []" using hist_rel_empty [of ?i ?h] by (simp add: fac_rel_def empty_facility_def)
    then have "hs.table_rel ds (m(?i \<mapsto> []))"
      using hs.table_insert [OF t, of ?dev "[]"] m enqueue_dev(1) by (simp add: ds_def)
    moreover have "sorted (map (\<lambda>d. length (hd_id d)) ds)" unfolding ds_def by (rule enqueue_dev(2)) (use r in \<open>simp add: svc_rel_def\<close>)
    ultimately have "svc_rel (snd (hist_serve (Req_Get ts) svc)) (m(?i \<mapsto> []))"
      using r q unfolding e svc_rel_def by auto
    then show ?thesis using m e by simp
  qed
qed

lemma log_append_grows: "length (fst (log_append log e rs)) \<le> length log + length rs"
  by (induction log e rs rule: log_append.induct) auto

lemma ran_upd_le: "\<forall>a \<in> ran m. P a \<Longrightarrow> P b \<Longrightarrow> \<forall>a \<in> ran (m(k \<mapsto> b)). P a"
  by (auto simp: ran_def)

lemma spec_weight:
  assumes "\<forall>log \<in> ran m. length log + req_weight r + n < N" "req_weight r + n < N"
  shows "\<forall>log \<in> ran (snd (hist_spec r m)). length log + n < N"
proof (cases r)
  case (Req_Get ts)
  then show ?thesis using assms ran_upd_le [of m "\<lambda>log. length log + n < N" "[]"] by simp
next
  case (Req_Append ts q)
  show ?thesis
  proof (cases "m (join ''.'' ts)")
    case (Some log)
    then have "log \<in> ran m" by (simp add: ranI)
    then have "length log + length q + n < N" using assms(1) Req_Append by auto
    then have "length (snd (log_request q log)) + n < N"
      using log_append_grows [of log ERR_SUCCESS "map snd q"] by (simp add: log_request_def case_prod_beta)
    moreover have "\<forall>log \<in> ran m. length log + n < N" using assms(1) by fastforce
    ultimately show ?thesis
      using Some Req_Append ran_upd_le [of m "\<lambda>log. length log + n < N"] by (simp add: Let_def split: prod.split)
  qed (use assms Req_Append in \<open>fastforce\<close>)
next
  case (Req_Query ts q)
  then show ?thesis using assms by (auto split: option.split)
qed

lemma serve_rel:
  assumes "svc_rel svc m" "req_ok r" "\<forall>log \<in> ran m. length log < 10 ^ 9"
  shows "view_of (fst (hist_serve r svc)) = fst (hist_spec r m) \<and> svc_rel (snd (hist_serve r svc)) (snd (hist_spec r m))"
  using assms serve_get [of svc m] serve_append [of svc m] serve_query [of svc m] by (cases r) (simp_all del: hist_serve.simps hist_spec.simps)

lemma serve_all_rel:
  assumes "svc_rel svc m" "list_all req_ok rs" "\<forall>log \<in> ran m. length log + sum_list (map req_weight rs) < 10 ^ 9"
    "sum_list (map req_weight rs) < 10 ^ 9"
  shows "map view_of (fst (hist_serve_all rs svc)) = fst (hist_spec_all rs m) \<and> svc_rel (snd (hist_serve_all rs svc)) (snd (hist_spec_all rs m))"
  using assms
proof (induction rs arbitrary: svc m)
  case (Cons r rs)
  have l: "\<forall>log \<in> ran m. length log < 10 ^ 9" using Cons.prems(3) by fastforce
  have ok: "req_ok r" "list_all req_ok rs" using Cons.prems(2) by simp_all
  note s = serve_rel [OF Cons.prems(1) ok(1) l]
  have w: "\<forall>log \<in> ran (snd (hist_spec r m)). length log + sum_list (map req_weight rs) < 10 ^ 9"
    by (rule spec_weight) (use Cons.prems(3,4) in \<open>simp_all add: add.assoc\<close>)
  have "sum_list (map req_weight rs) < 10 ^ 9" using Cons.prems(4) by simp
  from Cons.IH [OF conjunct2 [OF s] ok(2) w this] s show ?case
    by (simp add: Let_def case_prod_beta del: hist_serve.simps hist_spec.simps)
qed simp

text \<open>The entry a facility has in the folder, and the others that may be there.\<close>

definition entry_of :: "hist_dev \<Rightarrow> hist_entry" where
  "entry_of dev = \<lparr>he_name = hd_id dev, he_isdir = True, he_index = Some (map Some (hd_index dev)), he_disk = hd_disk dev, he_node_ok = True\<rparr>"

section \<open>Loading facilities\<close>

definition later_dates :: "hist_file list \<Rightarrow> bool" where
  "later_dates fs \<longleftrightarrow> sorted_wrt (\<lambda>f g. timestamp_compare_date (Some (hf_date g)) (Some (hf_date f)) = Some 1) fs"

abbreviation no_href :: "hist_dev \<Rightarrow> hist_dev" where
  "no_href d \<equiv> d\<lparr>hd_href := []\<rparr>"

section \<open>The order of dates\<close>

lemma gmtime_mday:
  assumes "0 \<le> t"
  shows "tm_mday (gmtime t) \<le> month_days (tm_year (gmtime t) + 1900) (tm_mon (gmtime t))"
proof -
  let ?D = "t div 86400"
  have D: "0 \<le> ?D" using assms by (simp add: pos_imp_zdiv_nonneg_iff)
  obtain y yd where y: "find_year (nat ?D) 1970 ?D = (y, yd)" by fastforce
  have ys: "0 \<le> yd" "yd < year_days y" using find_year_spec [OF D _ y] D days_before_year_1970 by auto
  obtain m md where m: "find_month 11 y 0 yd = (m, md)" by fastforce
  have "days_before_month y 0 = 0" by (simp add: days_before_month_def)
  then have "md < month_days y m" using find_month_spec [of 0 11 yd y m md] ys m by simp
  then show ?thesis by (simp add: gmtime_def y m Let_def)
qed

lemma days_before_month_mono:
  assumes "0 \<le> m" "m \<le> n"
  shows "days_before_month y m \<le> days_before_month y n"
  using assms(2)
proof (induction n rule: int_ge_induct)
  case (step n)
  have "0 \<le> month_days y n" by (simp add: month_days_def)
  then show ?case using step days_before_month_Suc [of n y] assms(1) by simp
qed simp

lemma date_less:
  assumes a: "0 \<le> a" and b: "0 \<le> b"
    and lex: "tm_year (gmtime a) < tm_year (gmtime b) \<or> tm_year (gmtime a) = tm_year (gmtime b) \<and>
      (tm_mon (gmtime a) < tm_mon (gmtime b) \<or> tm_mon (gmtime a) = tm_mon (gmtime b) \<and> tm_mday (gmtime a) < tm_mday (gmtime b))"
  shows "a div 86400 < b div 86400"
proof -
  let ?y = "\<lambda>t. tm_year (gmtime t) + 1900" and ?m = "\<lambda>t. tm_mon (gmtime t)" and ?d = "\<lambda>t. tm_mday (gmtime t)"
  have ma: "0 \<le> ?m a" "?m a \<le> 11" "?d a \<le> month_days (?y a) (?m a)" "1 \<le> ?d a" using gmtime_spec [OF a] gmtime_mday [OF a] by simp_all
  have mb: "0 \<le> ?m b" "1 \<le> ?d b" using gmtime_spec [OF b] by simp_all
  have s: "days_before_month (?y a) (?m a) + ?d a \<le> days_before_month (?y a) (?m a + 1)" using days_before_month_Suc [OF ma(1)] ma(3) by simp
  have z: "0 \<le> days_before_month (?y b) (?m b)" using days_before_month_mono [of 0 "?m b"] mb(1) by (simp add: days_before_month_def)
  consider (year) "?y a + 1 \<le> ?y b" | (month) "?y a = ?y b" "?m a + 1 \<le> ?m b" | (day) "?y a = ?y b" "?m a = ?m b" "?d a < ?d b"
    using lex by fastforce
  then show ?thesis
  proof cases
    case year
    have "days_before_month (?y a) (?m a + 1) \<le> year_days (?y a)"
      using days_before_month_mono [of "?m a + 1" 12] ma(1,2) days_before_month_12 by simp
    moreover have "days_before_year (?y a) + year_days (?y a) \<le> days_before_year (?y b)"
      using days_before_year_mono [OF year] days_before_year_Suc [of "?y a"] by simp
    ultimately show ?thesis unfolding day_of [OF a] day_of [OF b] using s z mb(2) by linarith
  next
    case month
    have "days_before_month (?y a) (?m a + 1) \<le> days_before_month (?y a) (?m b)" using days_before_month_mono ma(1) month(2) by simp
    then show ?thesis unfolding day_of [OF a] day_of [OF b] using s month(1) mb(2) by simp
  next
    case day
    then show ?thesis unfolding day_of [OF a] day_of [OF b] by simp
  qed
qed

lemma compare_dates:
  assumes "0 \<le> a" "a < 253402300800" "0 \<le> b" "b < 253402300800" "get_utc_date a = Some da" "get_utc_date b = Some db" "a div 86400 < b div 86400"
  shows "timestamp_compare_date (Some db) (Some da) = Some 1"
proof -
  have d: "da = date_text (gmtime a)" "db = date_text (gmtime b)" using assms get_utc_date_eq by auto
  have "\<not> (tm_year (gmtime b) < tm_year (gmtime a) \<or> tm_year (gmtime b) = tm_year (gmtime a) \<and>
      (tm_mon (gmtime b) < tm_mon (gmtime a) \<or> tm_mon (gmtime b) = tm_mon (gmtime a) \<and> tm_mday (gmtime b) < tm_mday (gmtime a)))"
    using date_less [OF assms(3,1)] assms(7) by linarith
  moreover have "\<not> (tm_year (gmtime b) = tm_year (gmtime a) \<and> tm_mon (gmtime b) = tm_mon (gmtime a) \<and> tm_mday (gmtime b) = tm_mday (gmtime a))"
    using day_of [OF assms(1)] day_of [OF assms(3)] assms(7) by auto
  ultimately show ?thesis
    using date_text_fields [OF gmtime_ok, of a] date_text_fields [OF gmtime_ok, of b] assms(1-4)
    by (auto simp: timestamp_compare_date_def d)
qed

lemma enqueue_last:
  "\<forall>f \<in> set fs. timestamp_compare_date (Some (hf_date new)) (Some (hf_date f)) = Some 1 \<Longrightarrow> hist_enqueue_file new fs = Some (fs @ [new])"
  by (induction fs) auto

lemma load_files:
  assumes "later_dates (hd_files dev @ fs)" "\<forall>f \<in> set fs. read_logfile (hd_disk dev) f \<noteq> None"
  shows "hist_load_files (map Some fs) dev = dev\<lparr>hd_files := hd_files dev @ fs, hd_count := hd_count dev + sum_list (map hf_count fs)\<rparr>"
  using assms
proof (induction fs arbitrary: dev)
  case (Cons f fs)
  have "hist_enqueue_file f (hd_files dev) = Some (hd_files dev @ [f])"
    using Cons.prems(1) by (intro enqueue_last) (simp add: later_dates_def sorted_wrt_append)
  then have c: "hist_create_file dev f False = Some (dev\<lparr>hd_files := hd_files dev @ [f]\<rparr>)"
    using Cons.prems(2) by (simp add: hist_create_file_def)
  show ?case using Cons.IH [of "dev\<lparr>hd_files := hd_files dev @ [f], hd_count := hd_count dev + hf_count f\<rparr>"] Cons.prems c
    by (simp add: add.assoc)
qed simp

lemma file_rel_date: "file_rel disk f g \<Longrightarrow> \<exists>r \<in> set g. get_utc_date (utc (lr_ts r)) = Some (hf_date f)"
  by (cases g) (auto simp: file_rel_def)

lemma rel_later_dates:
  assumes "chronological (concat gs)" "\<forall>r \<in> set (concat gs). rec_ok r" "list_all2 (file_rel disk) fs gs" "distinct (map hf_date fs)"
  shows "later_dates fs"
  using assms(3,1,2,4)
proof (induction rule: list_all2_induct)
  case (Cons f fs g gs)
  have "timestamp_compare_date (Some (hf_date h)) (Some (hf_date f)) = Some 1" if h: "h \<in> set fs" for h
  proof -
    obtain k where k: "k \<in> set gs" "file_rel disk h k"
      using h Cons.hyps(2) by (metis in_set_conv_nth list_all2_conv_all_nth)
    obtain a b where a: "a \<in> set g" "get_utc_date (utc (lr_ts a)) = Some (hf_date f)" and b: "b \<in> set k" "get_utc_date (utc (lr_ts b)) = Some (hf_date h)"
      using file_rel_date [OF Cons.hyps(1)] file_rel_date [OF k(2)] by blast
    have ab: "rec_ok a" "rec_ok b" "utc (lr_ts a) < utc (lr_ts b)"
      using Cons.prems(1,2) a(1) b(1) k(1) by (auto simp: chronological_append)
    have "hf_date f \<noteq> hf_date h" using Cons.prems(3) h by (auto simp: image_iff)
    then have "utc (lr_ts a) div 86400 \<noteq> utc (lr_ts b) div 86400"
      using date_eq_iff [of "utc (lr_ts a)" "utc (lr_ts b)"] a(2) b(2) ab(1,2) by (auto simp: rec_ok_def)
    moreover have "utc (lr_ts a) div 86400 \<le> utc (lr_ts b) div 86400" using ab(3) by (simp add: zdiv_mono1)
    ultimately show ?thesis using compare_dates [OF _ _ _ _ a(2) b(2)] ab(1,2) by (simp add: rec_ok_def)
  qed
  moreover have "later_dates fs" using Cons.IH Cons.prems by (simp add: chronological_append)
  ultimately show ?case by (simp add: later_dates_def)
qed (simp add: later_dates_def)

lemma fac_rel_href [simp]: "fac_rel (dev\<lparr>hd_href := h\<rparr>) log = fac_rel dev log"
  by (simp add: fac_rel_def hist_rel_def)

lemma reload_dev:
  assumes "fac_rel dev log"
  shows "hist_create_dev True (hd_id dev) h (Some (map Some (hd_index dev))) (hd_disk dev) False ds = Some (hist_enqueue_dev (dev\<lparr>hd_href := h\<rparr>) ds)"
proof -
  obtain gs where gs: "log = concat gs" "list_all2 (file_rel (hd_disk dev)) (hd_files dev) gs" and i: "hd_index dev = hd_files dev"
    and c: "chronological log" "\<forall>r \<in> set log. rec_ok r" "hd_count dev = int (length log)" "distinct (map hf_date (hd_files dev))"
    using assms by (auto simp: fac_rel_def hist_rel_def)
  have "sum_list (map hf_count (hd_files dev)) = int (length (concat gs))"
    using gs(2) by (induction rule: list_all2_induct) (auto simp: file_rel_def)
  then have n: "sum_list (map hf_count (hd_files dev)) = hd_count dev" using gs(1) c(3) by simp
  have l: "later_dates (hd_files dev)" using rel_later_dates c gs by blast
  have r: "\<forall>f \<in> set (hd_files dev). read_logfile (hd_disk dev) f \<noteq> None"
    using gs(2) by (induction rule: list_all2_induct) (auto simp: file_read)
  define d0 where "d0 = \<lparr>hd_count = 0, hd_id = hd_id dev, hd_href = h, hd_files = [], hd_disk = hd_disk dev, hd_index = hd_files dev\<rparr>"
  have "[n. Some n \<leftarrow> map Some xs] = xs" for xs :: "hist_file list" by (induction xs) simp_all
  then have "hist_create_dev True (hd_id dev) h (Some (map Some (hd_index dev))) (hd_disk dev) False ds =
      Some (hist_enqueue_dev (hist_load_files (map Some (hd_files dev)) d0) ds)"
    by (simp add: hist_create_dev_def i d0_def)
  also have "hist_load_files (map Some (hd_files dev)) d0 = d0\<lparr>hd_files := hd_files dev, hd_count := hd_count dev\<rparr>"
    using load_files [of d0 "hd_files dev"] l r n by (simp add: d0_def)
  also have "\<dots> = dev\<lparr>hd_href := h\<rparr>" using i by (simp add: d0_def)
  finally show ?thesis .
qed

lemma load_entry:
  assumes "fac_rel dev log" "name_ok ts" "hd_id dev = join ''.'' ts"
  shows "\<exists>h. hist_load_dev (entry_of dev) ds = (0, hist_enqueue_dev (dev\<lparr>hd_href := h\<rparr>) ds)"
proof -
  have s: "segments ts" "hd_id dev \<notin> other_names" using assms(2,3) by (simp_all add: name_ok_def)
  then have "ts \<noteq> []" "str_tokens ''.'' (hd_id dev) = ts" using tokens_join [OF words_mono [OF s(1)], of "CHR ''.''"] assms(3) by (simp_all add: words_def)
  then have "for_each_str_token True ''.'' (hd_id dev) hist_get_href None = (0, Some (join ''/'' ts))" by (simp add: href_tokens)
  moreover have "is_skipped_dir (hd_id dev) \<noteq> 1" using s(2) by (simp add: is_skipped_dir_def other_names_def)
  ultimately show ?thesis
    using reload_dev [OF assms(1), of _ ds] by (auto simp: hist_load_dev_def entry_of_def Let_def)
qed

lemma load_other: "he_name e \<in> other_names \<Longrightarrow> hist_load_all (e # es) ds = hist_load_all es ds"
  by (auto simp: other_names_def hist_load_dev_def is_skipped_dir_def)

lemma load_all:
  assumes "\<forall>d \<in> set devs. \<exists>log ts. fac_rel d log \<and> name_ok ts \<and> hd_id d = join ''.'' ts"
    "filter (\<lambda>e. he_name e \<notin> other_names) es = map entry_of devs" "sorted (map (\<lambda>d. length (hd_id d)) ds0)"
  shows "\<exists>ds. hist_load_all es ds0 = (0, ds) \<and> sorted (map (\<lambda>d. length (hd_id d)) ds) \<and>
    mset (map no_href ds) = mset (map no_href ds0) + mset (map no_href devs)"
  using assms
proof (induction es arbitrary: devs ds0)
  case (Cons e es)
  show ?case
  proof (cases "he_name e \<in> other_names")
    case True
    then show ?thesis using Cons.IH [OF Cons.prems(1) _ Cons.prems(3)] Cons.prems(2) load_other by simp
  next
    case False
    then obtain d devs' where d: "devs = d # devs'" "e = entry_of d" "filter (\<lambda>e. he_name e \<notin> other_names) es = map entry_of devs'"
      using Cons.prems(2) by (cases devs) auto
    obtain log ts where l: "fac_rel d log" "name_ok ts" "hd_id d = join ''.'' ts" using Cons.prems(1) d(1) by auto
    obtain h where h: "hist_load_dev e ds0 = (0, hist_enqueue_dev (d\<lparr>hd_href := h\<rparr>) ds0)" using load_entry [OF l] d(2) by blast
    have "he_name e \<noteq> ''.''" "he_name e \<noteq> ''..''" using False by (auto simp: other_names_def)
    then have e: "hist_load_all (e # es) ds0 = hist_load_all es (hist_enqueue_dev (d\<lparr>hd_href := h\<rparr>) ds0)" using h by simp
    have "\<forall>x \<in> set devs'. \<exists>log ts. fac_rel x log \<and> name_ok ts \<and> hd_id x = join ''.'' ts" using Cons.prems(1) d(1) by simp
    from Cons.IH [OF this d(3) enqueue_dev(2) [OF Cons.prems(3)], of "d\<lparr>hd_href := h\<rparr>"] obtain ds where
      "hist_load_all es (hist_enqueue_dev (d\<lparr>hd_href := h\<rparr>) ds0) = (0, ds)" "sorted (map (\<lambda>d. length (hd_id d)) ds)"
      "mset (map no_href ds) = mset (map no_href (hist_enqueue_dev (d\<lparr>hd_href := h\<rparr>) ds0)) + mset (map no_href devs')" by blast
    then show ?thesis using e d(1) enqueue_dev(1) [of "d\<lparr>hd_href := h\<rparr>" ds0] by simp
  qed
qed simp

lemma table_rel_no_href: "hs.table_rel (map no_href ds) m = hs.table_rel ds m"
proof -
  have "hd_id \<circ> no_href = hd_id" by (simp add: fun_eq_iff)
  then show ?thesis unfolding hs.table_rel_def by (simp add: image_image)
qed

lemma table_rel_mset: "mset xs = mset ys \<Longrightarrow> hs.table_rel xs m \<Longrightarrow> hs.table_rel ys m"
  unfolding hs.table_rel_def using mset_eq_imp_distinct_iff [of "map hd_id xs" "map hd_id ys"] mset_eq_setD [of xs ys] by simp

lemma restart_rel:
  assumes "svc_rel svc m" "mset devs = mset (hs_devices svc)" "filter (\<lambda>e. he_name e \<notin> other_names) es = map entry_of devs" "bufs_ok bufs"
  shows "\<exists>svc'. obix_hist_init bufs es = Inr svc' \<and> svc_rel svc' m"
proof -
  have t: "hs.table_rel devs m" using table_rel_mset [OF assms(2) [symmetric]] assms(1) by (simp add: svc_rel_def)
  have "\<exists>log ts. fac_rel d log \<and> name_ok ts \<and> hd_id d = join ''.'' ts" if d: "d \<in> set devs" for d
  proof -
    obtain log where log: "m (hd_id d) = Some log" "fac_rel d log" using t d unfolding hs.table_rel_def by blast
    have "\<forall>i \<in> dom m. \<exists>ts. name_ok ts \<and> i = join ''.'' ts" using assms(1) by (simp add: svc_rel_def)
    moreover have "hd_id d \<in> dom m" using log(1) by (rule domI)
    ultimately show ?thesis using log(2) by blast
  qed
  then obtain ds where ds: "hist_load_all es [] = (0, ds)" "sorted (map (\<lambda>d. length (hd_id d)) ds)" "mset (map no_href ds) = mset (map no_href devs)"
    using load_all [OF _ assms(3), of "[]"] by auto
  have t': "hs.table_rel ds m" using table_rel_mset [OF ds(3) [symmetric]] t by (simp only: table_rel_no_href)
  have dm: "dom m = hd_id ` set devs" using t by (simp add: hs.table_rel_def)
  have "he_name ` set (filter (\<lambda>e. he_name e \<notin> other_names) es) = hd_id ` set devs"
    unfolding assms(3) by (simp add: image_image entry_of_def)
  then have "dom m \<subseteq> he_name ` set es" "he_name ` set es \<subseteq> other_names \<union> dom m" using dm by auto
  then have "svc_rel \<lparr>hs_devices = ds, hs_names = map he_name es, hs_bufs = bufs\<rparr> m"
    using ds(2) t' assms(1,4) unfolding svc_rel_def by simp
  then show ?thesis using ds(1) by (simp add: obix_hist_init_def)
qed

definition ex_reqs :: "hist_req list" where
  "ex_reqs = [Req_Get [''M1'', ''DH4''], Req_Append [''M1'', ''DH4''] (zip (map (ex_cand env_ok) (map lr_ts ex_log)) (map Some ex_log)),
     Req_Query [''M1'', ''DH4''] \<lparr>qi_start = Some ''2015-03-01T10:30:00Z'', qi_end = None, qi_limit = 5\<rparr>, Req_Query [''M1''] (no_query\<lparr>qi_limit := 1\<rparr>)]"

definition empty_svc :: hist_svc where
  "empty_svc = \<lparr>hs_devices = [], hs_names = [''lost+found''], hs_bufs = no_bufs\<rparr>"

lemma svc_rel_empty: "svc_rel empty_svc Map.empty"
  by (simp add: svc_rel_def empty_svc_def hs.table_rel_def bufs_ok_def no_bufs_def other_names_def)

lemma ex_reqs_ok: "list_all req_ok ex_reqs"
proof -
  have n: "name_ok [''M1'', ''DH4'']" "name_ok [''M1'']" by (simp_all add: name_ok_def words_def other_names_def)
  have p: "path_ok [''M1'', ''DH4''] HIST_OP_APPEND" "path_ok [''M1'', ''DH4''] HIST_OP_QUERY" "path_ok [''M1''] HIST_OP_QUERY"
    using n by (simp_all add: path_ok_def HIST_OP_APPEND_def HIST_OP_QUERY_def)
  have a: "append_ok (zip (map (ex_cand env_ok) (map lr_ts ex_log)) (map Some ex_log))"
    using ex_log_cand by (auto simp: append_ok_def list_all2_iff ex_log_def)
  have q: "query_valid (no_query\<lparr>qi_limit := 1\<rparr>)" by (simp add: query_valid_def no_query_def)
  show ?thesis using n(1) p a q query_ex by (simp add: ex_reqs_def)
qed

section \<open>Searching\<close>

lemma search_youngest:
  assumes "sorted (map (\<lambda>d. length (hd_id d)) ds)" "hist_search ds href = Some dev"
  shows "dev \<in> set ds \<and> strstr (hd_href dev) href \<noteq> None \<and>
    (\<forall>d \<in> set ds. strstr (hd_href d) href \<noteq> None \<longrightarrow> length (hd_id d) \<le> length (hd_id dev))"
proof -
  let ?P = "\<lambda>dev. strstr (hd_href dev) href \<noteq> None"
  have f: "find ?P (rev ds) = Some dev" using assms(2) by (simp add: hist_search_def split: if_splits)
  then obtain i where i: "i < length ds" "?P (rev ds ! i)" "dev = rev ds ! i" "\<forall>j < i. \<not> ?P (rev ds ! j)"
    by (auto simp: find_Some_iff)
  have "length (hd_id d) \<le> length (hd_id dev)" if d: "d \<in> set ds" "?P d" for d
  proof -
    obtain k where k: "k < length ds" "d = rev ds ! k" using d(1) by (metis in_set_conv_nth length_rev set_rev)
    then have "i \<le> k" using i(4) d(2) by (metis not_le)
    then show ?thesis using sorted_nth_mono [OF assms(1), of "length ds - Suc k" "length ds - Suc i"] k i(1,3) by (simp add: rev_nth)
  qed
  moreover have "dev \<in> set ds" using i(1,3) by (metis length_rev nth_mem set_rev)
  ultimately show ?thesis using i(2,3) by auto
qed

lemma serve_order: "svc_rel svc m \<Longrightarrow> sorted (map (\<lambda>d. length (hd_id d)) (hs_devices svc))"
  by (simp add: svc_rel_def)

lemma tokens_all_delim: "set s \<subseteq> {d} \<Longrightarrow> str_tokens [d] s = []"
  by (induction s) (auto simp: str_tokens_delim)

lemma slashes_no_id:
  assumes "set u \<subseteq> {CHR ''/''}"
  shows "hist_get_dev_id True u None = Inl ERR_NO_MEM"
proof -
  have "\<not> strncmp_eq u OBIX_HISTORY_LOBBY OBIX_HISTORY_LOBBY_LEN"
  proof
    assume "strncmp_eq u OBIX_HISTORY_LOBBY OBIX_HISTORY_LOBBY_LEN"
    then have "take OBIX_HISTORY_LOBBY_LEN u = OBIX_HISTORY_LOBBY" by (simp add: strncmp_eq_def lobby_len)
    then have "set OBIX_HISTORY_LOBBY \<subseteq> set u" by (metis set_take_subset)
    moreover have "CHR ''o'' \<in> set OBIX_HISTORY_LOBBY" by (simp add: OBIX_HISTORY_LOBBY_def)
    ultimately show False using assms by auto
  qed
  moreover have "set (strndup u n) \<subseteq> {CHR ''/''}" for n using assms set_take_subset [of "nat n" u] by (auto simp: strndup_def)
  ultimately show ?thesis by (simp add: hist_get_dev_id_def dev_id_tokens tokens_all_delim)
qed

lemma backend_fails:
  assumes "env \<noteq> Backend_Ok \<or> i \<in> set names"
  shows "\<exists>e. hist_create_backend env names i = (e, names) \<and> e \<in> {ERR_NO_MEM, ERR_DISK_IO}"
  using assms by (cases env) (simp_all add: hist_create_backend_def)

lemma create_allowed:
  assumes "s \<noteq> None"
  shows "se_lookup s (Some OBIX_ID_HISTORY) OP_HISTORY_CREATE = 1"
  using assms by (auto simp: se_lookup_def OP_HISTORY_CREATE_def OP_DEVICE_REMOVE_def OP_DEVICE_DELETE_def OP_WATCH_DELETE_def)

section \<open>Properties\<close>



text \<open>
  C5: a restart loses nothing.  Whatever order the folder is read in, loading the facilities
  from their index and log files gives a service that stands for the same map of logs.
\<close>

theorem history_restart_roundtrip:
  assumes "svc_rel svc m" "mset devs = mset (hs_devices svc)" "filter (\<lambda>e. he_name e \<notin> other_names) es = map entry_of devs" "bufs_ok bufs"
  shows "\<exists>svc'. obix_hist_init bufs es = Inr svc' \<and> svc_rel svc' m"
  by (rule restart_rel [OF assms])

theorem history_restart_roundtrip_witness:
  "\<exists>svc'. obix_hist_init no_bufs (map entry_of (rev (hs_devices (snd (hist_serve_all ex_reqs empty_svc))))) = Inr svc' \<and>
     svc_rel svc' (snd (hist_spec_all ex_reqs Map.empty))"
proof -
  have r: "svc_rel (snd (hist_serve_all ex_reqs empty_svc)) (snd (hist_spec_all ex_reqs Map.empty))" (is "svc_rel ?s ?m")
    using serve_all_rel [OF svc_rel_empty ex_reqs_ok] by (simp add: ex_reqs_def ex_log_def)
  have "he_name (entry_of d) \<notin> other_names" if "d \<in> set (hs_devices ?s)" for d
  proof -
    have "hd_id d \<in> dom ?m" using r that by (simp add: svc_rel_def hs.table_rel_def)
    then obtain ts where "name_ok ts" "hd_id d = join ''.'' ts" using r unfolding svc_rel_def by blast
    then show ?thesis by (simp add: name_ok_def entry_of_def)
  qed
  then have f: "filter (\<lambda>e. he_name e \<notin> other_names) (map entry_of (rev (hs_devices ?s))) = map entry_of (rev (hs_devices ?s))"
    by (auto simp: filter_id_conv)
  have "bufs_ok no_bufs" by (simp add: bufs_ok_def no_bufs_def)
  from history_restart_roundtrip [OF r _ f this] show ?thesis by simp
qed

text \<open>
  C35: names and URIs.  The ID in the URI of an append or query request is the one under
  which \<open>History.Get\<close> made the facility, and different paths have different IDs, for paths
  whose segments have no dots and in which the name of the operation does not occur.
\<close>

theorem hist_dev_id_roundtrip:
  assumes "path_ok ts op" "segments us"
  shows "hist_get_dev_id True (hist_uri ts op) (Some op) = hist_get_dev_id True (join ''/'' ts) None \<and>
    (hist_get_dev_id True (join ''/'' us) None = hist_get_dev_id True (join ''/'' ts) None \<longleftrightarrow> us = ts)"
proof -
  have s: "segments ts" "strstr op (join ''/'' ts @ ''/'' @ op) = Some op" using assms(1) by (simp_all add: path_ok_def name_ok_def)
  show ?thesis
    using dev_id_uri [OF s] dev_id_contract [OF s(1) segments_not_lobby [OF s(1)]]
      dev_id_contract [OF assms(2) segments_not_lobby [OF assms(2)]] dev_id_inj [OF assms(2) s(1)] by (simp add: hist_uri_def)
qed

theorem hist_dev_id_roundtrip_witness:
  "hist_get_dev_id True ''/obix/historyService/histories/M1/DH4/query'' (Some HIST_OP_QUERY) = hist_get_dev_id True ''M1/DH4'' None"
proof -
  have "path_ok [''M1'', ''DH4''] HIST_OP_QUERY" "segments [''M1'']"
    by (simp_all add: path_ok_def name_ok_def words_def other_names_def HIST_OP_QUERY_def)
  from hist_dev_id_roundtrip [OF this] show ?thesis by (simp add: hist_uri_def OBIX_HISTORY_LOBBY_def HIST_OP_QUERY_def)
qed

text \<open>
  C36: the errors of \<open>History.Get\<close>.  A request without requester ID, without device ID, with one
  that has no segment, for a new facility whose folder cannot be made or is there already,
  gets its error, and no facility is made or changed.
\<close>

theorem history_get_errors:
  "handlerHistoryGet (env\<lparr>ge_requester := None\<rparr>) i svc = (Reply_Error ERR_NO_REQUESTER_ID, svc) \<and>
   (ge_requester env \<noteq> None \<longrightarrow>
     handlerHistoryGet env None svc = (Reply_Error ERR_INVALID_INPUT, svc) \<and>
     (set u \<subseteq> {CHR ''/''} \<longrightarrow> handlerHistoryGet env (Some u) svc = (Reply_Error ERR_HISTORY_DEVID, svc)) \<and>
     (segments ts \<and> hist_find_device (hs_devices svc) (Some (join ''.'' ts)) = None \<and> ge_mem_ok env \<and>
        (ge_backend env \<noteq> Backend_Ok \<or> join ''.'' ts \<in> set (hs_names svc)) \<longrightarrow>
        (\<exists>e. e \<in> {ERR_NO_MEM, ERR_DISK_IO} \<and> handlerHistoryGet env (Some (join ''/'' ts)) svc = (Reply_Error e, svc))))"
proof (intro conjI impI)
  show "handlerHistoryGet (env\<lparr>ge_requester := None\<rparr>) i svc = (Reply_Error ERR_NO_REQUESTER_ID, svc)" by (simp add: handlerHistoryGet_def)
  assume r: "ge_requester env \<noteq> None"
  then show "handlerHistoryGet env None svc = (Reply_Error ERR_INVALID_INPUT, svc)" by (simp add: handlerHistoryGet_def)
  show "handlerHistoryGet env (Some u) svc = (Reply_Error ERR_HISTORY_DEVID, svc)" if "set u \<subseteq> {CHR ''/''}"
    using r slashes_no_id [OF that] by (simp add: handlerHistoryGet_def)
  assume a: "segments ts \<and> hist_find_device (hs_devices svc) (Some (join ''.'' ts)) = None \<and> ge_mem_ok env \<and>
        (ge_backend env \<noteq> Backend_Ok \<or> join ''.'' ts \<in> set (hs_names svc))"
  then have id: "hist_get_dev_id True (join ''/'' ts) None = Inr (join ''.'' ts)"
    using dev_id_contract segments_not_lobby by blast
  have "link_pathname True (Some OBIX_HISTORY_LOBBY) None (Some (join ''/'' ts)) None =
      (0, Some (link_buf OBIX_HISTORY_LOBBY None (Some (join ''/'' ts)) None))"
    by (simp add: link_pathname_def OBIX_HISTORY_LOBBY_def)
  moreover obtain e where "hist_create_backend (ge_backend env) (hs_names svc) (join ''.'' ts) = (e, hs_names svc)" "e \<in> {ERR_NO_MEM, ERR_DISK_IO}"
    using backend_fails a by blast
  moreover have "se_lookup (ge_requester env) (Some OBIX_ID_HISTORY) OP_HISTORY_CREATE = 1" using r by (rule create_allowed)
  ultimately show "\<exists>e. e \<in> {ERR_NO_MEM, ERR_DISK_IO} \<and> handlerHistoryGet env (Some (join ''/'' ts)) svc = (Reply_Error e, svc)"
    using r a id by (auto simp: handlerHistoryGet_def)
qed

theorem history_get_errors_witness:
  "handlerHistoryGet (client_env\<lparr>ge_backend := Creat_Fails True\<rparr>) (Some ''M1'') empty_svc \<in> {Reply_Error ERR_NO_MEM, Reply_Error ERR_DISK_IO} \<times> {empty_svc} \<and>
   handlerHistoryGet client_env (Some ''/'') empty_svc = (Reply_Error ERR_HISTORY_DEVID, empty_svc)"
proof -
  have "segments [''M1'']" by (simp add: words_def)
  then show ?thesis
    using history_get_errors [of "client_env\<lparr>ge_backend := Creat_Fails True\<rparr>" None empty_svc "''/''" "[''M1'']"]
      history_get_errors [of client_env None empty_svc "''/''" "[''M1'']"]
    by (auto simp: client_env_def empty_svc_def)
qed



end
