(* ===== verification/Obix_Xml.thy ===== *)
theory Obix_Xml
  imports Obix_Strings Obix_Errmsg
begin

text \<open>
  Nodes of XML documents, from \<open>src/src/libs/xml_utils.c\<close>: finding children, attributes,
  traversing, copying, and references.

  An \<open>xmlNode\<close> is what the code reads of it: its type, its name, its attributes and its
  children in their order; pointers into a tree are paths of child indices.  Attributes and
  the calls of libxml2 that read and change them are a parameter, \<open>xml_lib\<close>; \<open>lib_ok\<close> is what
  the documentation of libxml2 says about them.
\<close>

section \<open>Nodes\<close>

datatype xtype = XML_ELEMENT_NODE | XML_TEXT_NODE | XML_COMMENT_NODE

datatype 'a xnode = XNode (x_type: xtype) (x_name: cstr) (x_attrs: 'a) (x_children: "'a xnode list")

text \<open>
  \<open>xmlGetProp\<close>, \<open>xmlSetProp\<close> and \<open>xmlUnsetProp\<close> on the attributes of a node, the attributes of
  a new one, \<open>xmlAddChild\<close>, and \<open>xmlCopyNode\<close> with argument 2.
\<close>

record 'a xml_lib =
  xmlGetProp :: "'a \<Rightarrow> cstr \<Rightarrow> cstr option"
  xmlSetProp :: "'a \<Rightarrow> cstr \<Rightarrow> cstr \<Rightarrow> 'a"
  xmlUnsetProp :: "'a \<Rightarrow> cstr \<Rightarrow> 'a"
  xmlNoProp :: 'a
  xmlAddChild :: "'a xnode \<Rightarrow> 'a xnode \<Rightarrow> 'a xnode"
  xmlCopyNode2 :: "'a xnode \<Rightarrow> 'a xnode"

definition lib_ok :: "'a xml_lib \<Rightarrow> bool" where
  "lib_ok L \<longleftrightarrow>
     (\<forall>k. xmlGetProp L (xmlNoProp L) k = None) \<and>
     (\<forall>a k v j. xmlGetProp L (xmlSetProp L a k v) j = (if j = k then Some v else xmlGetProp L a j)) \<and>
     (\<forall>a k j. xmlGetProp L (xmlUnsetProp L a k) j = (if j = k then None else xmlGetProp L a j)) \<and>
     (\<forall>p n. x_type n \<noteq> XML_TEXT_NODE \<longrightarrow> xmlAddChild L p n = XNode (x_type p) (x_name p) (x_attrs p) (x_children p @ [n])) \<and>
     (\<forall>n. xmlCopyNode2 L n = XNode (x_type n) (x_name n) (x_attrs n) [])"

definition OBIX_OBJ :: cstr where "OBIX_OBJ = ''obj''"
definition OBIX_OBJ_REF :: cstr where "OBIX_OBJ_REF = ''ref''"
definition OBIX_OBJ_OP :: cstr where "OBIX_OBJ_OP = ''op''"
definition OBIX_OBJ_META :: cstr where "OBIX_OBJ_META = ''meta''"
definition OBIX_ATTR_NAME :: cstr where "OBIX_ATTR_NAME = ''name''"
definition OBIX_ATTR_HREF :: cstr where "OBIX_ATTR_HREF = ''href''"
definition OBIX_ATTR_VAL :: cstr where "OBIX_ATTR_VAL = ''val''"
definition OBIX_ATTR_NULL :: cstr where "OBIX_ATTR_NULL = ''null''"
definition OBIX_ATTR_IS :: cstr where "OBIX_ATTR_IS = ''is''"
definition OBIX_ATTR_DISPLAY :: cstr where "OBIX_ATTR_DISPLAY = ''display''"
definition OBIX_ATTR_DISPLAY_NAME :: cstr where "OBIX_ATTR_DISPLAY_NAME = ''displayName''"
definition OBIX_ATTR_HIDDEN :: cstr where "OBIX_ATTR_HIDDEN = ''hidden''"
definition OBIX_META_ATTR_OP :: cstr where "OBIX_META_ATTR_OP = ''op''"
definition XML_TRUE :: cstr where "XML_TRUE = ''true''"

abbreviation xprop :: "'a xml_lib \<Rightarrow> 'a xnode \<Rightarrow> cstr \<Rightarrow> cstr option" where
  "xprop L n \<equiv> xmlGetProp L (x_attrs n)"

definition set_prop :: "'a xml_lib \<Rightarrow> 'a xnode \<Rightarrow> cstr \<Rightarrow> cstr \<Rightarrow> 'a xnode" where
  "set_prop L n k v = XNode (x_type n) (x_name n) (xmlSetProp L (x_attrs n) k v) (x_children n)"

section \<open>Reading\<close>

definition xml_attr_true :: "'a xml_lib \<Rightarrow> 'a xnode \<Rightarrow> cstr \<Rightarrow> int" where
  "xml_attr_true L node attr = (case xprop L node attr of None \<Rightarrow> 0 | Some p \<Rightarrow> if p = XML_TRUE then 1 else 0)"

definition xml_is_hidden :: "'a xml_lib \<Rightarrow> 'a xnode \<Rightarrow> int" where
  "xml_is_hidden L node = xml_attr_true L node OBIX_ATTR_HIDDEN"

definition xml_is_null :: "'a xml_lib \<Rightarrow> 'a xnode \<Rightarrow> int" where
  "xml_is_null L node = xml_attr_true L node OBIX_ATTR_NULL"

text \<open>The loop of \<open>xml_find_child\<close>, from the child with index \<open>i\<close> on.\<close>

fun find_child_loop :: "'a xml_lib \<Rightarrow> cstr option \<Rightarrow> cstr option \<Rightarrow> cstr option \<Rightarrow> nat \<Rightarrow> 'a xnode list \<Rightarrow> nat option" where
  "find_child_loop L tag attr val i [] = None"
| "find_child_loop L tag attr val i (node # ns) =
     (if x_type node \<noteq> XML_ELEMENT_NODE then find_child_loop L tag attr val (Suc i) ns
      else if tag \<noteq> None \<and> x_name node \<noteq> the tag then find_child_loop L tag attr val (Suc i) ns
      else case attr of
             None \<Rightarrow> Some i
           | Some a \<Rightarrow>
               (case xprop L node a of
                  None \<Rightarrow> find_child_loop L tag attr val (Suc i) ns
                | Some v \<Rightarrow>
                    if val = None then Some i
                    else if v = the val then Some i
                    else find_child_loop L tag attr val (Suc i) ns))"

definition xml_find_child :: "'a xml_lib \<Rightarrow> 'a xnode \<Rightarrow> cstr option \<Rightarrow> cstr option \<Rightarrow> cstr option \<Rightarrow> nat option" where
  "xml_find_child L parent tag attr val =
     (if attr = None \<and> tag = None then None else find_child_loop L tag attr val 0 (x_children parent))"

definition xml_get_long :: "'a xml_lib \<Rightarrow> 'a xnode \<Rightarrow> cstr \<Rightarrow> int" where
  "xml_get_long L node attr =
     (case xprop L node attr of
        None \<Rightarrow> - 1
      | Some v \<Rightarrow> let (ret, val) = str_to_long v in if ret = 0 then val else ret)"

definition xml_get_child_href :: "'a xml_lib \<Rightarrow> 'a xnode \<Rightarrow> cstr \<Rightarrow> cstr \<Rightarrow> cstr option" where
  "xml_get_child_href L parent tag name_val =
     (case xml_find_child L parent (Some tag) (Some OBIX_ATTR_NAME) (Some name_val) of
        None \<Rightarrow> None
      | Some i \<Rightarrow> xprop L (x_children parent ! i) OBIX_ATTR_HREF)"

definition xml_get_child_val :: "'a xml_lib \<Rightarrow> 'a xnode \<Rightarrow> cstr \<Rightarrow> cstr option \<Rightarrow> cstr option" where
  "xml_get_child_val L parent tag name_val =
     (case (case name_val of
              Some v \<Rightarrow> xml_find_child L parent (Some tag) (Some OBIX_ATTR_NAME) (Some v)
            | None \<Rightarrow> xml_find_child L parent (Some tag) None None) of
        None \<Rightarrow> None
      | Some i \<Rightarrow> xprop L (x_children parent ! i) OBIX_ATTR_VAL)"

definition xml_get_child_long :: "'a xml_lib \<Rightarrow> 'a xnode \<Rightarrow> cstr \<Rightarrow> cstr option \<Rightarrow> int" where
  "xml_get_child_long L parent tag name_val =
     (case xml_get_child_val L parent tag name_val of
        None \<Rightarrow> - 1
      | Some v \<Rightarrow> let (ret, l) = str_to_long v in if ret = 0 then l else ret)"

section \<open>Making, traversing and copying\<close>

definition xmlNewNode :: "'a xml_lib \<Rightarrow> cstr \<Rightarrow> 'a xnode" where
  "xmlNewNode L name = XNode XML_ELEMENT_NODE name (xmlNoProp L) []"

definition obix_obj_null :: "'a xml_lib \<Rightarrow> cstr option \<Rightarrow> 'a xnode" where
  "obix_obj_null L href =
     (let n = xmlNewNode L OBIX_OBJ;
          n = (case href of None \<Rightarrow> n | Some h \<Rightarrow> set_prop L n OBIX_ATTR_HREF h)
      in set_prop L n OBIX_ATTR_NULL XML_TRUE)"

fun copy_props :: "'a xml_lib \<Rightarrow> 'a xnode \<Rightarrow> cstr list \<Rightarrow> 'a xnode \<Rightarrow> 'a xnode" where
  "copy_props L src [] ref = ref"
| "copy_props L src (k # ks) ref =
     copy_props L src ks (case xprop L src k of None \<Rightarrow> ref | Some v \<Rightarrow> set_prop L ref k v)"

definition xml_create_ref_node :: "'a xml_lib \<Rightarrow> 'a xnode \<Rightarrow> cstr \<Rightarrow> 'a xnode" where
  "xml_create_ref_node L src href =
     copy_props L src [OBIX_ATTR_NAME, OBIX_ATTR_DISPLAY, OBIX_ATTR_DISPLAY_NAME, OBIX_ATTR_IS]
       (set_prop L (xmlNewNode L OBIX_OBJ_REF) OBIX_ATTR_HREF href)"

text \<open>
  \<open>xml_for_each_node_type\<close> with a callback that may change the attributes of the node or delete
  it (\<open>None\<close>); its return value is 0 or negative, and a negative one ends the traversal.  The second function is the loop over
  the siblings.  Where the type does not match, neither the node nor its children are visited.
\<close>

fun each_node :: "xtype option \<Rightarrow> ('a xnode \<Rightarrow> int \<times> 'a option) \<Rightarrow> 'a xnode \<Rightarrow> int \<times> 'a xnode option"
  and each_sibling :: "xtype option \<Rightarrow> ('a xnode \<Rightarrow> int \<times> 'a option) \<Rightarrow> 'a xnode list \<Rightarrow> int \<times> 'a xnode list" where
  "each_node type cb (XNode t n a cs) =
     (if type \<noteq> None \<and> t \<noteq> the type then (0, Some (XNode t n a cs))
      else let (ret, r) = cb (XNode t n a cs) in
           if ret < 0 then (ret, map_option (\<lambda>a'. XNode t n a' cs) r)
           else case r of
                  None \<Rightarrow> (ret, None)
                | Some a' \<Rightarrow> let (ret', cs') = each_sibling type cb cs in (ret', Some (XNode t n a' cs')))"
| "each_sibling type cb [] = (0, [])"
| "each_sibling type cb (c # cs) =
     (let (ret, r) = each_node type cb c; keep = (case r of None \<Rightarrow> [] | Some c' \<Rightarrow> [c']) in
      if ret < 0 then (ret, keep @ cs)
      else let (ret', cs') = each_sibling type cb cs in (ret', keep @ cs'))"

definition xml_for_each_element :: "('a xnode \<Rightarrow> int \<times> 'a option) \<Rightarrow> 'a xnode \<Rightarrow> int \<times> 'a xnode option" where
  "xml_for_each_element cb node = each_node (Some XML_ELEMENT_NODE) cb node"

definition xml_for_each_comment :: "('a xnode \<Rightarrow> int \<times> 'a option) \<Rightarrow> 'a xnode \<Rightarrow> int \<times> 'a xnode option" where
  "xml_for_each_comment cb node = each_node (Some XML_COMMENT_NODE) cb node"

record copy_flags =
  exclude_hidden :: bool
  exclude_meta :: bool
  exclude_comments :: bool

definition excluded :: "'a xml_lib \<Rightarrow> copy_flags \<Rightarrow> 'a xnode \<Rightarrow> bool" where
  "excluded L flags src \<longleftrightarrow>
     exclude_hidden flags \<and> xml_is_hidden L src = 1 \<or> exclude_meta flags \<and> x_name src = OBIX_OBJ_META \<or>
     exclude_comments flags \<and> x_type src = XML_COMMENT_NODE"

text \<open>\<open>xml_copy_r\<close> and its loop over the children, which are visited with a positive depth.\<close>

fun xml_copy_r :: "'a xml_lib \<Rightarrow> copy_flags \<Rightarrow> nat \<Rightarrow> 'a xnode \<Rightarrow> 'a xnode option"
  and copy_children :: "'a xml_lib \<Rightarrow> copy_flags \<Rightarrow> nat \<Rightarrow> 'a xnode list \<Rightarrow> 'a xnode \<Rightarrow> 'a xnode" where
  "xml_copy_r L flags depth (XNode t n a cs) =
     (if depth > 0 \<and> excluded L flags (XNode t n a cs) then None
      else Some (copy_children L flags (Suc depth) cs (xmlCopyNode2 L (XNode t n a cs))))"
| "copy_children L flags depth [] root = root"
| "copy_children L flags depth (c # cs) root =
     copy_children L flags (Suc depth) cs
       (case xml_copy_r L flags depth c of None \<Rightarrow> root | Some c' \<Rightarrow> xmlAddChild L root c')"

definition xml_copy :: "'a xml_lib \<Rightarrow> copy_flags \<Rightarrow> 'a xnode \<Rightarrow> 'a xnode option" where
  "xml_copy L flags src = xml_copy_r L flags 0 src"

definition xml_remove_children :: "'a xnode \<Rightarrow> 'a xnode" where
  "xml_remove_children parent =
     XNode (x_type parent) (x_name parent) (x_attrs parent) (filter (\<lambda>c. x_type c \<noteq> XML_ELEMENT_NODE) (x_children parent))"

text \<open>The node at a path, and a tree with the node at a path changed.\<close>

fun node_at :: "'a xnode \<Rightarrow> nat list \<Rightarrow> 'a xnode option" where
  "node_at n [] = Some n"
| "node_at n (i # p) = (if i < length (x_children n) then node_at (x_children n ! i) p else None)"

fun change_at :: "('a xnode \<Rightarrow> 'a xnode) \<Rightarrow> nat list \<Rightarrow> 'a xnode \<Rightarrow> 'a xnode" where
  "change_at f [] n = f n"
| "change_at f (i # p) n =
     (if i < length (x_children n)
      then XNode (x_type n) (x_name n) (x_attrs n) ((x_children n)[i := change_at f p (x_children n ! i)]) else n)"

text \<open>A node without text below it, and the copy as a filter of the tree.\<close>

fun no_text :: "'a xnode \<Rightarrow> bool" where
  "no_text (XNode t n a cs) \<longleftrightarrow> t \<noteq> XML_TEXT_NODE \<and> (\<forall>c \<in> set cs. no_text c)"

fun prune :: "('a xnode \<Rightarrow> bool) \<Rightarrow> 'a xnode \<Rightarrow> 'a xnode" where
  "prune P (XNode t n a cs) = XNode t n a (map (prune P) (filter (\<lambda>c. \<not> P c) cs))"

fun descendants :: "'a xnode \<Rightarrow> 'a xnode list" where
  "descendants (XNode t n a cs) = concat (map (\<lambda>c. c # descendants c) cs)"

end
