(* ===== verification/Obix_Xmldb.thy ===== *)
theory Obix_Xmldb
  imports Obix_Xml
begin

text \<open>
  The XML database, from \<open>src/src/server/xml_storage.c\<close>: the global tree of objects, its nodes
  addressed by hrefs, adding, updating and deleting nodes, relative hrefs, the href of a node,
  and merging documents at start.  The state is the root element; memory does not run short.
\<close>

section \<open>Path names\<close>

text \<open>\<open>dirname\<close> and \<open>basename\<close> of the C library.\<close>

definition rstrip :: "cstr \<Rightarrow> cstr" where
  "rstrip s = rev (dropWhile (\<lambda>c. c = slash) (rev s))"

definition dirname :: "cstr \<Rightarrow> cstr" where
  "dirname s =
     (if slash \<notin> set (rstrip s) then (if s \<noteq> [] \<and> hd s = slash then [slash] else ''.'')
      else let d = rstrip (rev (dropWhile (\<lambda>c. c \<noteq> slash) (rev (rstrip s)))) in if d = [] then [slash] else d)"

definition basename :: "cstr \<Rightarrow> cstr" where
  "basename s = rev (takeWhile (\<lambda>c. c \<noteq> slash) (rev s))"

section \<open>Relative hrefs\<close>

definition xmldb_set_relative_href_helper :: "'a xml_lib \<Rightarrow> 'a xnode \<Rightarrow> int \<times> 'a option" where
  "xmldb_set_relative_href_helper L node =
     (if x_name node = OBIX_OBJ_REF then (0, Some (x_attrs node))
      else case xprop L node OBIX_ATTR_HREF of
        None \<Rightarrow> (0, Some (x_attrs node))
      | Some href \<Rightarrow>
          if slash_preceded (Some href) = 0 then (0, Some (x_attrs node))
          else if rstrip href \<noteq> [] then (0, Some (xmlSetProp L (x_attrs node) OBIX_ATTR_HREF (basename (rstrip href))))
          else (- 1, Some (x_attrs node)))"

definition xmldb_set_relative_href :: "'a xml_lib \<Rightarrow> 'a xnode \<Rightarrow> 'a xnode" where
  "xmldb_set_relative_href L node = the (snd (xml_for_each_element (xmldb_set_relative_href_helper L) node))"

text \<open>\<open>xmldb_add_child\<close> of a node that is not in the tree, under the node at a path.\<close>

definition xmldb_add_child :: "'a xml_lib \<Rightarrow> 'a xnode \<Rightarrow> nat list \<Rightarrow> 'a xnode \<Rightarrow> int \<Rightarrow> 'a xnode" where
  "xmldb_add_child L root parent node relative =
     (let n = (if relative = 1 then xmldb_set_relative_href L node else node)
      in change_at (\<lambda>p. xmlAddChild L p n) parent root)"

section \<open>Nodes by href\<close>

definition xmldb_get_node_core_helper :: "'a xml_lib \<Rightarrow> 'a xnode \<Rightarrow> cstr \<Rightarrow> nat list option \<Rightarrow> int \<times> nat list option" where
  "xmldb_get_node_core_helper L start token node =
     (case node of
        None \<Rightarrow> (- 1, None)
      | Some p \<Rightarrow>
          (case node_at start p of
             None \<Rightarrow> (- 1, None)
           | Some n \<Rightarrow>
               (case xml_find_child L n None (Some OBIX_ATTR_HREF) (Some token) of
                  None \<Rightarrow> (- 1, None)
                | Some i \<Rightarrow> (0, Some (p @ [i])))))"

definition xmldb_get_node_core :: "'a xml_lib \<Rightarrow> 'a xnode \<Rightarrow> cstr \<Rightarrow> nat list option" where
  "xmldb_get_node_core L start href =
     (let (ret, node) = for_each_str_token True ''/'' href (xmldb_get_node_core_helper L start) (Some [])
      in if ret < 0 then None else node)"

definition xmldb_get_node :: "'a xml_lib \<Rightarrow> 'a xnode \<Rightarrow> cstr \<Rightarrow> nat list option" where
  "xmldb_get_node L root href = (if href = ''/'' then Some [] else xmldb_get_node_core L root href)"

definition xmldb_copy_node :: "'a xml_lib \<Rightarrow> copy_flags \<Rightarrow> 'a xnode option \<Rightarrow> 'a xnode option" where
  "xmldb_copy_node L flag orig = (case orig of None \<Rightarrow> Some (obix_obj_null L None) | Some n \<Rightarrow> xml_copy L flag n)"

definition xmldb_copy_uri :: "'a xml_lib \<Rightarrow> 'a xnode \<Rightarrow> cstr \<Rightarrow> copy_flags \<Rightarrow> 'a xnode option" where
  "xmldb_copy_uri L root href flags =
     (case xmldb_get_node_core L root href of
        None \<Rightarrow> None
      | Some p \<Rightarrow> xmldb_copy_node L flags (node_at root p))"

definition HIST_DEV_STUB :: cstr where "HIST_DEV_STUB = ''/sys/hist-dev-stub/''"

definition no_flags :: copy_flags where
  "no_flags = \<lparr>exclude_hidden = False, exclude_meta = False, exclude_comments = False\<rparr>"

definition xmldb_copy_sys :: "'a xml_lib \<Rightarrow> 'a xnode \<Rightarrow> cstr \<Rightarrow> 'a xnode option" where
  "xmldb_copy_sys L root stub =
     map_option (\<lambda>n. XNode (x_type n) (x_name n) (xmlUnsetProp L (x_attrs n) OBIX_ATTR_HREF) (x_children n))
       (xmldb_copy_uri L root stub no_flags)"

definition xmldb_update_uri :: "'a xml_lib \<Rightarrow> 'a xnode \<Rightarrow> cstr \<Rightarrow> cstr \<Rightarrow> errcode \<times> 'a xnode" where
  "xmldb_update_uri L root href val =
     (case xmldb_get_node L root href of
        None \<Rightarrow> (ERR_NO_SUCH_URI, root)
      | Some p \<Rightarrow> (ERR_SUCCESS, change_at (\<lambda>n. set_prop L n OBIX_ATTR_VAL val) p root))"

datatype xmldb_stub_type = STUB_NORMAL | STUB_HISTORY

text \<open>The node found or made for a token below the current one, with the tree.\<close>

definition xmldb_create_ancestors_helper ::
  "'a xml_lib \<Rightarrow> xmldb_stub_type \<Rightarrow> cstr \<Rightarrow> 'a xnode \<times> nat list \<Rightarrow> int \<times> ('a xnode \<times> nat list)" where
  "xmldb_create_ancestors_helper L type token st =
     (let (root, p) = st; parent = the (node_at root p) in
      case xml_find_child L parent None (Some OBIX_ATTR_HREF) (Some token) of
        Some i \<Rightarrow> (0, (root, p @ [i]))
      | None \<Rightarrow>
          (case (if type = STUB_NORMAL then Some (xmlNewNode L OBIX_OBJ) else xmldb_copy_sys L root HIST_DEV_STUB) of
             None \<Rightarrow> (- 1, (root, p))
           | Some node \<Rightarrow>
               (0, (xmldb_add_child L root p (set_prop L node OBIX_ATTR_HREF token) 0, p @ [length (x_children parent)]))))"

definition xmldb_create_ancestors :: "'a xml_lib \<Rightarrow> xmldb_stub_type \<Rightarrow> 'a xnode \<Rightarrow> cstr \<Rightarrow> int \<times> ('a xnode \<times> nat list)" where
  "xmldb_create_ancestors L type root href =
     for_each_str_token True ''/'' href (xmldb_create_ancestors_helper L type) (root, [])"

datatype dom_action = No_Action | CREATE_ANCESTORS_WATCH | CREATE_ANCESTORS_HISTORY | DELETE_EMPTY_ANCESTORS_WATCH

definition xmldb_put_node :: "'a xml_lib \<Rightarrow> 'a xnode \<Rightarrow> 'a xnode \<Rightarrow> cstr \<Rightarrow> dom_action \<Rightarrow> errcode \<times> 'a xnode" where
  "xmldb_put_node L root node href action =
     (if xml_is_valid_href (Some href) = 0 then (ERR_INVALID_HREF, root)
      else
        let parent_href = dirname href in
        case xmldb_get_node L root parent_href of
          Some p \<Rightarrow> (ERR_SUCCESS, xmldb_add_child L root p node 1)
        | None \<Rightarrow>
            if action \<noteq> CREATE_ANCESTORS_WATCH \<and> action \<noteq> CREATE_ANCESTORS_HISTORY then (ERR_NO_SUCH_URI, root)
            else
              let (ret, (root', p)) = xmldb_create_ancestors L (if action = CREATE_ANCESTORS_HISTORY then STUB_HISTORY else STUB_NORMAL) root parent_href
              in if ret < 0 then (ERR_NO_MEM, root')
                 else (ERR_SUCCESS, xmldb_add_child L root' p node 1))"

section \<open>Deleting\<close>

text \<open>The node at a path is unlinked, which leaves no tree (\<open>None\<close>) for the path of the root.\<close>

definition drop_child :: "nat \<Rightarrow> 'a xnode \<Rightarrow> 'a xnode" where
  "drop_child i p = XNode (x_type p) (x_name p) (x_attrs p) (take i (x_children p) @ drop (Suc i) (x_children p))"

definition xml_delete_node :: "'a xnode \<Rightarrow> nat list \<Rightarrow> 'a xnode option" where
  "xml_delete_node root path = (if path = [] then None else Some (change_at (drop_child (last path)) (butlast path) root))"

definition xmlChildElementCount :: "'a xnode \<Rightarrow> nat" where
  "xmlChildElementCount n = length (filter (\<lambda>c. x_type c = XML_ELEMENT_NODE) (x_children n))"

definition xmldb_delete_node :: "'a xnode \<Rightarrow> nat list \<Rightarrow> dom_action \<Rightarrow> 'a xnode option" where
  "xmldb_delete_node root path action =
     (case xml_delete_node root path of
        None \<Rightarrow> None
      | Some root' \<Rightarrow>
          if action = DELETE_EMPTY_ANCESTORS_WATCH \<and> map_option xmlChildElementCount (node_at root' (butlast path)) = Some 0
          then xml_delete_node root' (butlast path) else Some root')"

definition xmldb_delete_comment_helper :: "'a xnode \<Rightarrow> int \<times> 'a option" where
  "xmldb_delete_comment_helper comment = (0, None)"

definition xmldb_delete_comment :: "'a xnode \<Rightarrow> 'a xnode option" where
  "xmldb_delete_comment node = snd (xml_for_each_comment xmldb_delete_comment_helper node)"

definition xmldb_delete_meta_helper :: "'a xnode \<Rightarrow> int \<times> 'a option" where
  "xmldb_delete_meta_helper element = (0, if x_name element = OBIX_OBJ_META then None else Some (x_attrs element))"

definition xmldb_delete_meta :: "'a xnode \<Rightarrow> 'a xnode option" where
  "xmldb_delete_meta node = snd (xml_for_each_element xmldb_delete_meta_helper node)"

definition xmldb_delete_hidden_helper :: "'a xml_lib \<Rightarrow> 'a xnode \<Rightarrow> int \<times> 'a option" where
  "xmldb_delete_hidden_helper L element = (0, if xml_is_hidden L element = 1 then None else Some (x_attrs element))"

definition xmldb_delete_hidden :: "'a xml_lib \<Rightarrow> 'a xnode \<Rightarrow> 'a xnode option" where
  "xmldb_delete_hidden L node = snd (xml_for_each_element (xmldb_delete_hidden_helper L) node)"

section \<open>The href of a node\<close>

text \<open>
  \<open>xmldb_node_path\<close>: the hrefs of the nodes from the given one up to, but without, the top node
  (or up to the root, if there is none) are collected in the order from the top, then joined.
\<close>

fun collect_hrefs :: "'a xml_lib \<Rightarrow> 'a xnode list \<Rightarrow> cstr list option" where
  "collect_hrefs L [] = Some []"
| "collect_hrefs L (n # ns) =
     (case collect_hrefs L ns of
        None \<Rightarrow> None
      | Some hs \<Rightarrow>
          if x_type n \<noteq> XML_ELEMENT_NODE then Some hs
          else case xprop L n OBIX_ATTR_HREF of
                 None \<Rightarrow> None
               | Some h \<Rightarrow> Some (if h = ''/'' then hs else h # hs))"

fun link_all :: "cstr \<Rightarrow> cstr list \<Rightarrow> cstr" where
  "link_all base [] = base"
| "link_all base (h # hs) = link_all (the (snd (link_pathname True (Some base) None (Some h) None))) hs"

text \<open>The nodes on the way from the root to a path.\<close>

fun nodes_on :: "'a xnode \<Rightarrow> nat list \<Rightarrow> 'a xnode list" where
  "nodes_on n [] = [n]"
| "nodes_on n (i # p) = n # (if i < length (x_children n) then nodes_on (x_children n ! i) p else [])"

definition xmldb_node_path :: "'a xml_lib \<Rightarrow> 'a xnode \<Rightarrow> nat list \<Rightarrow> nat list option \<Rightarrow> cstr \<Rightarrow> cstr option" where
  "xmldb_node_path L root start top_node top_href =
     map_option (link_all top_href)
       (collect_hrefs L (case top_node of None \<Rightarrow> nodes_on root start | Some t \<Rightarrow> drop (Suc (length t)) (nodes_on root start)))"

section \<open>Operations and documents\<close>

definition xmldb_get_op_id_core :: "'a xml_lib \<Rightarrow> 'a xnode \<Rightarrow> errcode + int" where
  "xmldb_get_op_id_core L node =
     (if x_name node \<noteq> OBIX_OBJ_OP then Inl ERR_NO_OP_NODE
      else case xml_find_child L node (Some OBIX_OBJ_META) (Some OBIX_META_ATTR_OP) None of
        None \<Rightarrow> Inl ERR_NO_META_NODE
      | Some i \<Rightarrow>
          let v = xml_get_long L (x_children node ! i) OBIX_META_ATTR_OP
          in if v < 0 then Inl ERR_INVALID_META else Inr v)"

definition xmldb_get_op_id :: "'a xml_lib \<Rightarrow> 'a xnode \<Rightarrow> cstr \<Rightarrow> errcode + int" where
  "xmldb_get_op_id L root uri =
     (case xmldb_get_node L root uri of
        None \<Rightarrow> Inl ERR_NO_SUCH_URI
      | Some p \<Rightarrow> xmldb_get_op_id_core L (the (node_at root p)))"

text \<open>
  \<open>xmldb_reparent_children\<close>: the element children of \<open>from\<close> that are not null objects and have no
  peer move to the end of \<open>to\<close>.
\<close>

definition has_peer :: "'a xml_lib \<Rightarrow> 'a xnode \<Rightarrow> 'a xnode \<Rightarrow> bool option" where
  "has_peer L to child =
     (if x_name child = OBIX_OBJ_REF
      then map_option (\<lambda>v. xml_find_child L to (Some OBIX_OBJ_REF) (Some OBIX_ATTR_NAME) (Some v) \<noteq> None) (xprop L child OBIX_ATTR_NAME)
      else map_option (\<lambda>v. xml_find_child L to (Some (x_name child)) (Some OBIX_ATTR_HREF) (Some v) \<noteq> None) (xprop L child OBIX_ATTR_HREF))"

fun xmldb_reparent_children :: "'a xml_lib \<Rightarrow> 'a xnode list \<Rightarrow> 'a xnode \<Rightarrow> 'a xnode" where
  "xmldb_reparent_children L [] to = to"
| "xmldb_reparent_children L (child # cs) to =
     xmldb_reparent_children L cs
       (if x_type child \<noteq> XML_ELEMENT_NODE then to
        else case has_peer L to child of
               None \<Rightarrow> to
             | Some peer \<Rightarrow> if \<not> peer \<and> xml_is_null L child = 0 then xmlAddChild L to (xmldb_set_relative_href L child) else to)"

text \<open>\<open>xmldb_load_files_helper\<close> for the root element of a document, if it could be read.\<close>

definition xmldb_load_files_helper :: "'a xml_lib \<Rightarrow> 'a xnode option \<Rightarrow> 'a xnode \<Rightarrow> int \<times> 'a xnode" where
  "xmldb_load_files_helper L doc root =
     (case doc of
        None \<Rightarrow> (- 1, root)
      | Some r0 \<Rightarrow>
          (case xprop L r0 OBIX_ATTR_HREF of
             None \<Rightarrow> (- 1, root)
           | Some href \<Rightarrow>
               let r = the (xmldb_delete_comment r0) in
               case xmldb_get_node L root href of
                 Some p \<Rightarrow>
                   if x_name (the (node_at root p)) \<noteq> OBIX_OBJ_REF
                   then (0, change_at (xmldb_reparent_children L (x_children r)) p root)
                   else let (e, root') = xmldb_put_node L root r href No_Action in (if e = ERR_SUCCESS then 0 else - 1, root')
               | None \<Rightarrow>
                   let (e, root') = xmldb_put_node L root r href No_Action in (if e = ERR_SUCCESS then 0 else - 1, root')))"

fun load_files :: "'a xml_lib \<Rightarrow> 'a xnode option list \<Rightarrow> 'a xnode \<Rightarrow> int \<times> 'a xnode" where
  "load_files L [] root = (0, root)"
| "load_files L (d # ds) root =
     (let (ret, root') = xmldb_load_files_helper L d root in if ret < 0 then (- 1, root') else load_files L ds root')"

text \<open>
  \<open>obix_xmldb_init\<close>: the documents of the two folders, those of \<open>core\<close> first.  Without the stub of
  the fatal error the database is disposed of, and the return value is that of the last step.
\<close>

definition FATAL_ERROR_STUB :: cstr where "FATAL_ERROR_STUB = ''/sys/fatal-error-stub/''"

definition obix_xmldb_init :: "'a xml_lib \<Rightarrow> 'a xnode option list \<Rightarrow> 'a xnode option list \<Rightarrow> errcode \<times> ('a xnode \<times> 'a xnode) option" where
  "obix_xmldb_init L core sys =
     (let root = set_prop L (xmlNewNode L OBIX_OBJ) OBIX_ATTR_HREF ''/'';
          (r1, root1) = load_files L core root
      in if r1 < 0 then (ERR_NO_MEM, None)
         else let (r2, root2) = load_files L sys root1 in
              if r2 < 0 then (ERR_NO_MEM, None)
              else (ERR_SUCCESS, map_option (Pair root2) (xmldb_copy_sys L root2 FATAL_ERROR_STUB)))"

text \<open>Lookup along the tokens of an href, as a recursion on the tree.\<close>

definition named :: "'a xml_lib \<Rightarrow> cstr \<Rightarrow> 'a xnode \<Rightarrow> bool" where
  "named L t c \<longleftrightarrow> x_type c = XML_ELEMENT_NODE \<and> xprop L c OBIX_ATTR_HREF = Some t"

fun child_named :: "'a xml_lib \<Rightarrow> cstr \<Rightarrow> 'a xnode list \<Rightarrow> nat option" where
  "child_named L t [] = None"
| "child_named L t (c # cs) = (if named L t c then Some 0 else map_option Suc (child_named L t cs))"

fun look :: "'a xml_lib \<Rightarrow> 'a xnode \<Rightarrow> cstr list \<Rightarrow> nat list option" where
  "look L n [] = Some []"
| "look L n (t # ts) =
     (case child_named L t (x_children n) of
        None \<Rightarrow> None
      | Some i \<Rightarrow> map_option (Cons i) (look L (x_children n ! i) ts))"

section \<open>Lookup along tokens\<close>

definition keeps :: "('a xnode \<Rightarrow> 'a xnode) \<Rightarrow> bool" where
  "keeps f \<longleftrightarrow> (\<forall>n. x_type (f n) = x_type n \<and> x_attrs (f n) = x_attrs n)"

definition abs_path :: "cstr list \<Rightarrow> cstr" where
  "abs_path ts = concat (map (\<lambda>t. slash # t) ts)"

definition segs :: "cstr list \<Rightarrow> bool" where
  "segs ts \<longleftrightarrow> (\<forall>t \<in> set ts. t \<noteq> [] \<and> slash \<notin> set t)"

definition abs_href :: "cstr \<Rightarrow> bool" where
  "abs_href h \<longleftrightarrow> hd h = slash \<and> xml_is_valid_href (Some h) = 1"

definition childless :: "'a xnode \<Rightarrow> nat list \<Rightarrow> bool" where
  "childless n p \<longleftrightarrow> map_option x_children (node_at n p) = Some []"

section \<open>Examples\<close>

text \<open>Attributes as association lists, an instance of what is assumed of libxml2.\<close>

definition alist_lib :: "(cstr \<times> cstr) list xml_lib" where
  "alist_lib = \<lparr>xmlGetProp = map_of, xmlSetProp = (\<lambda>a k v. (k, v) # filter (\<lambda>x. fst x \<noteq> k) a),
     xmlUnsetProp = (\<lambda>a k. filter (\<lambda>x. fst x \<noteq> k) a), xmlNoProp = [],
     xmlAddChild = (\<lambda>p n. XNode (x_type p) (x_name p) (x_attrs p) (x_children p @ [n])),
     xmlCopyNode2 = (\<lambda>n. XNode (x_type n) (x_name n) (x_attrs n) [])\<rparr>"

definition ex_root :: "(cstr \<times> cstr) list xnode" where
  "ex_root = XNode XML_ELEMENT_NODE ''obj'' [(''href'', ''/'')]
     [XNode XML_ELEMENT_NODE ''obj'' [(''href'', ''obix'')] [XNode XML_ELEMENT_NODE ''obj'' [(''href'', ''batch'')] []]]"

definition ex_node :: "(cstr \<times> cstr) list xnode" where
  "ex_node = XNode XML_ELEMENT_NODE ''obj'' [(''href'', ''/obix/watchService/watch7'')]
     [XNode XML_ELEMENT_NODE ''op'' [(''href'', ''add''), (''hidden'', ''true'')] [], XNode XML_COMMENT_NODE ''comment'' [] []]"

section \<open>Finding nodes\<close>

lemma find_child_loop_named:
  "find_child_loop L None (Some OBIX_ATTR_HREF) (Some t) i cs = map_option ((+) i) (child_named L t cs)"
proof (induction cs arbitrary: i)
  case (Cons c cs)
  show ?case using Cons.IH [of "Suc i"] by (cases "child_named L t cs") (auto simp: named_def split: option.split)
qed simp

lemma find_child_named: "xml_find_child L n None (Some OBIX_ATTR_HREF) (Some t) = child_named L t (x_children n)"
  by (cases "child_named L t (x_children n)") (simp_all add: xml_find_child_def find_child_loop_named)

lemma child_named_Some:
  "child_named L t cs = Some i \<Longrightarrow> i < length cs \<and> named L t (cs ! i)"
  by (induction cs arbitrary: i) (auto split: if_splits)

lemma child_named_append:
  "child_named L t (cs @ ds) = (case child_named L t cs of Some i \<Rightarrow> Some i | None \<Rightarrow> map_option ((+) (length cs)) (child_named L t ds))"
proof (induction cs)
  case (Cons c cs)
  then show ?case by (cases "child_named L t ds") (auto split: option.split)
qed (cases "child_named L t ds"; simp)

lemma child_named_update:
  "i < length cs \<Longrightarrow> (\<And>s. named L s c = named L s (cs ! i)) \<Longrightarrow> child_named L t (cs[i := c]) = child_named L t cs"
proof (induction cs arbitrary: i)
  case (Cons d cs)
  then show ?case by (cases i) auto
qed simp

lemma node_at_append: "node_at n (p @ q) = (case node_at n p of None \<Rightarrow> None | Some m \<Rightarrow> node_at m q)"
  by (induction n p rule: node_at.induct) auto

lemma look_node: "look L n ts = Some p \<Longrightarrow> \<exists>m. node_at n p = Some m"
proof (induction ts arbitrary: n p)
  case (Cons t ts)
  then obtain i q where "child_named L t (x_children n) = Some i" "look L (x_children n ! i) ts = Some q" "p = i # q"
    by (auto split: option.splits)
  then show ?case using Cons.IH child_named_Some by fastforce
qed simp

lemma each_get_node:
  "node_at start p = Some n \<Longrightarrow> each_token (xmldb_get_node_core_helper L start) r ts (Some p) =
     (if ts = [] then (r, Some p) else case look L n ts of None \<Rightarrow> (- 1, None) | Some q \<Rightarrow> (0, Some (p @ q)))"
proof (induction ts arbitrary: p n r)
  case (Cons t ts)
  show ?case
  proof (cases "child_named L t (x_children n)")
    case None
    then show ?thesis using Cons.prems by (simp add: xmldb_get_node_core_helper_def find_child_named)
  next
    case (Some i)
    then have i: "i < length (x_children n)" using child_named_Some by blast
    have "node_at start (p @ [i]) = Some (x_children n ! i)" using Cons.prems i by (simp add: node_at_append)
    from Cons.IH [OF this, of 0] show ?thesis using Cons.prems Some
      by (cases ts) (auto simp: xmldb_get_node_core_helper_def find_child_named split: option.split)
  qed
qed simp

lemma slash_string: "''/'' = [slash]"
  by (simp add: slash_def)

lemma get_node_core_look:
  "xmldb_get_node_core L start href = (if tokens href = [] then None else look L start (tokens href))"
  using each_get_node [of start "[]" start L "- 1" "tokens href"]
  by (simp add: xmldb_get_node_core_def for_each_str_token_def slash_string split: option.split)

lemma get_node_look:
  "tokens href \<noteq> [] \<Longrightarrow> xmldb_get_node L root href = look L root (tokens href)"
  by (auto simp: xmldb_get_node_def get_node_core_look slash_string)

lemma change_at_root: "keeps f \<Longrightarrow> x_type (change_at f p n) = x_type n \<and> x_attrs (change_at f p n) = x_attrs n"
  by (cases p) (auto simp: keeps_def)

lemma named_change: "keeps f \<Longrightarrow> named L s (change_at f p n) = named L s n"
  using change_at_root [of f p n] by (simp add: named_def)

lemma look_change:
  assumes k: "keeps f" and f: "\<And>t m i. child_named L t (x_children m) = Some i \<Longrightarrow>
      child_named L t (x_children (f m)) = Some i \<and> x_children (f m) ! i = x_children m ! i"
  shows "look L n us = Some q \<Longrightarrow> look L (change_at f p n) us = Some q"
proof (induction p arbitrary: n us q)
  case Nil
  show ?case
  proof (cases us)
    case (Cons t ts)
    then obtain i where "child_named L t (x_children n) = Some i" using Nil by (auto split: option.splits)
    then show ?thesis using Nil Cons f by simp
  qed (use Nil in simp)
next
  case (Cons i p)
  show ?case
  proof (cases "us = [] \<or> \<not> i < length (x_children n)")
    case True
    then show ?thesis using Cons.prems by auto
  next
    case False
    then obtain t ts where us: "us = t # ts" and i: "i < length (x_children n)" by (cases us) auto
    let ?c = "change_at f p (x_children n ! i)"
    have e: "child_named L t ((x_children n)[i := ?c]) = child_named L t (x_children n)"
      using child_named_update [OF i] named_change [OF k] by blast
    obtain j r where j: "child_named L t (x_children n) = Some j" "look L (x_children n ! j) ts = Some r" "q = j # r"
      using Cons.prems us by (auto split: option.splits)
    show ?thesis using Cons.IH [of "x_children n ! i" ts r] us i e j by (cases "j = i") auto
  qed
qed

lemma look_at:
  "keeps f \<Longrightarrow> look L n ts = Some p \<Longrightarrow> node_at n p = Some m \<Longrightarrow>
   look L (change_at f p n) (ts @ us) = map_option ((@) p) (look L (f m) us) \<and> node_at (change_at f p n) p = Some (f m)"
proof (induction ts arbitrary: n p)
  case Nil
  then show ?case by (simp add: option.map_ident)
next
  case (Cons t ts)
  obtain i q where i: "child_named L t (x_children n) = Some i" "look L (x_children n ! i) ts = Some q" "p = i # q"
    using Cons.prems(2) by (auto split: option.splits)
  have il: "i < length (x_children n)" using child_named_Some [OF i(1)] by simp
  let ?c = "change_at f q (x_children n ! i)"
  have e: "child_named L t ((x_children n)[i := ?c]) = Some i"
    using child_named_update [OF il, of L ?c t] named_change [OF Cons.prems(1)] i(1) by metis
  have m: "node_at (x_children n ! i) q = Some m" using Cons.prems(3) i(3) il by simp
  show ?case using Cons.IH [OF Cons.prems(1) i(2) m] e il i(3) by (auto simp: option.map_comp comp_def)
qed

lemma change_at_inverse:
  "node_at n p = Some m \<Longrightarrow> g (f m) = m \<Longrightarrow> change_at g p (change_at f p n) = n"
proof (induction n p rule: node_at.induct)
  case (2 n i p)
  then show ?case by (cases n) (auto split: if_splits)
qed simp

section \<open>Absolute hrefs\<close>

lemma segs_tokens: "segs (tokens h)"
  using tokens_slash_free by (auto simp: segs_def)

lemma tokens_abs_path: "segs ts \<Longrightarrow> tokens (abs_path ts) = ts"
proof (induction ts)
  case (Cons t ts)
  have t: "t \<noteq> []" "slash \<notin> set t" "segs ts" using Cons.prems by (simp_all add: segs_def)
  have "abs_path ts = [] \<or> hd (abs_path ts) = slash" by (cases ts) (simp_all add: abs_path_def)
  from tokens_word [OF t(1,2) this] Cons.IH [OF t(3)] show ?case by (simp add: abs_path_def)
qed (simp add: abs_path_def)

lemma rstrip_word: "w \<noteq> [] \<Longrightarrow> slash \<notin> set w \<Longrightarrow> rstrip (s @ w) = s @ w" "rstrip (s @ [slash]) = rstrip s" "rstrip [] = []"
proof -
  show "w \<noteq> [] \<Longrightarrow> slash \<notin> set w \<Longrightarrow> rstrip (s @ w) = s @ w"
    by (cases w rule: rev_cases) (auto simp: rstrip_def)
qed (simp_all add: rstrip_def)

lemma rstrip_abs_path: "segs ts \<Longrightarrow> rstrip (abs_path ts) = abs_path ts"
proof (cases ts rule: rev_cases)
  case (snoc us t)
  assume "segs ts"
  then have "t \<noteq> []" "slash \<notin> set t" using snoc by (simp_all add: segs_def)
  then show ?thesis using rstrip_word(1) [of t "abs_path us @ [slash]"] snoc by (simp add: abs_path_def)
qed (simp add: abs_path_def rstrip_def)

lemma abs_href_path:
  assumes "abs_href h"
  shows "rstrip h = abs_path (tokens h)" "tokens h \<noteq> []" "strip_slash h = abs_path (tokens h)"
proof -
  have v: "h \<noteq> []" "\<not> (length h = 1 \<and> hd h = slash)" "\<not> has_dslash h" "hd h = slash"
    using assms by (auto simp: abs_href_def xml_is_valid_href_def cget_def hd_conv_nth split: if_splits)
  obtain s where s: "h = slash # s" using v(1,4) by (cases h) auto
  show j: "strip_slash h = abs_path (tokens h)" using tokens_join_gen [of s] v(3) s by (simp add: abs_path_def)
  then show "rstrip h = abs_path (tokens h)"
    using rstrip_abs_path [OF segs_tokens, of h] rstrip_word(2) [of "butlast h"] v(1)
    by (metis append_butlast_last_id strip_slash_def)
  show "tokens h \<noteq> []"
  proof
    assume "tokens h = []"
    then have "strip_slash h = []" using j by (simp add: abs_path_def)
    then show False using v(2) s by (auto simp: strip_slash_def split: if_splits)
  qed
qed

lemma dirname_basename:
  assumes "segs (us @ [t])" "rstrip h = abs_path (us @ [t])"
  shows "dirname h = (if us = [] then [slash] else abs_path us)" "basename (rstrip h) = t"
proof -
  have t: "t \<noteq> []" "slash \<notin> set t" "segs us" using assms(1) by (simp_all add: segs_def)
  have h: "rstrip h = abs_path us @ slash # t" using assms(2) by (simp add: abs_path_def)
  have r: "rev (rstrip h) = rev t @ slash # rev (abs_path us)" using h by simp
  have d: "dropWhile (\<lambda>c. c \<noteq> slash) (rev t @ slash # x) = slash # x" "takeWhile (\<lambda>c. c \<noteq> slash) (rev t @ slash # x) = rev t" for x
  proof -
    have a: "\<And>c. c \<in> set (rev t) \<Longrightarrow> c \<noteq> slash" using t(2) by auto
    show "dropWhile (\<lambda>c. c \<noteq> slash) (rev t @ slash # x) = slash # x" using dropWhile_append2 [of "rev t" "\<lambda>c. c \<noteq> slash", OF a] by simp
    show "takeWhile (\<lambda>c. c \<noteq> slash) (rev t @ slash # x) = rev t" using takeWhile_append2 [of "rev t" "\<lambda>c. c \<noteq> slash", OF a] by simp
  qed
  show "basename (rstrip h) = t" unfolding basename_def r d by simp
  have "rstrip (rev (dropWhile (\<lambda>c. c \<noteq> slash) (rev (rstrip h)))) = abs_path us"
    unfolding r d using rstrip_word(2) rstrip_abs_path [OF t(3)] by simp
  moreover have "abs_path us = [] \<longleftrightarrow> us = []" by (auto simp: abs_path_def)
  ultimately show "dirname h = (if us = [] then [slash] else abs_path us)" using h by (simp add: dirname_def Let_def)
qed

section \<open>Adding nodes\<close>

lemma keeps_add: "lib_ok L \<Longrightarrow> x_type c = XML_ELEMENT_NODE \<Longrightarrow> keeps (\<lambda>p. xmlAddChild L p c)"
  by (simp add: keeps_def lib_ok_def)

lemma add_children: "lib_ok L \<Longrightarrow> x_type c = XML_ELEMENT_NODE \<Longrightarrow> x_children (xmlAddChild L p c) = x_children p @ [c]"
  by (simp add: lib_ok_def)

lemma add_keeps_look:
  assumes "lib_ok L" "x_type c = XML_ELEMENT_NODE" "look L n us = Some q"
  shows "look L (change_at (\<lambda>p. xmlAddChild L p c) p n) us = Some q"
proof (rule look_change [OF keeps_add [OF assms(1,2)] _ assms(3)])
  fix t m i assume i: "child_named L t (x_children m) = Some i"
  then show "child_named L t (x_children (xmlAddChild L m c)) = Some i \<and> x_children (xmlAddChild L m c) ! i = x_children m ! i"
    using child_named_Some [OF i] by (simp add: add_children [OF assms(1,2)] child_named_append nth_append)
qed

lemma add_look_new:
  assumes "lib_ok L" "look L n ts = Some p" "node_at n p = Some m" "child_named L t (x_children m) = None" "named L t c"
  shows "look L (change_at (\<lambda>p. xmlAddChild L p c) p n) (ts @ [t]) = Some (p @ [length (x_children m)])"
    "node_at (change_at (\<lambda>p. xmlAddChild L p c) p n) (p @ [length (x_children m)]) = Some c"
proof -
  have c: "x_type c = XML_ELEMENT_NODE" using assms(5) by (simp add: named_def)
  note a = look_at [OF keeps_add [OF assms(1) c] assms(2,3), of "[t]"]
  show "look L (change_at (\<lambda>p. xmlAddChild L p c) p n) (ts @ [t]) = Some (p @ [length (x_children m)])"
    using a assms(4,5) by (simp add: add_children [OF assms(1) c] child_named_append)
  show "node_at (change_at (\<lambda>p. xmlAddChild L p c) p n) (p @ [length (x_children m)]) = Some c"
    using a by (simp add: node_at_append add_children [OF assms(1) c])
qed

lemma relative_root:
  assumes "x_type n = XML_ELEMENT_NODE" "xmldb_set_relative_href_helper L n = (0, Some a)"
  shows "x_type (xmldb_set_relative_href L n) = XML_ELEMENT_NODE \<and> x_attrs (xmldb_set_relative_href L n) = a"
  using assms by (cases n) (auto simp: xmldb_set_relative_href_def xml_for_each_element_def split: prod.split)

lemma relative_named:
  assumes "lib_ok L" "x_type n = XML_ELEMENT_NODE" "x_name n \<noteq> OBIX_OBJ_REF" "xprop L n OBIX_ATTR_HREF = Some h" "abs_href h"
    "tokens h = us @ [t]"
  shows "named L t (xmldb_set_relative_href L n)"
proof -
  have r: "rstrip h = abs_path (us @ [t])" using abs_href_path(1) [OF assms(5)] assms(6) by simp
  have s: "segs (us @ [t])" using segs_tokens [of h] assms(6) by simp
  have "slash_preceded (Some h) = 1" using assms(5) by (auto simp: abs_href_def slash_preceded_iff xml_is_valid_href_def split: if_splits)
  moreover have "rstrip h \<noteq> []" using r by (auto simp: abs_path_def)
  ultimately have "xmldb_set_relative_href_helper L n = (0, Some (xmlSetProp L (x_attrs n) OBIX_ATTR_HREF t))"
    using assms(3,4) dirname_basename(2) [OF s r] by (simp add: xmldb_set_relative_href_helper_def)
  from relative_root [OF assms(2) this] show ?thesis using assms(1) by (simp add: named_def lib_ok_def)
qed

text \<open>Missing ancestors are made one by one; nodes that are there stay where they are.\<close>

lemma look_append:
  "look L n ts = Some p \<Longrightarrow> node_at n p = Some m \<Longrightarrow> look L n (ts @ us) = map_option ((@) p) (look L m us)"
proof (induction ts arbitrary: n p)
  case Nil
  then show ?case by (simp add: option.map_ident)
next
  case (Cons t ts)
  obtain i q where i: "child_named L t (x_children n) = Some i" "look L (x_children n ! i) ts = Some q" "p = i # q"
    using Cons.prems(1) by (auto split: option.splits)
  have "node_at (x_children n ! i) q = Some m" using Cons.prems(2) i child_named_Some [OF i(1)] by simp
  from Cons.IH [OF i(2) this] show ?case using i by (simp add: option.map_comp comp_def)
qed

lemma create_step:
  assumes L: "lib_ok L" and p: "look L root ts = Some p"
  shows "\<exists>root' p'. xmldb_create_ancestors_helper L STUB_NORMAL t (root, p) = (0, (root', p')) \<and>
    look L root' (ts @ [t]) = Some p' \<and> (\<forall>us q. look L root us = Some q \<longrightarrow> look L root' us = Some q) \<and>
    (root' = root \<or> childless root' p')"
proof -
  obtain m where m: "node_at root p = Some m" using look_node [OF p] by blast
  show ?thesis
  proof (cases "child_named L t (x_children m)")
    case (Some i)
    then have "look L root (ts @ [t]) = Some (p @ [i])" using look_append [OF p m, of "[t]"] by simp
    then show ?thesis using m Some by (auto simp: xmldb_create_ancestors_helper_def find_child_named)
  next
    case None
    define c where "c = set_prop L (xmlNewNode L OBIX_OBJ) OBIX_ATTR_HREF t"
    have c: "named L t c" "x_children c = []" using L by (simp_all add: c_def named_def set_prop_def xmlNewNode_def lib_ok_def)
    then have e: "x_type c = XML_ELEMENT_NODE" by (simp add: named_def)
    define r where "r = change_at (\<lambda>n. xmlAddChild L n c) p root"
    note new = add_look_new [OF L p m None c(1), folded r_def]
    have "xmldb_create_ancestors_helper L STUB_NORMAL t (root, p) = (0, (r, p @ [length (x_children m)]))"
      using m None by (simp add: xmldb_create_ancestors_helper_def find_child_named xmldb_add_child_def c_def r_def)
    moreover have "\<forall>us q. look L root us = Some q \<longrightarrow> look L r us = Some q" using add_keeps_look [OF L e] by (simp add: r_def)
    moreover have "childless r (p @ [length (x_children m)])" using new(2) c(2) by (simp add: childless_def)
    ultimately show ?thesis using new(1) by blast
  qed
qed

lemma create_loop:
  assumes L: "lib_ok L" and p: "look L root ts = Some p"
  shows "\<exists>root' p'. each_token (xmldb_create_ancestors_helper L STUB_NORMAL) r us (root, p) = (if us = [] then r else 0, (root', p')) \<and>
    look L root' (ts @ us) = Some p' \<and> (\<forall>vs q. look L root vs = Some q \<longrightarrow> look L root' vs = Some q) \<and>
    (root' = root \<or> childless root' p')"
  using p
proof (induction us arbitrary: root p ts r)
  case Nil
  then show ?case by auto
next
  case (Cons t us)
  obtain root1 p1 where s: "xmldb_create_ancestors_helper L STUB_NORMAL t (root, p) = (0, (root1, p1))"
    "look L root1 (ts @ [t]) = Some p1" "\<forall>us q. look L root us = Some q \<longrightarrow> look L root1 us = Some q" "root1 = root \<or> childless root1 p1"
    using create_step [OF L Cons.prems] by blast
  have if0: "(if us = [] then 0 else 0) = (0 :: int)" by simp
  obtain root' p' where r: "each_token (xmldb_create_ancestors_helper L STUB_NORMAL) 0 us (root1, p1) = (0, (root', p'))"
    "look L root' ((ts @ [t]) @ us) = Some p'" "\<forall>vs q. look L root1 vs = Some q \<longrightarrow> look L root' vs = Some q" "root' = root1 \<or> childless root' p'"
    using Cons.IH [OF s(2), of 0] unfolding if0 by blast
  have "childless root' p'" if e: "root' = root1" and c: "childless root1 p1"
  proof -
    obtain m where m: "node_at root1 p1 = Some m" "x_children m = []" using c by (auto simp: childless_def)
    have "look L m us \<noteq> None" using look_append [OF s(2) m(1), of us] r(2) e by auto
    then have "us = []" using m(2) by (cases us) auto
    then show ?thesis using c e r(2) s(2) by simp
  qed
  then have "root' = root \<or> childless root' p'" using r(4) s(4) by blast
  then show ?case using s(1,3) r(1-3) by simp
qed

lemma put_node_shape:
  assumes L: "lib_ok L" and h: "abs_href h" "tokens h = us @ [t]" and a: "action \<noteq> CREATE_ANCESTORS_HISTORY"
    and put: "xmldb_put_node L root node h action = (ERR_SUCCESS, root')" and new: "look L root (us @ [t]) = None"
  shows "\<exists>root1 p m. root' = change_at (\<lambda>n. xmlAddChild L n (xmldb_set_relative_href L node)) p root1 \<and>
    look L root1 us = Some p \<and> node_at root1 p = Some m \<and> child_named L t (x_children m) = None \<and>
    (\<forall>vs q. look L root vs = Some q \<longrightarrow> look L root1 vs = Some q) \<and> (look L root us \<noteq> None \<longrightarrow> root1 = root)"
proof -
  have s: "segs (us @ [t])" "segs us" using segs_tokens [of h] h(2) by (simp_all add: segs_def)
  have r: "rstrip h = abs_path (us @ [t])" using abs_href_path(1) [OF h(1)] h(2) by simp
  note d = dirname_basename(1) [OF s(1) r]
  have g: "xmldb_get_node L root (dirname h) = look L root us"
  proof (cases "us = []")
    case False
    then show ?thesis using d get_node_look [of "abs_path us"] tokens_abs_path [OF s(2)] by simp
  qed (use d in \<open>simp add: xmldb_get_node_def slash_string\<close>)
  have tk: "tokens (dirname h) = us" using d tokens_abs_path [OF s(2)] by (cases "us = []") simp_all
  have v: "xml_is_valid_href (Some h) \<noteq> 0" using h(1) by (simp add: abs_href_def)
  show ?thesis
  proof (cases "look L root us")
    case (Some p)
    obtain m where m: "node_at root p = Some m" using look_node [OF Some] by blast
    have "child_named L t (x_children m) = None" using look_append [OF Some m, of "[t]"] new by (auto split: option.splits)
    then show ?thesis using put v g Some m by (auto simp: xmldb_put_node_def xmldb_add_child_def)
  next
    case None
    have act: "action = CREATE_ANCESTORS_WATCH" using put v g None a by (auto simp: xmldb_put_node_def split: if_splits)
    have ne: "us \<noteq> []" using None by auto
    obtain root1 p where c: "each_token (xmldb_create_ancestors_helper L STUB_NORMAL) (- 1) us (root, []) = (0, (root1, p))"
      "look L root1 us = Some p" "\<forall>vs q. look L root vs = Some q \<longrightarrow> look L root1 vs = Some q" "root1 = root \<or> childless root1 p"
      using create_loop [OF L, of root "[]" "[]" "- 1" us] ne by auto
    then have "childless root1 p" using None by auto
    then obtain m where m: "node_at root1 p = Some m" "x_children m = []" by (auto simp: childless_def)
    have "xmldb_create_ancestors L STUB_NORMAL root (dirname h) = (0, (root1, p))"
      using c(1) tk by (simp add: xmldb_create_ancestors_def for_each_str_token_def slash_string)
    then have "root' = change_at (\<lambda>n. xmlAddChild L n (xmldb_set_relative_href L node)) p root1"
      using put v g None act by (simp add: xmldb_put_node_def xmldb_add_child_def)
    moreover have "child_named L t (x_children m) = None" using m(2) by simp
    ultimately show ?thesis using c(2,3) m(1) None by blast
  qed
qed

lemma alist_ok: "lib_ok alist_lib"
proof -
  have "map_of (filter (\<lambda>x. fst x \<noteq> k) a) j = (if j = k then None else map_of a j)" for k j :: cstr and a :: "(cstr \<times> cstr) list"
    by (induction a) auto
  then show ?thesis by (simp add: lib_ok_def alist_lib_def)
qed

section \<open>The href of a node\<close>

lemma nodes_on_look:
  "look L n ts = Some p \<Longrightarrow> \<exists>ns. nodes_on n p = n # ns \<and> list_all2 (named L) ts ns"
proof (induction ts arbitrary: n p)
  case (Cons t ts)
  obtain i q where i: "child_named L t (x_children n) = Some i" "look L (x_children n ! i) ts = Some q" "p = i # q"
    using Cons.prems by (auto split: option.splits)
  then show ?case using Cons.IH [OF i(2)] child_named_Some [OF i(1)] by auto
qed simp

lemma collect_named: "list_all2 (named L) ts ns \<Longrightarrow> ''/'' \<notin> set ts \<Longrightarrow> collect_hrefs L ns = Some ts"
  by (induction rule: list_all2_induct) (auto simp: named_def)

lemma link_step: "b \<noteq> [] \<Longrightarrow> t \<noteq> [] \<Longrightarrow> slash \<notin> set t \<Longrightarrow>
    the (snd (link_pathname True (Some b) None (Some t) None)) = (if last b = slash then b @ t else b @ slash # t)"
proof -
  assume a: "b \<noteq> []" "t \<noteq> []" "slash \<notin> set t"
  have "hd t \<in> set t" using a(2) by simp
  then have "hd t \<noteq> slash" using a(3) by metis
  then have "slash_preceded (Some t) = 0" by (simp add: slash_preceded_iff)
  then show ?thesis using a(1) by (simp add: link_pathname_def link_buf_def slash_followed_iff)
qed

lemma link_all_path: "segs ts \<Longrightarrow> b \<noteq> [] \<Longrightarrow> last b \<noteq> slash \<Longrightarrow> link_all b ts = b @ abs_path ts"
proof (induction ts arbitrary: b)
  case (Cons t ts)
  have t: "t \<noteq> []" "slash \<notin> set t" "segs ts" using Cons.prems(1) by (simp_all add: segs_def)
  then have "last (b @ slash # t) \<noteq> slash" by (metis last_appendR last_ConsR last_in_set list.distinct(1))
  then show ?case using Cons.IH [OF t(3), of "b @ slash # t"] link_step [OF Cons.prems(2) t(1,2)] Cons.prems(3) by (simp add: abs_path_def)
qed (simp add: abs_path_def)

lemma link_all_root: "segs ts \<Longrightarrow> ts \<noteq> [] \<Longrightarrow> link_all [slash] ts = abs_path ts"
proof (cases ts)
  case (Cons t us)
  assume s: "segs ts"
  then have t: "t \<noteq> []" "slash \<notin> set t" "segs us" using Cons by (simp_all add: segs_def)
  then have "last (slash # t) \<noteq> slash" by (metis last_ConsR last_in_set)
  then show ?thesis using link_all_path [OF t(3), of "slash # t"] link_step [OF _ t(1,2), of "[slash]"] Cons by (simp add: abs_path_def)
qed simp

lemma node_path_look:
  assumes "x_type root = XML_ELEMENT_NODE" "xprop L root OBIX_ATTR_HREF = Some ''/''" "abs_href h" "look L root (tokens h) = Some p"
  shows "xmldb_node_path L root p None ''/'' = Some (strip_slash h)"
proof -
  obtain ns where ns: "nodes_on root p = root # ns" "list_all2 (named L) (tokens h) ns" using nodes_on_look [OF assms(4)] by blast
  have "''/'' \<notin> set (tokens h)" using segs_tokens [of h] by (auto simp: segs_def slash_string)
  then have "collect_hrefs L ns = Some (tokens h)" by (rule collect_named [OF ns(2)])
  then have "collect_hrefs L (nodes_on root p) = Some (tokens h)" using ns(1) assms(1,2) by simp
  then show ?thesis
    using link_all_root [OF segs_tokens abs_href_path(2) [OF assms(3)]] abs_href_path(3) [OF assms(3)]
    by (simp add: xmldb_node_path_def slash_string)
qed

lemma put_parent:
  assumes "abs_href h" "tokens h = us @ [t]" "xmldb_put_node L root node h No_Action = (ERR_SUCCESS, root')"
  shows "look L root us \<noteq> None"
proof
  assume n: "look L root us = None"
  then have ne: "us \<noteq> []" by auto
  have s: "segs (us @ [t])" "segs us" using segs_tokens [of h] assms(2) by (simp_all add: segs_def)
  have r: "rstrip h = abs_path (us @ [t])" using abs_href_path(1) [OF assms(1)] assms(2) by simp
  have "xmldb_get_node L root (dirname h) = None"
    using n ne dirname_basename(1) [OF s(1) r] get_node_look [of "abs_path us" L root] tokens_abs_path [OF s(2)] by simp
  then show False using assms(3) by (auto simp: xmldb_put_node_def split: if_splits)
qed

section \<open>Copies\<close>

lemma prune_root [simp]: "x_type (prune P n) = x_type n" "x_name (prune P n) = x_name n" "x_attrs (prune P n) = x_attrs n"
  by (cases n; simp)+

lemma excluded_prune [simp]: "excluded L flags (prune P n) = excluded L flags n"
  by (simp add: excluded_def xml_is_hidden_def xml_attr_true_def)

lemma copy_prune:
  "lib_ok L \<Longrightarrow> no_text n \<Longrightarrow> xml_copy_r L flags d n = (if d > 0 \<and> excluded L flags n then None else Some (prune (excluded L flags) n))"
  "lib_ok L \<Longrightarrow> \<forall>c \<in> set cs. no_text c \<Longrightarrow> d > 0 \<Longrightarrow> copy_children L flags d cs root =
       XNode (x_type root) (x_name root) (x_attrs root) (x_children root @ map (prune (excluded L flags)) (filter (\<lambda>c. \<not> excluded L flags c) cs))"
proof (induction L flags d n and L flags d cs root rule: xml_copy_r_copy_children.induct)
  case (1 L flags depth t n a cs)
  show ?case
  proof (cases "depth > 0 \<and> excluded L flags (XNode t n a cs)")
    case False
    then have "copy_children L flags (Suc depth) cs (xmlCopyNode2 L (XNode t n a cs)) =
        XNode t n a (map (prune (excluded L flags)) (filter (\<lambda>c. \<not> excluded L flags c) cs))"
      using "1.IH" [OF False "1.prems"(1)] "1.prems" by (simp add: lib_ok_def)
    then show ?thesis unfolding xml_copy_r.simps if_not_P [OF False] by simp
  qed simp
next
  case (2 L flags depth root)
  then show ?case by (cases root) simp
next
  case (3 L flags depth c cs root)
  have c: "no_text c" "\<forall>c \<in> set cs. no_text c" using "3.prems"(2) by simp_all
  have t: "x_type c \<noteq> XML_TEXT_NODE" using c(1) by (cases c) simp
  have e: "xml_copy_r L flags depth c = (if excluded L flags c then None else Some (prune (excluded L flags) c))"
    using "3.IH"(1) [OF "3.prems"(1) c(1)] "3.prems"(3) by simp
  show ?case using "3.IH"(2) [OF "3.prems"(1) c(2)] "3.prems"(1) t unfolding copy_children.simps e
    by (auto simp: lib_ok_def)
qed

lemma prune_clean: "d \<in> set (descendants (prune (excluded L flags) n)) \<Longrightarrow> \<not> excluded L flags d"
proof (induction n rule: descendants.induct)
  case (1 t n a cs)
  then obtain c where "c \<in> set cs" "\<not> excluded L flags c"
    "d = prune (excluded L flags) c \<or> d \<in> set (descendants (prune (excluded L flags) c))" by auto
  then show ?case using 1(1) by auto
qed

section \<open>Properties\<close>



text \<open>
  C38: deleting undoes putting.  If the parent is there, then deleting the node from where its
  href leads gives the tree as it was before.
\<close>

theorem xmldb_put_delete_roundtrip:
  assumes "lib_ok L" "abs_href h" "x_type node = XML_ELEMENT_NODE" "x_name node \<noteq> OBIX_OBJ_REF" "xprop L node OBIX_ATTR_HREF = Some h"
    "xmldb_get_node L root h = None" "xmldb_put_node L root node h No_Action = (ERR_SUCCESS, root')"
  shows "\<exists>p. xmldb_get_node L root' h = Some p \<and> xmldb_delete_node root' p No_Action = Some root"
proof -
  have ne: "tokens h \<noteq> []" using abs_href_path(2) [OF assms(2)] .
  then obtain us t where ut: "tokens h = us @ [t]" by (metis append_butlast_last_id)
  have new: "look L root (us @ [t]) = None" using assms(6) get_node_look [OF ne, of L root] ut by simp
  define c where "c = xmldb_set_relative_href L node"
  have c: "named L t c" unfolding c_def by (rule relative_named [OF assms(1,3,4,5,2) ut])
  then have e: "x_type c \<noteq> XML_TEXT_NODE" by (simp add: named_def)
  obtain root1 p m where r: "root' = change_at (\<lambda>n. xmlAddChild L n c) p root1" "look L root1 us = Some p" "node_at root1 p = Some m"
    "child_named L t (x_children m) = None" "look L root us \<noteq> None \<longrightarrow> root1 = root"
    using put_node_shape [OF assms(1,2) ut _ assms(7) new] unfolding c_def by blast
  have "look L root us \<noteq> None" by (rule put_parent [OF assms(2) ut assms(7)])
  then have r1: "root1 = root" using r(5) by simp
  have "drop_child (length (x_children m)) (xmlAddChild L m c) = m" using assms(1) e by (simp add: lib_ok_def drop_child_def)
  then have "change_at (drop_child (length (x_children m))) p root' = root"
    using change_at_inverse [OF r(3), of "drop_child (length (x_children m))" "\<lambda>n. xmlAddChild L n c"] r(1) r1 by simp
  moreover have "xmldb_get_node L root' h = Some (p @ [length (x_children m)])"
    using add_look_new(1) [OF assms(1) r(2-4) c, folded r(1)] get_node_look [OF ne, of L root'] ut by simp
  ultimately show ?thesis by (auto simp: xmldb_delete_node_def xml_delete_node_def)
qed

theorem xmldb_put_delete_roundtrip_witness:
  "\<exists>root' p. xmldb_put_node alist_lib ex_root (XNode XML_ELEMENT_NODE ''obj'' [(''href'', ''/obix/a'')] []) ''/obix/a'' No_Action = (ERR_SUCCESS, root') \<and>
    xmldb_get_node alist_lib root' ''/obix/a'' = Some p \<and> xmldb_delete_node root' p No_Action = Some ex_root"
proof -
  let ?h = "''/obix/a''" and ?n = "XNode XML_ELEMENT_NODE ''obj'' [(''href'', ''/obix/a'')] []"
  have h: "abs_href ?h" by code_simp
  have n: "x_type ?n = XML_ELEMENT_NODE" "x_name ?n \<noteq> OBIX_OBJ_REF" "xprop alist_lib ?n OBIX_ATTR_HREF = Some ?h" by code_simp+
  have g: "xmldb_get_node alist_lib ex_root ?h = None" by code_simp
  obtain e root' where p: "xmldb_put_node alist_lib ex_root ?n ?h No_Action = (e, root')" by fastforce
  have "fst (xmldb_put_node alist_lib ex_root ?n ?h No_Action) = ERR_SUCCESS" by code_simp
  then have "e = ERR_SUCCESS" using p by simp
  then show ?thesis using xmldb_put_delete_roundtrip [OF alist_ok h n g, of root'] p by blast
qed

text \<open>
  C39: the path of a node is its href.  If an absolute href leads to a node of the tree, then
  \<open>xmldb_node_path\<close> gives that href again, without a trailing slash.
\<close>

theorem xmldb_node_path_roundtrip:
  assumes "x_type root = XML_ELEMENT_NODE" "xprop L root OBIX_ATTR_HREF = Some ''/''" "abs_href h" "xmldb_get_node L root h = Some p"
  shows "xmldb_node_path L root p None ''/'' = Some (strip_slash h)"
  using node_path_look [OF assms(1-3)] assms(4) get_node_look [OF abs_href_path(2) [OF assms(3)], of L root] by simp

theorem xmldb_node_path_roundtrip_witness:
  "xmldb_node_path alist_lib ex_root [0, 0] None ''/'' = Some ''/obix/batch''"
proof -
  have "xmldb_node_path alist_lib ex_root [0, 0] None ''/'' = Some (strip_slash ''/obix/batch/'')"
    by (rule xmldb_node_path_roundtrip) code_simp+
  then show ?thesis by (simp add: strip_slash_def slash_def)
qed

text \<open>
  C40: copies for clients.  \<open>xml_copy\<close> gives the tree without the hidden, meta and comment nodes
  the flags exclude, and without what is below them: no excluded node is in the copy but
  possibly its root, everything else is there in its order.
\<close>

theorem xml_copy_exact:
  assumes "lib_ok L" "no_text src"
  shows "xml_copy L flags src = Some (prune (excluded L flags) src) \<and>
    (\<forall>d \<in> set (descendants (prune (excluded L flags) src)). \<not> excluded L flags d)"
  using copy_prune(1) [OF assms, of flags 0] prune_clean by (auto simp: xml_copy_def)

theorem xml_copy_exact_witness:
  "xml_copy alist_lib \<lparr>exclude_hidden = True, exclude_meta = True, exclude_comments = True\<rparr> ex_node =
     Some (XNode XML_ELEMENT_NODE ''obj'' [(''href'', ''/obix/watchService/watch7'')] [])"
proof -
  have "no_text ex_node" by (simp add: ex_node_def)
  from xml_copy_exact [OF alist_ok this, of "\<lparr>exclude_hidden = True, exclude_meta = True, exclude_comments = True\<rparr>"]
  show ?thesis by (simp add: ex_node_def excluded_def xml_is_hidden_def xml_attr_true_def alist_lib_def OBIX_ATTR_HIDDEN_def XML_TRUE_def)
qed

end
