(* ===== verification/Spec2Isabelle.thy ===== *)
theory Spec2Isabelle
  imports Obix_Bitmap Obix_Cache Obix_Tsync Obix_Ptask Obix_Timestamp Obix_Watch Obix_History_Service Obix_Xmldb
begin

text \<open>
  Verification of the oBIX server and its libraries.

  \<^bold>\<open>The program.\<close>  An oBIX server keeps a tree of XML objects, the global DOM tree, in memory and
  serves it to clients over FastCGI.  Clients sign up device contracts, write to their nodes,
  watch nodes for changes with long polls, and keep histories of records for devices.
  Server threads work in parallel; devices, watches and history facilities are guarded by
  readers-writers monitors, IDs of watches come from a bitmap, leases run out through a queue
  of periodic tasks, and devices are found through a cache in front of a hash table.

  \<^bold>\<open>Theories and sources\<close> (under \<open>src/src\<close>):

  \<^item> \<open>Obix_Prelude\<close>: C strings as lists of characters, C integers, shared lemmas.
  \<^item> \<open>Obix_Interfaces\<close>, \<open>Obix_Objects\<close>: the contracts between components as locales:
    \<open>id_pool\<close> (interpreted in \<open>Obix_Bitmap\<close>), \<open>rw_monitor\<close> (in \<open>Obix_Tsync\<close>), \<open>object_table\<close>
    (in \<open>Obix_History_Service\<close>); \<open>keyed_ops\<close> is stated and interpreted in \<open>Obix_Hash\<close>.
  \<^item> \<open>Obix_Strings\<close>: string and path helpers of \<open>libs/obix_utils.c\<close> and the href functions of
    \<open>libs/xml_utils.c\<close>.
  \<^item> \<open>Obix_Bitmap\<close>: \<open>libs/bitmap.c\<close>, with 64-bit maps as words and the two lists as a list of
    nodes and a queue of indices.
  \<^item> \<open>Obix_Hash\<close>, \<open>Obix_Cache\<close>: \<open>libs/hash.c\<close>, \<open>libs/cache.c\<close>, and the registry of devices in
    \<open>server/device.c\<close> (\<open>device_search\<close>, \<open>__device_link\<close>, \<open>__device_unlink\<close>).
  \<^item> \<open>Obix_Tsync\<close>: \<open>libs/tsync.c\<close>, every critical section as a function on the counters, all
    interleavings of any number of threads as a step relation.
  \<^item> \<open>Obix_Ptask\<close>: \<open>libs/ptask.c\<close>, the queue, the calls of clients and the steps of the worker.
  \<^item> \<open>Obix_Errmsg\<close>: \<open>server/errmsg.c\<close> and \<open>server/security.c\<close>.
  \<^item> \<open>Obix_Time\<close>, \<open>Obix_Timestamp\<close>: durations and timestamps of \<open>libs/obix_utils.c\<close>, with the
    calendar functions of the C library they call.
  \<^item> \<open>Obix_Watch\<close>: \<open>server/watch.c\<close>, watches, their items, poll tasks, polling threads and leases
    as one state, each critical section as a function, runs as sequences of operations.
  \<^item> \<open>Obix_History\<close>, \<open>Obix_History_Service\<close>: \<open>server/history.c\<close>, one facility with its log files,
    and the service with the list of facilities, the folder on disk and the handlers.
  \<^item> \<open>Obix_Xml\<close>, \<open>Obix_Xmldb\<close>: nodes (\<open>libs/xml_utils.c\<close>) and the global tree
    (\<open>server/xml_storage.c\<close>).  libxml2 is a parameter of the definitions (\<open>xml_lib\<close>), with its
    documented behaviour as the hypothesis \<open>lib_ok\<close>; attributes as association lists are an instance.

  \<^bold>\<open>What is shown.\<close>  For the monitor: exclusion, no lost wakeups, refusal after shutdown, stable
  reads.  For the bitmap: IDs are fresh, exclusive under interleaving, and released one by one.
  For hash table and cache: both together are a map up to trailing slashes.  For the task
  queue: sortedness under all interleavings, exact deadlines.  For watches: one place and one
  answer for each poll, IDs that match the pool, no use after disposal, delivery of changes.
  For histories: a facility refines an append-only log, queries are exact, the service refines a map
  from names to logs, and a restart loses nothing.  For the tree: lookup after insertion, deletion
  as its inverse, node paths as the inverse of lookup, copies without excluded nodes.  Round trips for
  durations, timestamps, watch URIs and device IDs; bounds of buffers.  Theorems that show a
  defect state when exactly the code goes wrong.

  \<^bold>\<open>Bounds and fuel.\<close>  \<open>gmtime\<close> finds year and month with as much fuel as there are days and
  months, proved enough; timestamps are those up to the year 9999, which have four digits.
  The theorems on history queries take logs of fewer than \<open>10 ^ 9\<close> records, as many as the
  nine digits of the reply header can show, and records whose markup is that of the clients
  (\<open>rec_ok\<close>).  Loops of the code that may wait for ever are steps of a relation.  Other loops are
  recursion on lists, or functions with a measure.

  \<^bold>\<open>Not modelled.\<close>  The contents of device contracts and their persistent files, the dispatch of
  requests and FastCGI (input and output), the client library (HTTP through libcurl), the adaptors and
  the tools (programs of their own), logging and configuration, and the release of memory.
\<close>

end
